(* ===== verification/RwPrelude.thy ===== *)
theory RwPrelude
  imports Main "HOL-Library.Word"
begin

text \<open>
  The vocabulary shared by every component: the machine integers of the source, the build
  configuration the crate is compiled with, the outcome of a computation that may panic, and
  the generic lemmas and named collections the component theories use.

  \<^item> \<open>u32\<close> and \<open>u64\<close> are the Rust types of the same names; arithmetic wraps, so every
    place where Rust would panic on overflow goes through \<open>checked_add\<close> and its kin.
  \<^item> \<open>build\<close> holds the two compile-time switches the source depends on:
    \<open>cfg(debug_assertions)\<close> and the overflow checks of the compiler.
  \<^item> \<open>outcome\<close> is the result of running code: a value, a fault (a panic, or undefined
    behaviour where the release build does not check), or \<open>Hang\<close> (the calling thread blocks
    and nothing in the model will ever wake it).
\<close>

unbundle bit_operations_syntax

type_synonym u32 = "32 word"
type_synonym u64 = "64 word"

record build =
  debug_assertions :: bool
  overflow_checks :: bool

definition debug_build :: build where
  "debug_build = \<lparr>debug_assertions = True, overflow_checks = True\<rparr>"

definition release_build :: build where
  "release_build = \<lparr>debug_assertions = False, overflow_checks = False\<rparr>"

datatype fault =
    DebugAssertion
  | ArithmeticOverflow
  | TooManyReaders
  | UnwrapNone
  | IndexOutOfBounds
  | Unreachable
  | DivisionByZero
  | UndefinedBehaviour
  | AssertionFailed

datatype 'a outcome = Value 'a | Fault fault | Hang

named_theorems outcome_simps \<open>unfolding of the outcome combinators\<close>
named_theorems bits_simps \<open>the fields of a header word after each bit operation\<close>

section \<open>Outcome combinators\<close>

fun obind :: "'a outcome \<Rightarrow> ('a \<Rightarrow> 'b outcome) \<Rightarrow> 'b outcome" where
  "obind (Value x) k = k x"
| "obind (Fault f) k = Fault f"
| "obind Hang k = Hang"

definition omap :: "('a \<Rightarrow> 'b) \<Rightarrow> 'a outcome \<Rightarrow> 'b outcome" where
  "omap f m = obind m (\<lambda>x. Value (f x))"

definition debug_assert :: "build \<Rightarrow> bool \<Rightarrow> 'a outcome \<Rightarrow> 'a outcome" where
  "debug_assert cfg c k = (if debug_assertions cfg \<and> \<not> c then Fault DebugAssertion else k)"

definition checked_add :: "build \<Rightarrow> 'w::len word \<Rightarrow> 'w word \<Rightarrow> 'w word outcome" where
  "checked_add cfg a b =
     (if overflow_checks cfg \<and> unat a + unat b \<ge> 2 ^ LENGTH('w)
      then Fault ArithmeticOverflow else Value (a + b))"

definition checked_sub :: "build \<Rightarrow> 'w::len word \<Rightarrow> 'w word \<Rightarrow> 'w word outcome" where
  "checked_sub cfg a b =
     (if overflow_checks cfg \<and> unat a < unat b
      then Fault ArithmeticOverflow else Value (a - b))"

definition checked_mul :: "build \<Rightarrow> 'w::len word \<Rightarrow> 'w word \<Rightarrow> 'w word outcome" where
  "checked_mul cfg a b =
     (if overflow_checks cfg \<and> unat a * unat b \<ge> 2 ^ LENGTH('w)
      then Fault ArithmeticOverflow else Value (a * b))"

definition option_unwrap :: "'a option \<Rightarrow> 'a outcome" where
  "option_unwrap m = (case m of Some x \<Rightarrow> Value x | None \<Rightarrow> Fault UnwrapNone)"

text \<open>The macros \<open>assert!\<close> and \<open>assert_eq!\<close>, for the tests and the examples of the source.\<close>

definition assert_that :: "bool \<Rightarrow> 'a outcome \<Rightarrow> 'a outcome" where
  "assert_that c k = (if c then k else Fault AssertionFailed)"

definition assert_eq :: "'b \<Rightarrow> 'b \<Rightarrow> 'a outcome \<Rightarrow> 'a outcome" where
  "assert_eq a b k = assert_that (a = b) k"

definition passes :: "unit outcome \<Rightarrow> bool" where
  "passes t \<longleftrightarrow> t = Value ()"

text \<open>A loop that never returns leaves its thread hanging.\<close>

definition returns :: "'a outcome option \<Rightarrow> 'a outcome" where
  "returns m = (case m of None \<Rightarrow> Hang | Some r \<Rightarrow> r)"

lemma returns_simps [simp, outcome_simps]: "returns (Some r) = r" "returns None = Hang"
  by (simp_all add: returns_def)

lemma assert_simps [simp, outcome_simps]:
  "assert_that True k = k" "assert_eq a a k = k" "a = b \<Longrightarrow> assert_eq a b k = k" "passes (Value u)"
  by (simp_all add: assert_that_def assert_eq_def passes_def)

lemma obind_Value_iff:
  "obind m k = Value y \<longleftrightarrow> (\<exists>x. m = Value x \<and> k x = Value y)"
  by (cases m) auto

lemma obind_assoc: "obind (obind m f) g = obind m (\<lambda>x. obind (f x) g)"
  by (cases m) auto

lemma omap_Value_iff: "omap f m = Value y \<longleftrightarrow> (\<exists>x. m = Value x \<and> y = f x)"
  by (cases m) (auto simp: omap_def)

lemma omap_simps [simp, outcome_simps]:
  "omap f (Value x) = Value (f x)"
  "omap f (Fault e) = Fault e"
  "omap f Hang = Hang"
  by (simp_all add: omap_def)

lemma obind_cong [fundef_cong]:
  "m = m' \<Longrightarrow> (\<And>x. m' = Value x \<Longrightarrow> k x = k' x) \<Longrightarrow> obind m k = obind m' k'"
  by (cases m') auto

lemma debug_assert_True [simp, outcome_simps]: "debug_assert cfg True k = k"
  by (simp add: debug_assert_def)

lemma debug_assert_holds [outcome_simps]: "c \<Longrightarrow> debug_assert cfg c k = k"
  by (simp add: debug_assert_def)

lemma debug_assert_Value_iff:
  "debug_assert cfg c k = Value x \<longleftrightarrow> (debug_assertions cfg \<longrightarrow> c) \<and> k = Value x"
  by (auto simp: debug_assert_def)

lemma checked_add_ok [outcome_simps]:
  fixes a b :: "'w::len word"
  shows "unat a + unat b < 2 ^ LENGTH('w) \<Longrightarrow> checked_add cfg a b = Value (a + b)"
  by (simp add: checked_add_def)

lemma checked_sub_ok [outcome_simps]:
  "unat b \<le> unat a \<Longrightarrow> checked_sub cfg a b = Value (a - b)"
  by (simp add: checked_sub_def)

lemma checked_mul_ok [outcome_simps]:
  fixes a b :: "'w::len word"
  shows "unat a * unat b < 2 ^ LENGTH('w) \<Longrightarrow> checked_mul cfg a b = Value (a * b)"
  by (simp add: checked_mul_def)

section \<open>Generic lemmas\<close>

lemma sum_fun_upd_nat:
  fixes f :: "'t \<Rightarrow> nat"
  assumes "finite A" and "t \<in> A"
  shows "(\<Sum>i\<in>A. (f(t := x)) i) + f t = (\<Sum>i\<in>A. f i) + x"
proof -
  have "(\<Sum>i\<in>A. (f(t := x)) i) = x + (\<Sum>i\<in>A - {t}. f i)"
    using assms by (simp add: sum.remove)
  moreover have "(\<Sum>i\<in>A. f i) = f t + (\<Sum>i\<in>A - {t}. f i)"
    using assms by (rule sum.remove)
  ultimately show ?thesis by simp
qed

lemma sum_member_le_nat:
  fixes f :: "'t \<Rightarrow> nat"
  shows "finite A \<Longrightarrow> t \<in> A \<Longrightarrow> f t \<le> (\<Sum>i\<in>A. f i)"
  by (rule member_le_sum) auto

lemma unat_Suc_word:
  fixes w :: "'w::len word"
  shows "unat w + 1 < 2 ^ LENGTH('w) \<Longrightarrow> unat (w + 1) = unat w + 1"
  by (simp add: unat_word_ariths)

end
