(* ===== verification/RwBits.thy ===== *)
theory RwBits
  imports RwPrelude
begin

text \<open>
  The 64-bit state word of \<open>Header\<close> (\<open>src/src/header.rs\<close>): the constants, the bit-level
  accessors and updates (header.rs lines 10-15 and 406-491), and the abstract view of a word.
  The most significant bit is the thread notification bit (set when nobody is blocked), the
  next 31 bits count the readers or are all ones under a write lock, the low 32 bits hold the
  ID. The debug assertions of the source are branches of the model.
\<close>

section \<open>Constants and bit operations\<close>

definition RESERVED_ID :: u32 where
  "RESERVED_ID = - 1"

definition MAX_CONCURRENT_READS :: u32 where
  "MAX_CONCURRENT_READS = push_bit 31 1 - 2"

definition unoccupied_bits :: "u32 \<Rightarrow> u64" where
  "unoccupied_bits i = ucast i"

definition thread_notification_mask :: u64 where
  "thread_notification_mask = push_bit 63 1"

definition occupied_unlocked_bits :: "u32 \<Rightarrow> u64" where
  "occupied_unlocked_bits i = thread_notification_mask OR unoccupied_bits i"

definition is_occupied :: "u64 \<Rightarrow> bool" where
  "is_occupied state = (drop_bit 32 state \<noteq> 0)"

definition write_locked_bits :: "u32 \<Rightarrow> u64" where
  "write_locked_bits i = ucast i OR push_bit 32 (ucast (- 1 :: u32))"

definition id_from_bits :: "u64 \<Rightarrow> u32" where
  "id_from_bits bits = ucast bits"

definition readers_from_bits :: "u64 \<Rightarrow> u32" where
  "readers_from_bits bits = ucast (drop_bit 32 bits) AND NOT (push_bit 31 1)"

definition is_write_locked :: "u64 \<Rightarrow> bool" where
  "is_write_locked bits = (readers_from_bits bits = NOT (push_bit 31 1))"

definition notification_bit_clear :: "u64 \<Rightarrow> bool" where
  "notification_bit_clear bits = (bits AND thread_notification_mask = 0)"

definition has_thread_blocking :: "build \<Rightarrow> u64 \<Rightarrow> bool outcome" where
  "has_thread_blocking cfg bits =
     debug_assert cfg (is_occupied bits) (Value (notification_bit_clear bits))"

definition mark_thread_blocking :: "build \<Rightarrow> u64 \<Rightarrow> u64 outcome" where
  "mark_thread_blocking cfg bits =
     debug_assert cfg (readers_from_bits bits > 0)
       (debug_assert cfg (id_from_bits bits \<noteq> RESERVED_ID)
         (Value (bits AND NOT thread_notification_mask)))"

definition unmark_thread_blocking :: "u64 \<Rightarrow> u64" where
  "unmark_thread_blocking bits = bits OR thread_notification_mask"

definition increment_readers :: "build \<Rightarrow> u64 \<Rightarrow> u64 outcome" where
  "increment_readers cfg bits =
     (if readers_from_bits bits = MAX_CONCURRENT_READS then Fault TooManyReaders
      else debug_assert cfg (\<not> is_write_locked bits)
        (debug_assert cfg (id_from_bits bits \<noteq> RESERVED_ID)
          (checked_add cfg bits (push_bit 32 1))))"

definition decrement_readers :: "build \<Rightarrow> u64 \<Rightarrow> u64 outcome" where
  "decrement_readers cfg bits =
     debug_assert cfg (readers_from_bits bits \<noteq> 0)
       (checked_sub cfg bits (push_bit 32 1))"

lemma unat_RESERVED_ID: "unat RESERVED_ID = 4294967295"
  by (simp add: RESERVED_ID_def unsigned_minus_1_eq_mask mask_eq_exp_minus_1)

section \<open>The fields of a word\<close>

text \<open>
  \<open>pack n r i\<close> is the word with notification bit \<open>n\<close>, reader field \<open>r\<close> and ID \<open>i\<close>. Every
  word is the \<open>pack\<close> of its fields, so a fact about words becomes arithmetic on them.
\<close>

definition pack :: "bool \<Rightarrow> nat \<Rightarrow> u32 \<Rightarrow> u64" where
  "pack n r i = word_of_nat ((if n then 2 ^ 63 else 0) + r * 2 ^ 32 + unat i)"

lemma unat_u32_less: "unat (i :: u32) < 4294967296"
  using unsigned_less [of i, where ?'a = nat] by simp

lemma unat_u64_less: "unat (w :: u64) < 18446744073709551616"
  using unsigned_less [of w, where ?'a = nat] by simp

lemma field_split:
  fixes c r i :: nat
  assumes "r < 2147483648" and "i < 4294967296"
  shows "(c * 9223372036854775808 + r * 4294967296 + i) mod 4294967296 = i"
    and "(c * 9223372036854775808 + r * 4294967296 + i) div 4294967296 mod 2147483648 = r"
proof -
  have eq: "c * 9223372036854775808 + r * 4294967296 + i = i + (c * 2147483648 + r) * 4294967296"
    by simp
  show "(c * 9223372036854775808 + r * 4294967296 + i) mod 4294967296 = i"
    unfolding eq using assms by (simp only: mod_mult_self1 mod_less)
  have "(i + (c * 2147483648 + r) * 4294967296) div 4294967296 = r + c * 2147483648"
    using assms by (subst div_mult_self1) simp_all
  then show "(c * 9223372036854775808 + r * 4294967296 + i) div 4294967296 mod 2147483648 = r"
    unfolding eq using assms by (simp only: mod_mult_self1 mod_less)
qed

lemma unat_pack:
  "r < 2147483648 \<Longrightarrow>
    unat (pack n r i) = of_bool n * 9223372036854775808 + r * 4294967296 + unat i"
  using unat_u32_less [of i] unfolding pack_def unsigned_of_nat by (simp add: take_bit_eq_mod)

lemma unat_id_from_bits: "unat (id_from_bits w) = unat w mod 2 ^ 32"
  by (simp add: id_from_bits_def unsigned_ucast_eq take_bit_eq_mod)

lemma readers_from_bits_take: "readers_from_bits w = take_bit 31 (ucast (drop_bit 32 w))"
  unfolding readers_from_bits_def
  by (rule bit_word_eqI) (auto simp: bit_and_iff bit_not_iff bit_push_bit_iff bit_take_bit_iff
      bit_1_iff simp del: push_bit_of_1 push_bit_numeral)

lemma unat_readers_from_bits: "unat (readers_from_bits w) = unat w div 2 ^ 32 mod 2 ^ 31"
proof -
  have "unat (readers_from_bits w) = unat w div 2 ^ 32 mod 2 ^ 32 mod 2 ^ 31"
    unfolding readers_from_bits_take
    by (simp only: unsigned_take_bit_eq unsigned_ucast_eq unat_drop_bit_eq)
      (simp only: take_bit_eq_mod drop_bit_eq_div, simp)
  then show ?thesis by (simp add: mod_mod_cancel)
qed

lemma readers_from_bits_less: "unat (readers_from_bits w) < 2147483648"
  by (simp add: unat_readers_from_bits)

lemma bit63_iff: "bit (w :: u64) 63 \<longleftrightarrow> 2 ^ 63 \<le> unat w"
proof -
  have "bit w 63 \<longleftrightarrow> odd (unat w div 2 ^ 63)"
    using bit_unsigned_iff [of w 63, where ?'a = nat] by (simp add: bit_iff_odd)
  also have "\<dots> \<longleftrightarrow> 2 ^ 63 \<le> unat w"
  proof (cases "unat w < 2 ^ 63")
    case True
    then show ?thesis by simp
  next
    case False
    then have "unat w div 2 ^ 63 = 1"
      using unat_u64_less [of w] by (intro div_nat_eqI) auto
    with False show ?thesis by simp
  qed
  finally show ?thesis .
qed

lemma notification_bit_clear_bit: "notification_bit_clear w \<longleftrightarrow> \<not> bit w 63"
proof -
  have eq63: "n < 64 \<Longrightarrow> 63 \<le> n \<Longrightarrow> n = 63" for n :: nat by simp
  show ?thesis
    unfolding notification_bit_clear_def thread_notification_mask_def
    by (simp only: bit_eq_iff) (simp only: bit_simps, auto dest: eq63 spec [of _ 63])
qed

lemma notification_bit_clear_iff: "notification_bit_clear w \<longleftrightarrow> unat w < 2 ^ 63"
  by (simp add: notification_bit_clear_bit bit63_iff not_le)

lemma is_occupied_iff: "is_occupied w \<longleftrightarrow> 2 ^ 32 \<le> unat w"
proof -
  have "is_occupied w \<longleftrightarrow> unat w div 2 ^ 32 \<noteq> 0"
    unfolding is_occupied_def
    by (metis drop_bit_eq_div unat_drop_bit_eq unsigned_0 unsigned_eq_0_iff)
  then show ?thesis by (simp add: div_eq_0_iff not_less)
qed

lemma is_write_locked_iff: "is_write_locked w \<longleftrightarrow> unat (readers_from_bits w) = 2147483647"
proof -
  have "unat (NOT (push_bit 31 1) :: u32) = 2147483647" by simp
  then show ?thesis unfolding is_write_locked_def by (metis word_unat_eq_iff)
qed

lemma word_pack:
  "w = pack (\<not> notification_bit_clear w) (unat (readers_from_bits w)) (id_from_bits w)"
proof -
  define q where "q = unat w div 2 ^ 32"
  have w: "unat w = q * 4294967296 + unat w mod 2 ^ 32"
    unfolding q_def using div_mult_mod_eq [of "unat w" "2 ^ 32"] by simp
  have q: "q = q div 2147483648 * 2147483648 + q mod 2147483648"
    by (simp only: div_mult_mod_eq)
  have top: "q div 2147483648 = of_bool (\<not> unat w < 2 ^ 63)"
  proof -
    have "q div 2147483648 = unat w div 2 ^ 63"
      by (simp add: q_def div_mult2_eq [symmetric])
    then show ?thesis using unat_u64_less [of w] by (auto intro!: div_nat_eqI)
  qed
  have "unat w = of_bool (\<not> unat w < 2 ^ 63) * 9223372036854775808
      + q mod 2147483648 * 4294967296 + unat w mod 2 ^ 32"
    using w q unfolding top by linarith
  then show ?thesis
    using readers_from_bits_less [of w]
    by (simp only: word_unat_eq_iff unat_pack unat_id_from_bits notification_bit_clear_iff)
      (simp only: unat_readers_from_bits q_def, simp)
qed

lemma id_from_bits_pack [simp, bits_simps]: "r < 2147483648 \<Longrightarrow> id_from_bits (pack n r i) = i"
  using unat_u32_less [of i] field_split(1) [of r "unat i" "of_bool n"]
  by (simp add: word_unat_eq_iff unat_id_from_bits unat_pack)

lemma readers_from_bits_pack [simp, bits_simps]:
  "r < 2147483648 \<Longrightarrow> unat (readers_from_bits (pack n r i)) = r"
  using unat_u32_less [of i] field_split(2) [of r "unat i" "of_bool n"]
  by (simp add: unat_readers_from_bits unat_pack)

lemma readers_eq_pack [bits_simps]:
  assumes "r < 2147483648"
  shows "readers_from_bits (pack n r i) = 0 \<longleftrightarrow> r = 0"
    and "readers_from_bits (pack n r i) = 1 \<longleftrightarrow> r = 1"
    and "0 < readers_from_bits (pack n r i) \<longleftrightarrow> 0 < r"
  using readers_from_bits_pack [OF assms, of n i]
  by (simp_all add: word_unat_eq_iff word_less_nat_alt)

lemma notification_bit_clear_pack [simp, bits_simps]:
  "r < 2147483648 \<Longrightarrow> notification_bit_clear (pack n r i) \<longleftrightarrow> \<not> n"
  using unat_u32_less [of i] by (simp add: notification_bit_clear_iff unat_pack)

lemma is_occupied_pack [simp, bits_simps]:
  "r < 2147483648 \<Longrightarrow> is_occupied (pack n r i) \<longleftrightarrow> n \<or> 0 < r"
  using unat_u32_less [of i] by (auto simp: is_occupied_iff unat_pack)

lemma is_write_locked_pack [simp, bits_simps]:
  "r < 2147483648 \<Longrightarrow> is_write_locked (pack n r i) \<longleftrightarrow> r = 2147483647"
  by (simp add: is_write_locked_iff)

lemma pack_inject [simp]:
  assumes "r < 2147483648" and "r' < 2147483648"
  shows "pack n r i = pack n' r' i' \<longleftrightarrow> n = n' \<and> r = r' \<and> i = i'"
proof
  assume eq: "pack n r i = pack n' r' i'"
  show "n = n' \<and> r = r' \<and> i = i'"
    using assms arg_cong [OF eq, of id_from_bits] arg_cong [OF eq, of notification_bit_clear]
      arg_cong [OF eq, of "\<lambda>w. unat (readers_from_bits w)"]
    by simp
qed simp

lemma word_cases:
  obtains n r i where "w = pack n r i" and "r < 2147483648"
  using word_pack [of w] readers_from_bits_less [of w] by blast

lemma unoccupied_bits_pack: "unoccupied_bits i = pack False 0 i"
  by (simp add: word_unat_eq_iff unat_pack unoccupied_bits_def unsigned_ucast_eq take_bit_eq_mod)
    (use unat_u32_less [of i] in simp)

lemma mask_fields:
  "id_from_bits (w OR thread_notification_mask) = id_from_bits w"
  "readers_from_bits (w OR thread_notification_mask) = readers_from_bits w"
  "\<not> notification_bit_clear (w OR thread_notification_mask)"
  "id_from_bits (w AND NOT thread_notification_mask) = id_from_bits w"
  "readers_from_bits (w AND NOT thread_notification_mask) = readers_from_bits w"
  "notification_bit_clear (w AND NOT thread_notification_mask)"
proof -
  note bits = bit_or_iff bit_and_iff bit_not_iff bit_push_bit_iff bit_take_bit_iff bit_1_iff
    bit_unsigned_iff bit_drop_bit_eq thread_notification_mask_def
  show "id_from_bits (w OR thread_notification_mask) = id_from_bits w"
    "id_from_bits (w AND NOT thread_notification_mask) = id_from_bits w"
    unfolding id_from_bits_def
    by (rule bit_word_eqI; simp add: bits del: push_bit_of_1 push_bit_numeral)+
  show "readers_from_bits (w OR thread_notification_mask) = readers_from_bits w"
    "readers_from_bits (w AND NOT thread_notification_mask) = readers_from_bits w"
    unfolding readers_from_bits_take
    by (rule bit_word_eqI; auto simp add: bits simp del: push_bit_of_1 push_bit_numeral)+
  show "\<not> notification_bit_clear (w OR thread_notification_mask)"
    "notification_bit_clear (w AND NOT thread_notification_mask)"
    unfolding notification_bit_clear_bit
    by (simp_all add: bits del: push_bit_of_1 push_bit_numeral)
qed

lemma or_mask_pack [bits_simps]:
  "r < 2147483648 \<Longrightarrow> pack n r i OR thread_notification_mask = pack True r i"
  by (subst word_pack [of "pack n r i OR thread_notification_mask"])
    (simp add: mask_fields)

lemma and_not_mask_pack [bits_simps]:
  "r < 2147483648 \<Longrightarrow> pack n r i AND NOT thread_notification_mask = pack False r i"
  by (subst word_pack [of "pack n r i AND NOT thread_notification_mask"])
    (simp add: mask_fields)

lemma unmark_thread_blocking_pack [bits_simps]:
  "r < 2147483648 \<Longrightarrow> unmark_thread_blocking (pack n r i) = pack True r i"
  by (simp add: unmark_thread_blocking_def or_mask_pack)

lemma occupied_unlocked_bits_pack: "occupied_unlocked_bits i = pack True 0 i"
  unfolding occupied_unlocked_bits_def unoccupied_bits_pack
  by (subst or.commute) (simp add: or_mask_pack)

lemma write_locked_bits_pack: "write_locked_bits i = pack True 2147483647 i"
proof -
  note bits = bit_or_iff bit_and_iff bit_not_iff bit_push_bit_iff bit_take_bit_iff bit_1_iff
    bit_unsigned_iff bit_drop_bit_eq bit_minus_1_iff
  have i: "id_from_bits (write_locked_bits i) = i"
    unfolding id_from_bits_def write_locked_bits_def
    by (rule bit_word_eqI) (auto simp add: bits simp del: push_bit_of_1 push_bit_numeral)
  have "readers_from_bits (write_locked_bits i) = NOT (push_bit 31 1)"
    unfolding readers_from_bits_take write_locked_bits_def
    by (rule bit_word_eqI) (auto simp add: bits simp del: push_bit_of_1 push_bit_numeral)
  then have r: "unat (readers_from_bits (write_locked_bits i)) = 2147483647" by simp
  have "\<not> notification_bit_clear (write_locked_bits i)"
    unfolding notification_bit_clear_bit write_locked_bits_def
    by (simp add: bits del: push_bit_of_1 push_bit_numeral)
  with i r show ?thesis by (subst word_pack) simp
qed

lemma mark_thread_blocking_pack [bits_simps]:
  "0 < r \<Longrightarrow> r < 2147483648 \<Longrightarrow> i \<noteq> RESERVED_ID \<Longrightarrow>
    mark_thread_blocking cfg (pack n r i) = Value (pack False r i)"
  by (simp add: mark_thread_blocking_def and_not_mask_pack debug_assert_holds word_gt_0
      unat_eq_zero flip: unat_gt_0)

lemma MAX_CONCURRENT_READS_nat: "unat MAX_CONCURRENT_READS = 2147483646"
  by (simp add: MAX_CONCURRENT_READS_def)

lemma readers_max_pack [bits_simps]:
  "r < 2147483648 \<Longrightarrow>
    readers_from_bits (pack n r i) = MAX_CONCURRENT_READS \<longleftrightarrow> r = 2147483646"
  by (metis MAX_CONCURRENT_READS_nat readers_from_bits_pack word_unat_eq_iff)

lemma increment_readers_pack [bits_simps]:
  assumes "r < 2147483646" and "i \<noteq> RESERVED_ID"
  shows "increment_readers cfg (pack n r i) = Value (pack n (Suc r) i)"
proof -
  have "pack n r i + push_bit 32 1 = pack n (Suc r) i"
    by (simp add: pack_def algebra_simps)
  moreover have "unat (pack n r i) + unat (push_bit 32 1 :: u64) < 2 ^ LENGTH(64)"
    using assms unat_u32_less [of i] by (simp add: unat_pack of_bool_def)
  ultimately show ?thesis
    using assms by (simp add: increment_readers_def readers_max_pack checked_add_def)
qed

lemma increment_readers_max [bits_simps]:
  "increment_readers cfg (pack n 2147483646 i) = Fault TooManyReaders"
  by (simp add: increment_readers_def readers_max_pack)

lemma decrement_readers_pack [bits_simps]:
  assumes "Suc r < 2147483648"
  shows "decrement_readers cfg (pack n (Suc r) i) = Value (pack n r i)"
proof -
  have "pack n (Suc r) i - push_bit 32 1 = pack n r i"
    by (simp add: pack_def algebra_simps)
  moreover have "unat (push_bit 32 1 :: u64) \<le> unat (pack n (Suc r) i)"
    using assms by (simp add: unat_pack)
  moreover have "readers_from_bits (pack n (Suc r) i) \<noteq> 0"
    using assms by (simp add: readers_eq_pack)
  ultimately show ?thesis by (simp add: decrement_readers_def checked_sub_def)
qed

lemma has_thread_blocking_pack [bits_simps]:
  "r < 2147483648 \<Longrightarrow> n \<or> 0 < r \<Longrightarrow> has_thread_blocking cfg (pack n r i) = Value (\<not> n)"
  by (simp add: has_thread_blocking_def debug_assert_holds)

lemmas bits_pack = unoccupied_bits_pack occupied_unlocked_bits_pack write_locked_bits_pack

lemma checked_add_id:
  "i \<noteq> RESERVED_ID \<Longrightarrow> checked_add cfg i 1 = Value (i + 1 :: u32)"
proof -
  assume "i \<noteq> RESERVED_ID"
  then have "unat i \<noteq> 4294967295"
    by (simp add: word_unat_eq_iff unat_RESERVED_ID)
  with unat_u32_less [of i] show ?thesis by (intro checked_add_ok) simp
qed

section \<open>The abstract view of a word\<close>

text \<open>
  What the comment on \<open>Header.state\<close> (header.rs lines 21-33) says a word means: the flag of
  \<open>ReadLocked\<close> and \<open>WriteLocked\<close> tells whether threads are blocked on the header.
\<close>

datatype header_view =
    Unoccupied u32
  | Unlocked u32
  | ReadLocked u32 nat bool
  | WriteLocked u32 bool

definition header_view :: "u64 \<Rightarrow> header_view" where
  "header_view w =
     (if \<not> is_occupied w then Unoccupied (id_from_bits w)
      else if is_write_locked w then WriteLocked (id_from_bits w) (notification_bit_clear w)
      else if readers_from_bits w = 0 then Unlocked (id_from_bits w)
      else ReadLocked (id_from_bits w) (unat (readers_from_bits w)) (notification_bit_clear w))"

lemma header_view_pack [bits_simps]:
  assumes "r < 2147483648"
  shows "header_view (pack n r i) =
    (if r = 0 then (if n then Unlocked i else Unoccupied i)
     else if r = 2147483647 then WriteLocked i (\<not> n) else ReadLocked i r (\<not> n))"
  using assms by (auto simp: header_view_def bits_simps)

lemma header_view_inject: "header_view w = header_view w' \<longleftrightarrow> w = w'"
proof
  assume eq: "header_view w = header_view w'"
  obtain n r i where w: "w = pack n r i" "r < 2147483648" by (rule word_cases)
  obtain n' r' i' where w': "w' = pack n' r' i'" "r' < 2147483648" by (rule word_cases)
  from eq show "w = w'" using w w' by (auto simp: header_view_pack split: if_splits)
qed simp

lemma header_view_range: "header_view w = ReadLocked i r b \<Longrightarrow> 0 < r \<and> r \<le> 2147483646"
  by (rule word_cases [of w]) (auto simp: header_view_pack split: if_splits)

text \<open>The IDs a header has handed out: those below its current one, and that one if occupied.\<close>

definition issued :: "u64 \<Rightarrow> u32 \<Rightarrow> bool" where
  "issued w i \<longleftrightarrow> i < id_from_bits w \<or> i = id_from_bits w \<and> is_occupied w"

lemma less_RESERVED_ID: "i < (j :: u32) \<Longrightarrow> i \<noteq> RESERVED_ID"
  by (metis RESERVED_ID_def word_n1_ge word_not_simps(3) not_less)

lemma less_next_id: "i \<le> j \<Longrightarrow> j \<noteq> RESERVED_ID \<Longrightarrow> i < (j + 1 :: u32)"
proof -
  assume "i \<le> j" and "j \<noteq> RESERVED_ID"
  then have "unat j + 1 < 2 ^ LENGTH(32)"
    using unat_u32_less [of j] by (simp add: word_unat_eq_iff unat_RESERVED_ID)
  then have "unat (j + 1) = unat j + 1" by (rule unat_Suc_word)
  with \<open>i \<le> j\<close> show ?thesis by (simp add: word_less_nat_alt word_le_nat_alt)
qed

text \<open>
  The bit layout of the state word is the one its comment documents, without loss: two
  words with the same abstract view (unoccupied, unlocked, read locked by some number of
  readers, or write locked, with or without blocked threads) are equal, and the three
  constructors of the source build exactly the unoccupied, the unlocked and the write locked
  state of their ID, with nobody blocked.
\<close>

lemma state_layout:
  "(header_view w = header_view w' \<longleftrightarrow> w = w') \<and>
   header_view (unoccupied_bits i) = Unoccupied i \<and>
   header_view (occupied_unlocked_bits i) = Unlocked i \<and>
   header_view (write_locked_bits i) = WriteLocked i False"
  by (simp add: header_view_inject bits_pack header_view_pack)

text \<open>
  C40. Adding a reader never reaches the write locked pattern: in an occupied word whose ID is
  not the reserved one and that is not write locked, \<open>increment_readers\<close> either panics, exactly
  when the maximum of 2^31 - 2 readers is held, or yields a read locked word with one reader
  more, the same ID and the same blocked flag, in every build.
\<close>

theorem increment_readers_view:
  assumes "is_occupied w" and "\<not> is_write_locked w" and "id_from_bits w \<noteq> RESERVED_ID"
  shows "increment_readers cfg w = Fault TooManyReaders \<and>
      header_view w = ReadLocked (id_from_bits w) 2147483646 (notification_bit_clear w) \<or>
    (\<exists>w'. increment_readers cfg w = Value w' \<and>
      header_view w' = ReadLocked (id_from_bits w) (unat (readers_from_bits w) + 1)
        (notification_bit_clear w) \<and>
      unat (readers_from_bits w) < 2147483646)"
proof -
  obtain n r i where w: "w = pack n r i" and r: "r < 2147483648" by (rule word_cases)
  have "r < 2147483647" using assms(2) w r by simp
  then consider "r = 2147483646" | "r < 2147483646" by linarith
  then show ?thesis
    using assms w by cases (auto simp: bits_simps)
qed

theorem increment_readers_view_witness:
  "increment_readers debug_build (occupied_unlocked_bits 7) = Value (pack True 1 7) \<and>
   header_view (pack True 1 7) = ReadLocked 7 1 False"
proof -
  have occ: "is_occupied (occupied_unlocked_bits 7)" "\<not> is_write_locked (occupied_unlocked_bits 7)"
    "id_from_bits (occupied_unlocked_bits 7) \<noteq> RESERVED_ID"
    by (simp_all add: bits_pack bits_simps RESERVED_ID_def)
  have "header_view (occupied_unlocked_bits 7) = Unlocked 7"
    by (simp add: bits_pack header_view_pack)
  with increment_readers_view [OF occ, of debug_build]
  have "\<exists>w'. increment_readers debug_build (occupied_unlocked_bits 7) = Value w' \<and>
      header_view w' = ReadLocked 7 1 False"
    by (simp add: bits_pack bits_simps)
  moreover have "header_view (pack True 1 7) = ReadLocked 7 1 False"
    by (simp add: header_view_pack)
  ultimately show ?thesis by (metis header_view_inject)
qed

end
