(* ===== verification/RwTimeout.thy ===== *)
theory RwTimeout
  imports RwPrelude
begin

text \<open>
  \<open>src/src/timeout.rs\<close>: the timeout of a blocking operation, its derived order, its
  constructors, and the result type of operations that may time out. An \<open>Instant\<close> of the
  standard library is the number of nanoseconds since some fixed origin; \<open>limit\<close> is the last
  instant the platform can represent (adding past it panics).
\<close>

type_synonym instant = nat
type_synonym duration = nat

datatype timeout = DontBlock | BlockUntil instant | BlockIndefinitely

datatype timed_out = TimedOut

datatype ('a, 'e) result = Ok 'a | Err 'e

type_synonym 'a block_result = "('a, timed_out) result"

text \<open>
  The comparison Rust derives: first the position of the variant, then its fields. It is the
  order of the type, so the sorting functions of the library sort timeouts the way the source does.
\<close>

fun timeout_le :: "timeout \<Rightarrow> timeout \<Rightarrow> bool" where
  "timeout_le DontBlock _ = True"
| "timeout_le (BlockUntil _) DontBlock = False"
| "timeout_le (BlockUntil a) (BlockUntil b) = (a \<le> b)"
| "timeout_le (BlockUntil _) BlockIndefinitely = True"
| "timeout_le BlockIndefinitely BlockIndefinitely = True"
| "timeout_le BlockIndefinitely _ = False"

lemma timeout_le_refl: "timeout_le x x"
  by (cases x) simp_all

lemma timeout_le_trans: "timeout_le x y \<Longrightarrow> timeout_le y z \<Longrightarrow> timeout_le x z"
  by (cases x; cases y; cases z) simp_all

lemma timeout_le_antisym: "timeout_le x y \<Longrightarrow> timeout_le y x \<Longrightarrow> x = y"
  by (cases x; cases y) simp_all

lemma timeout_le_linear: "timeout_le x y \<or> timeout_le y x"
  by (cases x; cases y) auto

instantiation timeout :: linorder
begin

definition less_eq_timeout :: "timeout \<Rightarrow> timeout \<Rightarrow> bool" where
  "less_eq_timeout = timeout_le"

definition less_timeout :: "timeout \<Rightarrow> timeout \<Rightarrow> bool" where
  "less_timeout a b = (timeout_le a b \<and> \<not> timeout_le b a)"

instance
proof
  fix x y z :: timeout
  show "x \<le> x" by (simp add: less_eq_timeout_def timeout_le_refl)
  show "x \<le> y \<or> y \<le> x" by (simp add: less_eq_timeout_def timeout_le_linear)
qed (auto simp: less_eq_timeout_def less_timeout_def intro: timeout_le_trans timeout_le_antisym)

end

lemma timeout_le_simps [simp]:
  "DontBlock \<le> t"
  "BlockUntil a \<le> BlockUntil b \<longleftrightarrow> a \<le> b"
  "BlockUntil a \<le> BlockIndefinitely"
  "\<not> BlockUntil a \<le> DontBlock"
  "\<not> BlockIndefinitely \<le> BlockUntil a"
  "\<not> BlockIndefinitely \<le> DontBlock"
  by (simp_all add: less_eq_timeout_def)

text \<open>\<open>Instant + Duration\<close> and \<open>Instant - Duration\<close> of the standard library.\<close>

definition instant_add :: "instant \<Rightarrow> instant \<Rightarrow> duration \<Rightarrow> instant outcome" where
  "instant_add limit now d = (if now + d \<le> limit then Value (now + d) else Fault ArithmeticOverflow)"

definition instant_sub :: "instant \<Rightarrow> duration \<Rightarrow> instant outcome" where
  "instant_sub now d = (if d \<le> now then Value (now - d) else Fault ArithmeticOverflow)"

definition block_for :: "instant \<Rightarrow> instant \<Rightarrow> duration \<Rightarrow> timeout outcome" where
  "block_for limit now d = omap BlockUntil (instant_add limit now d)"

definition duration_from_millis :: "u64 \<Rightarrow> duration" where
  "duration_from_millis millis = unat millis * 1000000"

definition block_for_millis :: "instant \<Rightarrow> instant \<Rightarrow> u64 \<Rightarrow> timeout outcome" where
  "block_for_millis limit now millis = block_for limit now (duration_from_millis millis)"

text \<open>How \<open>lock_read_slow\<close> and \<open>transition_slow\<close> read a timeout (header.rs lines 84-88, 292-296).\<close>

definition deadline_of :: "timeout \<Rightarrow> instant option block_result" where
  "deadline_of t =
     (case t of DontBlock \<Rightarrow> Err TimedOut
      | BlockIndefinitely \<Rightarrow> Ok None
      | BlockUntil d \<Rightarrow> Ok (Some d))"

section \<open>The unit test and the examples\<close>

text \<open>
  The unit test sorts timeouts with the derived order; the examples of the constructors read the
  clock twice, first at \<open>now\<close> and then at \<open>later\<close>.
\<close>

definition duration_from_secs :: "u64 \<Rightarrow> duration" where
  "duration_from_secs secs = unat secs * 1000000000"

definition test_timeout_ordering_is_correct :: "instant \<Rightarrow> instant \<Rightarrow> unit outcome" where
  "test_timeout_ordering_is_correct limit now =
     obind (instant_add limit now (duration_from_secs 1)) (\<lambda>after.
     let in_the_future = BlockUntil after in
     obind (instant_sub now (duration_from_secs 1)) (\<lambda>before.
     let in_the_past = BlockUntil before;
         timeouts = sort [BlockIndefinitely, in_the_future, in_the_past, DontBlock] in
     assert_eq timeouts [DontBlock, in_the_past, in_the_future, BlockIndefinitely] (
       Value ())))"

definition example_block_for :: "instant \<Rightarrow> instant \<Rightarrow> instant \<Rightarrow> unit outcome" where
  "example_block_for limit now later =
     (let first_timeout = BlockUntil now in
      obind (block_for limit later (duration_from_secs 1)) (\<lambda>second_timeout.
      assert_that (first_timeout < second_timeout) (
        Value ())))"

definition example_block_for_millis :: "instant \<Rightarrow> instant \<Rightarrow> instant \<Rightarrow> unit outcome" where
  "example_block_for_millis limit now later =
     (let first_timeout = BlockUntil now in
      obind (block_for_millis limit later 1000) (\<lambda>second_timeout.
      assert_that (first_timeout < second_timeout) (
        Value ())))"

text \<open>
  The order of timeouts is the order of the times they allow: the unit test that sorts them
  and the examples of the constructors pass at every time of a monotonic clock that is a second
  away from both ends of the clock's range.
\<close>

lemma timeout_tests_pass:
  assumes "10 ^ 9 \<le> now" and "now \<le> later" and "later + 10 ^ 9 \<le> limit"
  shows "list_all passes [test_timeout_ordering_is_correct limit now,
    example_block_for limit now later, example_block_for_millis limit now later]"
  using assms
  by (simp add: test_timeout_ordering_is_correct_def example_block_for_def example_block_for_millis_def
      block_for_millis_def block_for_def instant_add_def instant_sub_def duration_from_secs_def
      duration_from_millis_def less_le_not_le Let_def)

end
