(* ===== verification/RwAtomic.thy ===== *)
theory RwAtomic
  imports RwTimeout
begin

text \<open>
  The atomic integers (\<open>src/src/util/sync/atomic.rs\<close>): a cell is its value, and an access is a
  function from the value to a result and the new value. \<open>spur\<close> is the number of times the
  weak exchange is still going to fail spuriously. What an access is ordered with is kept apart
  from its value: the enumeration \<open>Ordering\<close> is here, its use in \<open>RwOrdering\<close>.
\<close>

datatype memory_ordering = Relaxed | Acquire | Release | AcqRel | SeqCst

text \<open>Whether an access with an ordering acquires what was released to the cell, or releases.\<close>

definition acquires :: "memory_ordering \<Rightarrow> bool" where
  "acquires o1 \<longleftrightarrow> o1 \<in> {Acquire, AcqRel, SeqCst}"

definition releases :: "memory_ordering \<Rightarrow> bool" where
  "releases o1 \<longleftrightarrow> o1 \<in> {Release, AcqRel, SeqCst}"

lemma ordering_simps [simp]:
  "acquires Acquire" "acquires AcqRel" "acquires SeqCst" "\<not> acquires Relaxed" "\<not> acquires Release"
  "releases Release" "releases AcqRel" "releases SeqCst" "\<not> releases Relaxed" "\<not> releases Acquire"
  by (simp_all add: acquires_def releases_def)

definition atomic_new :: "'w::len word \<Rightarrow> 'w word" where
  "atomic_new v = v"

definition atomic_store :: "'w::len word \<Rightarrow> 'w word \<Rightarrow> 'w word" where
  "atomic_store v cell = v"

definition load :: "'w::len word \<Rightarrow> 'w word" where
  "load cell = cell"

definition load_directly :: "'w::len word \<Rightarrow> 'w word" where
  "load_directly cell = cell"

definition store_directly :: "'w::len word \<Rightarrow> 'w word \<Rightarrow> 'w word" where
  "store_directly v cell = v"

definition swap :: "'w::len word \<Rightarrow> 'w word \<Rightarrow> 'w word \<times> 'w word" where
  "swap new cell = (cell, new)"

definition atomic_compare_exchange ::
  "'w::len word \<Rightarrow> 'w word \<Rightarrow> 'w word \<Rightarrow> ('w word, 'w word) result \<times> 'w word" where
  "atomic_compare_exchange cell expected new =
     (if cell = expected then (Ok cell, new) else (Err cell, cell))"

definition atomic_compare_exchange_weak ::
  "nat \<Rightarrow> 'w::len word \<Rightarrow> 'w word \<Rightarrow> 'w word \<Rightarrow>
    ('w word, 'w word) result \<times> 'w word \<times> nat" where
  "atomic_compare_exchange_weak spur cell expected new =
     (if cell \<noteq> expected then (Err cell, cell, spur)
      else case spur of 0 \<Rightarrow> (Ok cell, new, 0) | Suc s \<Rightarrow> (Err cell, cell, s))"

definition fetch_add :: "'w::len word \<Rightarrow> 'w word \<Rightarrow> 'w word \<times> 'w word" where
  "fetch_add v cell = (cell, cell + v)"

definition fetch_sub :: "'w::len word \<Rightarrow> 'w word \<Rightarrow> 'w word \<times> 'w word" where
  "fetch_sub v cell = (cell, cell - v)"

definition fetch_or :: "'w::len word \<Rightarrow> 'w word \<Rightarrow> 'w word \<times> 'w word" where
  "fetch_or v cell = (cell, cell OR v)"

definition into_inner :: "'w::len word \<Rightarrow> 'w word" where
  "into_inner cell = load_directly cell"

lemmas atomic_accesses [simp] = load_def load_directly_def store_directly_def swap_def
  atomic_compare_exchange_def atomic_compare_exchange_weak_def fetch_add_def fetch_sub_def
  fetch_or_def into_inner_def atomic_new_def atomic_store_def

end
