(* ===== verification/RwHeader.thy ===== *)
theory RwHeader
  imports RwBits RwAtomic
begin

text \<open>
  The operations of \<open>Header\<close> (\<open>src/src/header.rs\<close>) executed by one thread while no other
  thread touches the header: each takes the state word and returns its result and the new
  word. \<open>spur\<close> is the number of times \<open>compare_exchange_weak\<close> is still going to fail
  spuriously. A park without a deadline that nobody can end is \<open>Hang\<close>; one with a deadline
  ends by timing out. The interleaved execution is in the theory \<open>RwConcurrent\<close>.
\<close>

section \<open>Atomic accesses\<close>

definition compare_exchange :: "u64 \<Rightarrow> u64 \<Rightarrow> u64 \<Rightarrow> (u64, u64) result \<times> u64" where
  "compare_exchange w expected new = atomic_compare_exchange w expected new"

definition compare_exchange_weak ::
  "nat \<Rightarrow> u64 \<Rightarrow> u64 \<Rightarrow> u64 \<Rightarrow> (u64, u64) result \<times> u64 \<times> nat" where
  "compare_exchange_weak spur w expected new = atomic_compare_exchange_weak spur w expected new"

section \<open>Blocking\<close>

datatype 'a block_choice = BlockOn u64 | DontBlockOn 'a

datatype 'a park_choice = ParkNow | DontPark 'a

datatype 'a park_result = Waited | ParkTimedOut | DidntPark 'a

datatype response = Matched u64 | Mismatch | Transitioned bool

text \<open>
  The two closures passed to \<open>block\<close>: that of \<open>lock_read_slow\<close> (with the ID to match) and
  that of \<open>transition_slow\<close> (with the expected and the new word).
\<close>

datatype closure = ReadClosure u32 | TransitionClosure u64 u64

fun run_closure :: "closure \<Rightarrow> u64 \<Rightarrow> response block_choice \<times> u64" where
  "run_closure (ReadClosure i) w =
     (if id_from_bits w \<noteq> i then (DontBlockOn Mismatch, w)
      else if is_write_locked w then (BlockOn w, w)
      else (DontBlockOn (Matched w), w))"
| "run_closure (TransitionClosure expected new) w =
     (case compare_exchange w expected new of
        (Ok _, w') \<Rightarrow> (DontBlockOn (Transitioned True), w')
      | (Err actual, w') \<Rightarrow>
          (if id_from_bits actual = id_from_bits expected then (BlockOn actual, w')
           else (DontBlockOn (Transitioned False), w')))"

lemma run_closure_BlockOn: "run_closure c w = (BlockOn e, w') \<Longrightarrow> e = w \<and> w' = w"
  by (cases c) (auto simp: compare_exchange_def split: if_splits)

function block_result_to_park_result ::
  "build \<Rightarrow> closure \<Rightarrow> u64 \<Rightarrow> (response park_choice \<times> u64) outcome" where
  "block_result_to_park_result cfg c w =
     (case run_closure c w of
        (BlockOn expected, w1) \<Rightarrow>
          obind (mark_thread_blocking cfg expected) (\<lambda>new.
            case compare_exchange w1 expected new of
              (Ok _, w2) \<Rightarrow> Value (ParkNow, w2)
            | (Err _, w2) \<Rightarrow> block_result_to_park_result cfg c w2)
      | (DontBlockOn r, w1) \<Rightarrow> Value (DontPark r, w1))"
  by pat_completeness auto
termination
  by (relation "{}") (auto simp: compare_exchange_def split: if_splits
      dest!: run_closure_BlockOn [OF sym])

declare block_result_to_park_result.simps [simp del]

text \<open>
  \<open>Park::park\<close> with nobody to unpark the thread: it sleeps forever without a deadline and
  times out with one.
\<close>

fun park_alone :: "instant option \<Rightarrow> 'a park_choice \<Rightarrow> 'a park_result outcome" where
  "park_alone None ParkNow = Hang"
| "park_alone (Some deadline) ParkNow = Value ParkTimedOut"
| "park_alone _ (DontPark r) = Value (DidntPark r)"

lemma park_alone_not_Waited [simp]: "park_alone d c \<noteq> Value Waited"
  by (cases "(d, c)" rule: park_alone.cases) auto

function header_block ::
  "build \<Rightarrow> instant option \<Rightarrow> closure \<Rightarrow> u64 \<Rightarrow> (response block_result \<times> u64) outcome" where
  "header_block cfg deadline c w =
     obind (block_result_to_park_result cfg c w) (\<lambda>(choice, w').
       obind (park_alone deadline choice) (\<lambda>r.
         case r of
           Waited \<Rightarrow> header_block cfg deadline c w'
         | ParkTimedOut \<Rightarrow> Value (Err TimedOut, w')
         | DidntPark result \<Rightarrow> Value (Ok result, w')))"
  by pat_completeness auto
termination
  by (relation "{}") auto

declare header_block.simps [simp del]

text \<open>
  Both closures leave the word alone when they decide to block, so the CAS that marks the
  thread as blocking succeeds at once.
\<close>

lemma run_closure_DontBlockOn_Matched:
  "run_closure c w = (DontBlockOn (Matched e), w') \<Longrightarrow> e = w \<and> w' = w"
  by (cases c) (auto simp: compare_exchange_def split: if_splits)

lemma block_result_eq:
  "block_result_to_park_result cfg c w =
     (case run_closure c w of
        (BlockOn _, _) \<Rightarrow> omap (\<lambda>new. (ParkNow, new)) (mark_thread_blocking cfg w)
      | (DontBlockOn r, w1) \<Rightarrow> Value (DontPark r, w1))"
  by (subst block_result_to_park_result.simps)
    (auto simp: omap_def compare_exchange_def dest!: run_closure_BlockOn
      split: prod.split block_choice.split)

lemma header_block_eq:
  "header_block cfg deadline c w =
     (case run_closure c w of
        (BlockOn _, _) \<Rightarrow> obind (mark_thread_blocking cfg w) (\<lambda>new.
          case deadline of None \<Rightarrow> Hang | Some _ \<Rightarrow> Value (Err TimedOut, new))
      | (DontBlockOn r, w1) \<Rightarrow> Value (Ok r, w1))"
  by (subst header_block.simps)
    (auto simp: block_result_eq omap_def obind_assoc split: prod.split block_choice.split
      option.split intro!: obind_cong)

lemma header_block_Matched:
  "header_block cfg deadline c w = Value (Ok (Matched e), w') \<Longrightarrow> e = w \<and> w' = w"
  by (auto simp: header_block_eq obind_Value_iff dest!: run_closure_DontBlockOn_Matched
      split: prod.splits block_choice.splits option.splits)

section \<open>Read locking\<close>

definition header_new :: "build \<Rightarrow> u64 outcome" where
  "header_new cfg =
     (let state = unoccupied_bits 0 in debug_assert cfg (state = 0) (Value state))"

function lock_read_with_current ::
    "build \<Rightarrow> nat \<Rightarrow> u32 \<Rightarrow> u64 \<Rightarrow> timeout \<Rightarrow> u64 \<Rightarrow> (bool block_result \<times> u64) outcome"
  and lock_read_slow ::
    "build \<Rightarrow> nat \<Rightarrow> u32 \<Rightarrow> timeout \<Rightarrow> u64 \<Rightarrow> (bool block_result \<times> u64) outcome" where
  "lock_read_with_current cfg spur i current t w =
     (if id_from_bits current \<noteq> i then Value (Ok False, w)
      else if is_write_locked current then lock_read_slow cfg spur i t w
      else obind (increment_readers cfg current) (\<lambda>new.
        case compare_exchange_weak spur w current new of
          (Ok _, w', _) \<Rightarrow> Value (Ok True, w')
        | (Err actual, w', spur') \<Rightarrow> lock_read_with_current cfg spur' i actual t w'))"
| "lock_read_slow cfg spur i t w =
     (case deadline_of t of
        Err e \<Rightarrow> Value (Err e, w)
      | Ok deadline \<Rightarrow>
          obind (header_block cfg deadline (ReadClosure i) w) (\<lambda>(result, w').
            case result of
              Ok (Matched current) \<Rightarrow>
                obind (increment_readers cfg current) (\<lambda>new.
                  case compare_exchange_weak spur w' current new of
                    (Ok _, w'', _) \<Rightarrow> Value (Ok True, w'')
                  | (Err actual, w'', spur') \<Rightarrow>
                      lock_read_with_current cfg spur' i actual t w'')
            | Ok Mismatch \<Rightarrow> Value (Ok False, w')
            | Ok (Transitioned _) \<Rightarrow> Value (Ok False, w')
            | Err err \<Rightarrow> Value (Err err, w')))"
  by pat_completeness auto

termination
  by (relation "measure (case_sum
        (\<lambda>(cfg, spur, i, current, t, w). 2 * spur + 2 * of_bool (current \<noteq> w) + 1)
        (\<lambda>(cfg, spur, i, t, w). 2 * spur))")
    (auto simp: compare_exchange_weak_def dest!: header_block_Matched split: if_splits nat.splits)

declare lock_read_with_current.simps [simp del] lock_read_slow.simps [simp del]

definition lock_read ::
  "build \<Rightarrow> nat \<Rightarrow> u32 \<Rightarrow> timeout \<Rightarrow> u64 \<Rightarrow> (bool block_result \<times> u64) outcome" where
  "lock_read cfg spur i t w =
     debug_assert cfg (i \<noteq> RESERVED_ID)
       (let current = load w in lock_read_with_current cfg spur i current t w)"

section \<open>Read unlocking\<close>

text \<open>The result is whether \<open>Park::unpark\<close> was called, and the new word.\<close>

function unlock_read_with_current ::
  "build \<Rightarrow> nat \<Rightarrow> u32 \<Rightarrow> u64 \<Rightarrow> u64 \<Rightarrow> (bool \<times> u64) outcome" where
  "unlock_read_with_current cfg spur i current w =
     debug_assert cfg (readers_from_bits current \<noteq> 0)
       (debug_assert cfg (\<not> is_write_locked current)
         (debug_assert cfg (id_from_bits current = i)
           (obind (has_thread_blocking cfg current) (\<lambda>blocking.
              let must_unpark = (blocking \<and> readers_from_bits current = 1) in
              obind (if must_unpark
                     then omap unmark_thread_blocking (decrement_readers cfg current)
                     else decrement_readers cfg current) (\<lambda>new.
                case compare_exchange_weak spur w current new of
                  (Ok _, w', _) \<Rightarrow> Value (must_unpark, w')
                | (Err actual, w', spur') \<Rightarrow>
                    unlock_read_with_current cfg spur' i actual w')))))"
  by pat_completeness auto

termination
  by (relation "measure (\<lambda>(cfg, spur, i, current, w). spur + of_bool (current \<noteq> w))")
    (auto simp: compare_exchange_weak_def split: if_splits nat.splits)

declare unlock_read_with_current.simps [simp del]

definition unlock_read :: "build \<Rightarrow> nat \<Rightarrow> u32 \<Rightarrow> u64 \<Rightarrow> (bool \<times> u64) outcome" where
  "unlock_read cfg spur i w = (let current = load w in unlock_read_with_current cfg spur i current w)"

section \<open>Transitions: write locking and removal\<close>

definition transition_slow ::
  "build \<Rightarrow> u64 \<Rightarrow> u64 \<Rightarrow> timeout \<Rightarrow> u64 \<Rightarrow> (bool block_result \<times> u64) outcome" where
  "transition_slow cfg expected new t w =
     (case deadline_of t of
        Err e \<Rightarrow> Value (Err e, w)
      | Ok deadline \<Rightarrow>
          obind (header_block cfg deadline (TransitionClosure expected new) w) (\<lambda>(result, w').
            case result of
              Ok (Transitioned b) \<Rightarrow> Value (Ok b, w')
            | Ok _ \<Rightarrow> Value (Ok False, w')
            | Err err \<Rightarrow> Value (Err err, w')))"

text \<open>
  The retry loop of \<open>transition\<close> need not end when the header is unoccupied with the expected
  ID, which its callers exclude; \<open>None\<close> stands for not returning.
\<close>

partial_function (option) transition ::
  "build \<Rightarrow> nat \<Rightarrow> u64 \<Rightarrow> u64 \<Rightarrow> timeout \<Rightarrow> u64 \<Rightarrow>
    (bool block_result \<times> u64) outcome option" where
  "transition cfg spur expected new t w =
     (case compare_exchange_weak spur w expected new of
        (Ok _, w', _) \<Rightarrow> Some (Value (Ok True, w'))
      | (Err actual, w', spur') \<Rightarrow>
          (if id_from_bits actual = id_from_bits expected then
             (if readers_from_bits actual > 0 then Some (transition_slow cfg expected new t w')
              else transition cfg spur' expected new t w')
           else Some (Value (Ok False, w'))))"

definition lock_write ::
  "build \<Rightarrow> nat \<Rightarrow> u32 \<Rightarrow> timeout \<Rightarrow> u64 \<Rightarrow> (bool block_result \<times> u64) outcome" where
  "lock_write cfg spur i t w =
     debug_assert cfg (i \<noteq> RESERVED_ID)
       (returns (transition cfg spur (occupied_unlocked_bits i) (write_locked_bits i) t w))"

definition unlock_write :: "build \<Rightarrow> u32 \<Rightarrow> u64 \<Rightarrow> (bool \<times> u64) outcome" where
  "unlock_write cfg i w =
     (let new = occupied_unlocked_bits i; (old, w') = swap new w in
      debug_assert cfg (id_from_bits old = i)
        (debug_assert cfg (is_write_locked old)
          (obind (has_thread_blocking cfg old) (\<lambda>blocking. Value (blocking, w')))))"

definition occupy :: "build \<Rightarrow> u64 \<Rightarrow> (u32 \<times> u64) outcome" where
  "occupy cfg w =
     (let (old, w') = fetch_or thread_notification_mask w in
      debug_assert cfg (\<not> is_occupied old)
        (debug_assert cfg (id_from_bits old \<noteq> RESERVED_ID)
          (Value (id_from_bits old, w'))))"

datatype header_remove_result = RemoveMatched bool | DidntMatch

definition header_remove ::
  "build \<Rightarrow> nat \<Rightarrow> u32 \<Rightarrow> timeout \<Rightarrow> u64 \<Rightarrow> (header_remove_result block_result \<times> u64) outcome"
where
  "header_remove cfg spur i t w =
     debug_assert cfg (i \<noteq> RESERVED_ID)
       (obind (checked_add cfg i 1) (\<lambda>next_id.
         obind (returns (transition cfg spur (occupied_unlocked_bits i) (unoccupied_bits next_id) t w))
           (\<lambda>(matched, w'). case matched of
              Err e \<Rightarrow> Value (Err e, w')
            | Ok True \<Rightarrow> Value (Ok (RemoveMatched (next_id \<noteq> RESERVED_ID)), w')
            | Ok False \<Rightarrow> Value (Ok DidntMatch, w'))))"

text \<open>The result is whether the header may be reused, whether \<open>unpark\<close> was called, and the word.\<close>

definition header_remove_locked :: "build \<Rightarrow> u32 \<Rightarrow> u64 \<Rightarrow> (bool \<times> bool \<times> u64) outcome" where
  "header_remove_locked cfg i w =
     obind (checked_add cfg i 1) (\<lambda>next_id.
       let new = unoccupied_bits next_id; (old, w') = swap new w in
       debug_assert cfg (id_from_bits old = i)
         (debug_assert cfg (is_write_locked old)
           (obind (has_thread_blocking cfg old) (\<lambda>blocking.
             Value (next_id \<noteq> RESERVED_ID, blocking, w')))))"

section \<open>Exclusive access\<close>

definition needs_drop :: "u64 \<Rightarrow> bool" where
  "needs_drop w = is_occupied (load_directly w)"

definition header_id :: "u64 \<Rightarrow> u32" where
  "header_id w = id_from_bits (load_directly w)"

definition id_if_occupied :: "u64 \<Rightarrow> u32 option" where
  "id_if_occupied w =
     (let state = load_directly w in
      if is_occupied state then Some (id_from_bits state) else None)"

definition header_reset :: "build \<Rightarrow> u64 \<Rightarrow> (u32 option \<times> u64) outcome" where
  "header_reset cfg w =
     (let state = load_directly w in
      debug_assert cfg (readers_from_bits state = 0)
        (if is_occupied state then
           (let i = id_from_bits state; w' = store_directly (unoccupied_bits i) w in
            if debug_assertions cfg then
              obind (has_thread_blocking cfg state) (\<lambda>blocking.
                debug_assert cfg (\<not> blocking) (Value (Some i, w')))
            else Value (Some i, w'))
         else Value (None, w)))"

text \<open>The checks of \<open>Drop for Header\<close>, which exists with debug assertions only.\<close>

definition header_drop :: "build \<Rightarrow> bool \<Rightarrow> u64 \<Rightarrow> unit outcome" where
  "header_drop cfg panicking w =
     (if \<not> debug_assertions cfg \<or> panicking then Value ()
      else
        let state = load_directly w in
        debug_assert cfg (readers_from_bits state = 0)
          (if \<not> is_occupied state then Value ()
           else obind (has_thread_blocking cfg state) (\<lambda>b. debug_assert cfg (\<not> b) (Value ()))))"

end
