(* ===== verification/RwPark.thy ===== *)
theory RwPark
  imports RwHeader
begin

text \<open>
  The parking interface of \<open>src/src/util/sync/park.rs\<close>. A header never looks inside the parking
  queue: it enters it (which locks the queue of its address), runs a closure, and then either
  goes to sleep or leaves, and it wakes every sleeper with \<open>unpark_all\<close>. In the ordinary build
  these are calls of the \<open>parking_lot\<close> crate; under \<open>cfg(loom)\<close> the source implements them with
  a mutex and a condition variable. A \<open>parker\<close> is such an implementation, with two observers:
  the thread that holds the queue lock, and the threads that are asleep. \<open>None\<close> means that the
  calling thread has to wait.
\<close>

record 'q parker =
  pk_new :: 'q
  pk_enter :: "nat \<Rightarrow> 'q \<Rightarrow> 'q option"
  pk_commit :: "nat \<Rightarrow> 'q \<Rightarrow> 'q"
  pk_cancel :: "nat \<Rightarrow> 'q \<Rightarrow> 'q"
  pk_resume :: "nat \<Rightarrow> 'q \<Rightarrow> 'q option"
  pk_expire :: "nat \<Rightarrow> 'q \<Rightarrow> 'q option"
  pk_unpark_all :: "'q \<Rightarrow> 'q option"
  pk_holder :: "'q \<Rightarrow> nat option"
  pk_asleep :: "'q \<Rightarrow> nat set"

text \<open>
  The documented behaviour of \<open>park\<close> and \<open>unpark_all\<close>: the closure of \<open>park\<close> runs under the
  queue lock, going to sleep and releasing that lock is one atomic step, and \<open>unpark_all\<close>, which
  takes the lock, leaves no sleeper behind. Resuming and expiring may happen at any time.
\<close>

locale parking =
  fixes P :: "'q parker"
  assumes new_idle: "pk_holder P (pk_new P) = None" "pk_asleep P (pk_new P) = {}"
    and enter_locks: "pk_enter P t q = Some q' \<Longrightarrow>
      pk_holder P q = None \<and> pk_holder P q' = Some t \<and> pk_asleep P q' = pk_asleep P q"
    and enter_free: "pk_holder P q = None \<Longrightarrow> pk_enter P t q \<noteq> None"
    and commit_sleeps: "pk_holder P q = Some t \<Longrightarrow>
      pk_holder P (pk_commit P t q) = None \<and>
      pk_asleep P (pk_commit P t q) = insert t (pk_asleep P q)"
    and cancel_releases: "pk_holder P q = Some t \<Longrightarrow>
      pk_holder P (pk_cancel P t q) = None \<and> pk_asleep P (pk_cancel P t q) = pk_asleep P q"
    and resume_wakes: "pk_resume P t q = Some q' \<Longrightarrow>
      pk_holder P q' = pk_holder P q \<and> pk_asleep P q' = pk_asleep P q - {t}"
    and resume_awake: "t \<notin> pk_asleep P q \<Longrightarrow> pk_holder P q = None \<Longrightarrow> pk_resume P t q \<noteq> None"
    and expire_wakes: "pk_expire P t q = Some q' \<Longrightarrow>
      pk_holder P q' = pk_holder P q \<and> pk_asleep P q' = pk_asleep P q - {t}"
    and unpark_wakes: "pk_unpark_all P q = Some q' \<Longrightarrow>
      pk_holder P q = None \<and> pk_holder P q' = None \<and> pk_asleep P q' = {}"
    and unpark_free: "pk_holder P q = None \<Longrightarrow> pk_unpark_all P q \<noteq> None"
begin

lemma no_barging: "pk_enter P t q = Some q' \<Longrightarrow> pk_enter P u q' = None"
  using enter_locks [of t q q'] enter_locks [of u q'] by (cases "pk_enter P u q'") auto

lemma unpark_excludes_closure: "pk_holder P q = Some t \<Longrightarrow> pk_unpark_all P q = None"
  using unpark_wakes [of q] by (cases "pk_unpark_all P q") auto

lemma slept_until_woken:
  "pk_holder P q = Some t \<Longrightarrow> pk_unpark_all P (pk_commit P t q) = Some q' \<Longrightarrow> t \<notin> pk_asleep P q'"
  using unpark_wakes by blast

end

section \<open>The implementation with a mutex and a condition variable\<close>

text \<open>
  \<open>Park\<close> under \<open>cfg(loom)\<close> (park.rs lines 4-46): \<open>lock\<close> is the mutex, \<open>waiting\<close> the threads inside
  \<open>condition.wait\<close>. Waiting releases the mutex atomically; a notified thread takes it again and
  drops it on return. A condition variable may wake a thread without a notification. There are
  no deadlines under loom.
\<close>

record loom_park =
  lp_lock :: "nat option"
  lp_waiting :: "nat set"

definition loom_park_new :: loom_park where
  "loom_park_new = \<lparr>lp_lock = None, lp_waiting = {}\<rparr>"

definition loom_lock :: "nat \<Rightarrow> loom_park \<Rightarrow> loom_park option" where
  "loom_lock t q = (case lp_lock q of None \<Rightarrow> Some (q\<lparr>lp_lock := Some t\<rparr>) | Some _ \<Rightarrow> None)"

definition loom_condition_wait :: "nat \<Rightarrow> loom_park \<Rightarrow> loom_park" where
  "loom_condition_wait t q = q\<lparr>lp_lock := None, lp_waiting := insert t (lp_waiting q)\<rparr>"

definition loom_drop_guard :: "nat \<Rightarrow> loom_park \<Rightarrow> loom_park" where
  "loom_drop_guard t q = q\<lparr>lp_lock := None\<rparr>"

definition loom_wait_returns :: "nat \<Rightarrow> loom_park \<Rightarrow> loom_park option" where
  "loom_wait_returns t q =
     (case loom_lock t q of None \<Rightarrow> None
      | Some q' \<Rightarrow> Some (loom_drop_guard t (q'\<lparr>lp_waiting := lp_waiting q' - {t}\<rparr>)))"

definition loom_unpark :: "loom_park \<Rightarrow> loom_park option" where
  "loom_unpark q = (case lp_lock q of None \<Rightarrow> Some (q\<lparr>lp_waiting := {}\<rparr>) | Some _ \<Rightarrow> None)"

definition loom_parker :: "loom_park parker" where
  "loom_parker = \<lparr>pk_new = loom_park_new, pk_enter = loom_lock, pk_commit = loom_condition_wait,
     pk_cancel = loom_drop_guard, pk_resume = loom_wait_returns, pk_expire = (\<lambda>_ _. None),
     pk_unpark_all = loom_unpark, pk_holder = lp_lock, pk_asleep = lp_waiting\<rparr>"

lemmas loom_defs = loom_park_new_def loom_lock_def loom_condition_wait_def loom_drop_guard_def
  loom_wait_returns_def loom_unpark_def loom_parker_def

interpretation loom: parking loom_parker
  by unfold_locales (auto simp: loom_defs split: option.splits)

end
