(* ===== verification/RwMachine.thy ===== *)
theory RwMachine
  imports RwPark "HOL-Library.Multiset"
begin

text \<open>
  The operations of \<open>Header\<close> (\<open>src/src/header.rs\<close>) as a step machine: one step per atomic
  access to the shared state word (load, CAS, swap, fetch-or) or to the parking queue. The
  program counters are named after the functions of the source and carry their arguments and
  locals; \<open>hstep\<close> is the code between two accesses. Any number of threads run such machines on
  one header, in any interleaving, under the protocol the rest of the crate keeps
  (\<open>sys_step\<close>). Atomic accesses are sequentially consistent in this model.
\<close>

section \<open>Operations, results and program counters\<close>

datatype header_op =
    OpLockRead u32 timeout
  | OpUnlockRead u32
  | OpLockWrite u32 timeout
  | OpUnlockWrite u32
  | OpOccupy
  | OpRemove u32 timeout
  | OpRemoveLocked u32

datatype op_result =
    ResRead u32 "bool block_result"
  | ResWrite u32 "bool block_result"
  | ResRemove "header_remove_result block_result"
  | ResUnit
  | ResId u32
  | ResReuse bool

text \<open>Who called \<open>transition\<close>: \<open>lock_write\<close> of an ID, or \<open>remove\<close> with the next ID.\<close>

datatype caller = CallLockWrite u32 | CallRemove u32

text \<open>Who called \<open>block\<close>: \<open>lock_read_slow\<close> or \<open>transition_slow\<close>, with its arguments.\<close>

datatype blocker =
    BlockRead u32 timeout
  | BlockTransition u64 u64 timeout caller

datatype pc =
    LockReadLoad u32 timeout
  | LockReadCurrent u32 u64 timeout
  | LockReadSlow u32 timeout
  | LockReadMatched u32 u64 timeout
  | Transition u64 u64 timeout caller
  | TransitionSlow u64 u64 timeout caller
  | ParkEnter blocker
  | ParkClosure blocker
  | ParkMark blocker u64
  | ParkCommit blocker
  | ParkAsleep blocker
  | ParkCancel blocker response
  | UnlockReadLoad u32
  | UnlockReadCurrent u32 u64
  | UnlockWriteSwap u32
  | OccupyFetchOr
  | RemoveLockedSwap u32 u32
  | Unpark op_result
  | Finished op_result
  | Failed fault

text \<open>What the scheduler may choose: a weak CAS fails spuriously, or a deadline passes.\<close>

datatype choice = Go | Spurious | Expire

fun blocker_closure :: "blocker \<Rightarrow> closure" where
  "blocker_closure (BlockRead i t) = ReadClosure i"
| "blocker_closure (BlockTransition expected new t k) = TransitionClosure expected new"

fun blocker_timeout :: "blocker \<Rightarrow> timeout" where
  "blocker_timeout (BlockRead i t) = t"
| "blocker_timeout (BlockTransition expected new t k) = t"

fun transition_result :: "caller \<Rightarrow> bool block_result \<Rightarrow> op_result" where
  "transition_result (CallLockWrite i) r = ResWrite i r"
| "transition_result (CallRemove next_id) (Ok True) =
     ResRemove (Ok (RemoveMatched (next_id \<noteq> RESERVED_ID)))"
| "transition_result (CallRemove next_id) (Ok False) = ResRemove (Ok DidntMatch)"
| "transition_result (CallRemove next_id) (Err e) = ResRemove (Err e)"

fun blocker_timed_out :: "blocker \<Rightarrow> op_result" where
  "blocker_timed_out (BlockRead i t) = ResRead i (Err TimedOut)"
| "blocker_timed_out (BlockTransition expected new t k) = transition_result k (Err TimedOut)"

fun after_block :: "blocker \<Rightarrow> response \<Rightarrow> pc" where
  "after_block (BlockRead i t) (Matched current) = LockReadMatched i current t"
| "after_block (BlockRead i t) _ = Finished (ResRead i (Ok False))"
| "after_block (BlockTransition expected new t k) (Transitioned b) =
     Finished (transition_result k (Ok b))"
| "after_block (BlockTransition expected new t k) _ = Finished (transition_result k (Ok False))"

fun pc_of :: "pc outcome \<Rightarrow> pc" where
  "pc_of (Value p) = p"
| "pc_of (Fault f) = Failed f"
| "pc_of Hang = Failed UndefinedBehaviour"

text \<open>The code of an operation before its first access.\<close>

fun entry :: "build \<Rightarrow> header_op \<Rightarrow> pc" where
  "entry cfg (OpLockRead i t) =
     pc_of (debug_assert cfg (i \<noteq> RESERVED_ID) (Value (LockReadLoad i t)))"
| "entry cfg (OpUnlockRead i) = UnlockReadLoad i"
| "entry cfg (OpLockWrite i t) =
     pc_of (debug_assert cfg (i \<noteq> RESERVED_ID)
       (Value (Transition (occupied_unlocked_bits i) (write_locked_bits i) t (CallLockWrite i))))"
| "entry cfg (OpUnlockWrite i) = UnlockWriteSwap i"
| "entry cfg OpOccupy = OccupyFetchOr"
| "entry cfg (OpRemove i t) =
     pc_of (debug_assert cfg (i \<noteq> RESERVED_ID)
       (obind (checked_add cfg i 1) (\<lambda>next_id.
         Value (Transition (occupied_unlocked_bits i) (unoccupied_bits next_id) t
           (CallRemove next_id)))))"
| "entry cfg (OpRemoveLocked i) =
     pc_of (obind (checked_add cfg i 1) (\<lambda>next_id. Value (RemoveLockedSwap i next_id)))"

section \<open>One step of a thread\<close>

fun cas_weak :: "choice \<Rightarrow> u64 \<Rightarrow> u64 \<Rightarrow> u64 \<Rightarrow> (u64, u64) result \<times> u64" where
  "cas_weak Spurious w expected new = (Err w, w)"
| "cas_weak _ w expected new = compare_exchange w expected new"

definition read_cas ::
  "build \<Rightarrow> choice \<Rightarrow> u32 \<Rightarrow> u64 \<Rightarrow> timeout \<Rightarrow> u64 \<Rightarrow> pc \<times> u64" where
  "read_cas cfg ch i current t w =
     (case increment_readers cfg current of
        Value new \<Rightarrow>
          (case cas_weak ch w current new of
             (Ok _, w') \<Rightarrow> (Finished (ResRead i (Ok True)), w')
           | (Err actual, w') \<Rightarrow> (LockReadCurrent i actual t, w'))
      | Fault f \<Rightarrow> (Failed f, w)
      | Hang \<Rightarrow> (Failed UndefinedBehaviour, w))"

definition unlock_read_new :: "build \<Rightarrow> u32 \<Rightarrow> u64 \<Rightarrow> (bool \<times> u64) outcome" where
  "unlock_read_new cfg i current =
     debug_assert cfg (readers_from_bits current \<noteq> 0)
       (debug_assert cfg (\<not> is_write_locked current)
         (debug_assert cfg (id_from_bits current = i)
           (obind (has_thread_blocking cfg current) (\<lambda>blocking.
              let must_unpark = (blocking \<and> readers_from_bits current = 1) in
              omap (Pair must_unpark)
                (if must_unpark
                 then omap unmark_thread_blocking (decrement_readers cfg current)
                 else decrement_readers cfg current)))))"

text \<open>The checks after the swap of \<open>unlock_write\<close> and \<open>remove_locked\<close>.\<close>

definition swap_checks :: "build \<Rightarrow> u32 \<Rightarrow> u64 \<Rightarrow> op_result \<Rightarrow> pc" where
  "swap_checks cfg i old r =
     pc_of (debug_assert cfg (id_from_bits old = i)
       (debug_assert cfg (is_write_locked old)
         (omap (\<lambda>blocking. if blocking then Unpark r else Finished r)
           (has_thread_blocking cfg old))))"

fun hstep ::
  "build \<Rightarrow> 'q parker \<Rightarrow> nat \<Rightarrow> choice \<Rightarrow> pc \<Rightarrow> u64 \<times> 'q \<Rightarrow> (pc \<times> u64 \<times> 'q) option"
where
  "hstep cfg P tid ch (LockReadLoad i t) (w, q) = Some (LockReadCurrent i w t, w, q)"
| "hstep cfg P tid ch (LockReadCurrent i current t) (w, q) =
     (if id_from_bits current \<noteq> i then Some (Finished (ResRead i (Ok False)), w, q)
      else if is_write_locked current then Some (LockReadSlow i t, w, q)
      else (let (p, w') = read_cas cfg ch i current t w in Some (p, w', q)))"
| "hstep cfg P tid ch (LockReadSlow i t) (w, q) =
     (case deadline_of t of
        Err e \<Rightarrow> Some (Finished (ResRead i (Err e)), w, q)
      | Ok _ \<Rightarrow> Some (ParkEnter (BlockRead i t), w, q))"
| "hstep cfg P tid ch (LockReadMatched i current t) (w, q) =
     (let (p, w') = read_cas cfg ch i current t w in Some (p, w', q))"
| "hstep cfg P tid ch (Transition expected new t k) (w, q) =
     (case cas_weak ch w expected new of
        (Ok _, w') \<Rightarrow> Some (Finished (transition_result k (Ok True)), w', q)
      | (Err actual, w') \<Rightarrow>
          (if id_from_bits actual = id_from_bits expected then
             (if readers_from_bits actual > 0 then Some (TransitionSlow expected new t k, w', q)
              else Some (Transition expected new t k, w', q))
           else Some (Finished (transition_result k (Ok False)), w', q)))"
| "hstep cfg P tid ch (TransitionSlow expected new t k) (w, q) =
     (case deadline_of t of
        Err e \<Rightarrow> Some (Finished (transition_result k (Err e)), w, q)
      | Ok _ \<Rightarrow> Some (ParkEnter (BlockTransition expected new t k), w, q))"
| "hstep cfg P tid ch (ParkEnter b) (w, q) =
     map_option (\<lambda>q'. (ParkClosure b, w, q')) (pk_enter P tid q)"
| "hstep cfg P tid ch (ParkClosure b) (w, q) =
     (case run_closure (blocker_closure b) w of
        (BlockOn expected, w') \<Rightarrow> Some (ParkMark b expected, w', q)
      | (DontBlockOn r, w') \<Rightarrow> Some (ParkCancel b r, w', q))"
| "hstep cfg P tid ch (ParkMark b expected) (w, q) =
     (case mark_thread_blocking cfg expected of
        Value new \<Rightarrow>
          (case compare_exchange w expected new of
             (Ok _, w') \<Rightarrow> Some (ParkCommit b, w', q)
           | (Err _, w') \<Rightarrow> Some (ParkClosure b, w', q))
      | Fault f \<Rightarrow> Some (Failed f, w, q)
      | Hang \<Rightarrow> None)"
| "hstep cfg P tid ch (ParkCommit b) (w, q) = Some (ParkAsleep b, w, pk_commit P tid q)"
| "hstep cfg P tid ch (ParkAsleep b) (w, q) =
     (case (ch, deadline_of (blocker_timeout b)) of
        (Expire, Ok (Some _)) \<Rightarrow>
          map_option (\<lambda>q'. (Finished (blocker_timed_out b), w, q')) (pk_expire P tid q)
      | _ \<Rightarrow> map_option (\<lambda>q'. (ParkEnter b, w, q')) (pk_resume P tid q))"
| "hstep cfg P tid ch (ParkCancel b r) (w, q) = Some (after_block b r, w, pk_cancel P tid q)"
| "hstep cfg P tid ch (UnlockReadLoad i) (w, q) = Some (UnlockReadCurrent i w, w, q)"
| "hstep cfg P tid ch (UnlockReadCurrent i current) (w, q) =
     (case unlock_read_new cfg i current of
        Value (must_unpark, new) \<Rightarrow>
          (case cas_weak ch w current new of
             (Ok _, w') \<Rightarrow>
               Some (if must_unpark then Unpark ResUnit else Finished ResUnit, w', q)
           | (Err actual, w') \<Rightarrow> Some (UnlockReadCurrent i actual, w', q))
      | Fault f \<Rightarrow> Some (Failed f, w, q)
      | Hang \<Rightarrow> None)"
| "hstep cfg P tid ch (UnlockWriteSwap i) (w, q) =
     Some (swap_checks cfg i w ResUnit, occupied_unlocked_bits i, q)"
| "hstep cfg P tid ch OccupyFetchOr (w, q) =
     Some (pc_of (debug_assert cfg (\<not> is_occupied w)
         (debug_assert cfg (id_from_bits w \<noteq> RESERVED_ID)
           (Value (Finished (ResId (id_from_bits w)))))),
       w OR thread_notification_mask, q)"
| "hstep cfg P tid ch (RemoveLockedSwap i next_id) (w, q) =
     Some (swap_checks cfg i w (ResReuse (next_id \<noteq> RESERVED_ID)), unoccupied_bits next_id, q)"
| "hstep cfg P tid ch (Unpark r) (w, q) =
     map_option (\<lambda>q'. (Finished r, w, q')) (pk_unpark_all P q)"
| "hstep cfg P tid ch (Finished r) (w, q) = None"
| "hstep cfg P tid ch (Failed f) (w, q) = None"

section \<open>The system: many threads, one header\<close>

text \<open>
  \<open>pcs\<close> is \<open>None\<close> for a thread outside the header's code. \<open>reads\<close> and \<open>writes\<close> are the lock
  guards a thread owns (by ID), \<open>known\<close> the IDs that \<open>occupy\<close> has returned, \<open>token\<close> whether the
  right to occupy the header is waiting to be picked up (in the store: the slot is fresh, or in
  the erasure queue).
\<close>

record 'q sys =
  word :: u64
  queue :: 'q
  pcs :: "nat \<Rightarrow> pc option"
  reads :: "nat \<Rightarrow> u32 multiset"
  writes :: "nat \<Rightarrow> u32 multiset"
  known :: "u32 set"
  token :: bool

definition sys_init :: "'q parker \<Rightarrow> 'q sys" where
  "sys_init P = \<lparr>word = unoccupied_bits 0, queue = pk_new P, pcs = (\<lambda>_. None),
     reads = (\<lambda>_. {#}), writes = (\<lambda>_. {#}), known = {}, token = True\<rparr>"

definition call :: "build \<Rightarrow> nat \<Rightarrow> header_op \<Rightarrow> 'q sys \<Rightarrow> 'q sys" where
  "call cfg t c s = s\<lparr>pcs := (pcs s)(t \<mapsto> entry cfg c)\<rparr>"

text \<open>What a thread owns after an operation has returned.\<close>

fun grant :: "nat \<Rightarrow> op_result \<Rightarrow> 'q sys \<Rightarrow> 'q sys" where
  "grant t (ResRead i (Ok True)) s = s\<lparr>reads := (reads s)(t := add_mset i (reads s t))\<rparr>"
| "grant t (ResWrite i (Ok True)) s = s\<lparr>writes := (writes s)(t := add_mset i (writes s t))\<rparr>"
| "grant t (ResId i) s = s\<lparr>known := insert i (known s)\<rparr>"
| "grant t (ResRemove (Ok (RemoveMatched True))) s = s\<lparr>token := True\<rparr>"
| "grant t (ResReuse True) s = s\<lparr>token := True\<rparr>"
| "grant t _ s = s"

inductive sys_step :: "build \<Rightarrow> 'q parker \<Rightarrow> nat \<Rightarrow> 'q sys \<Rightarrow> 'q sys \<Rightarrow> bool"
  for cfg :: build and P :: "'q parker" and N :: nat where
  call_read: "t < N \<Longrightarrow> pcs s t = None \<Longrightarrow> i \<in> known s \<Longrightarrow>
    sys_step cfg P N s (call cfg t (OpLockRead i to) s)"
| call_write: "t < N \<Longrightarrow> pcs s t = None \<Longrightarrow> i \<in> known s \<Longrightarrow>
    sys_step cfg P N s (call cfg t (OpLockWrite i to) s)"
| call_remove: "t < N \<Longrightarrow> pcs s t = None \<Longrightarrow> i \<in> known s \<Longrightarrow>
    sys_step cfg P N s (call cfg t (OpRemove i to) s)"
| call_unlock_read: "t < N \<Longrightarrow> pcs s t = None \<Longrightarrow> i \<in># reads s t \<Longrightarrow>
    sys_step cfg P N s
      (call cfg t (OpUnlockRead i) (s\<lparr>reads := (reads s)(t := reads s t - {#i#})\<rparr>))"
| call_unlock_write: "t < N \<Longrightarrow> pcs s t = None \<Longrightarrow> i \<in># writes s t \<Longrightarrow>
    sys_step cfg P N s
      (call cfg t (OpUnlockWrite i) (s\<lparr>writes := (writes s)(t := writes s t - {#i#})\<rparr>))"
| call_remove_locked: "t < N \<Longrightarrow> pcs s t = None \<Longrightarrow> i \<in># writes s t \<Longrightarrow>
    sys_step cfg P N s
      (call cfg t (OpRemoveLocked i) (s\<lparr>writes := (writes s)(t := writes s t - {#i#})\<rparr>))"
| call_occupy: "t < N \<Longrightarrow> pcs s t = None \<Longrightarrow> token s \<Longrightarrow>
    sys_step cfg P N s (call cfg t OpOccupy (s\<lparr>token := False\<rparr>))"
| run: "t < N \<Longrightarrow> pcs s t = Some p \<Longrightarrow> hstep cfg P t ch p (word s, queue s) = Some (p', w', q') \<Longrightarrow>
    sys_step cfg P N s (s\<lparr>word := w', queue := q', pcs := (pcs s)(t \<mapsto> p')\<rparr>)"
| return: "t < N \<Longrightarrow> pcs s t = Some (Finished r) \<Longrightarrow>
    sys_step cfg P N s (grant t r (s\<lparr>pcs := (pcs s)(t := None)\<rparr>))"
| unwind: "t < N \<Longrightarrow> pcs s t = Some (Failed f) \<Longrightarrow>
    sys_step cfg P N s (s\<lparr>pcs := (pcs s)(t := None)\<rparr>)"

inductive reachable :: "build \<Rightarrow> 'q parker \<Rightarrow> nat \<Rightarrow> 'q sys \<Rightarrow> bool"
  for cfg :: build and P :: "'q parker" and N :: nat where
  start: "reachable cfg P N (sys_init P)"
| step: "reachable cfg P N s \<Longrightarrow> sys_step cfg P N s s' \<Longrightarrow> reachable cfg P N s'"

section \<open>Scripted runs\<close>

text \<open>An executable scheduler: a list of events picks one interleaving.\<close>

datatype event =
    Call nat header_op
  | Run nat choice
  | Return nat

definition call_event :: "build \<Rightarrow> nat \<Rightarrow> header_op \<Rightarrow> 'q sys \<Rightarrow> 'q sys option" where
  "call_event cfg t c s =
     (case c of
        OpLockRead i to \<Rightarrow> if i \<in> known s then Some (call cfg t c s) else None
      | OpLockWrite i to \<Rightarrow> if i \<in> known s then Some (call cfg t c s) else None
      | OpRemove i to \<Rightarrow> if i \<in> known s then Some (call cfg t c s) else None
      | OpUnlockRead i \<Rightarrow>
          if i \<in># reads s t
          then Some (call cfg t c (s\<lparr>reads := (reads s)(t := reads s t - {#i#})\<rparr>)) else None
      | OpUnlockWrite i \<Rightarrow>
          if i \<in># writes s t
          then Some (call cfg t c (s\<lparr>writes := (writes s)(t := writes s t - {#i#})\<rparr>)) else None
      | OpRemoveLocked i \<Rightarrow>
          if i \<in># writes s t
          then Some (call cfg t c (s\<lparr>writes := (writes s)(t := writes s t - {#i#})\<rparr>)) else None
      | OpOccupy \<Rightarrow> if token s then Some (call cfg t c (s\<lparr>token := False\<rparr>)) else None)"

fun exec_event :: "build \<Rightarrow> 'q parker \<Rightarrow> nat \<Rightarrow> event \<Rightarrow> 'q sys \<Rightarrow> 'q sys option" where
  "exec_event cfg P N (Call t c) s =
     (if t < N \<and> pcs s t = None then call_event cfg t c s else None)"
| "exec_event cfg P N (Run t ch) s =
     (if t < N then
        (case pcs s t of
           None \<Rightarrow> None
         | Some p \<Rightarrow>
             map_option (\<lambda>(p', w', q'). s\<lparr>word := w', queue := q', pcs := (pcs s)(t \<mapsto> p')\<rparr>)
               (hstep cfg P t ch p (word s, queue s)))
      else None)"
| "exec_event cfg P N (Return t) s =
     (if t < N then
        (case pcs s t of
           Some (Finished r) \<Rightarrow> Some (grant t r (s\<lparr>pcs := (pcs s)(t := None)\<rparr>))
         | Some (Failed f) \<Rightarrow> Some (s\<lparr>pcs := (pcs s)(t := None)\<rparr>)
         | _ \<Rightarrow> None)
      else None)"

fun exec_events :: "build \<Rightarrow> 'q parker \<Rightarrow> nat \<Rightarrow> event list \<Rightarrow> 'q sys \<Rightarrow> 'q sys option" where
  "exec_events cfg P N [] s = Some s"
| "exec_events cfg P N (e # es) s =
     (case exec_event cfg P N e s of None \<Rightarrow> None | Some s' \<Rightarrow> exec_events cfg P N es s')"

lemma exec_event_step: "exec_event cfg P N e s = Some s' \<Longrightarrow> sys_step cfg P N s s'"
proof (cases e)
  case (Call t c)
  moreover assume "exec_event cfg P N e s = Some s'"
  ultimately show ?thesis
    by (cases c) (auto simp: call_event_def split: if_splits intro: sys_step.intros)
qed (auto split: if_splits option.splits pc.splits intro: sys_step.intros)

lemma exec_events_reachable:
  "exec_events cfg P N es s = Some s' \<Longrightarrow> reachable cfg P N s \<Longrightarrow> reachable cfg P N s'"
  by (induction es arbitrary: s)
    (auto split: option.splits intro: reachable.step dest: exec_event_step)

lemma scripted_reachable:
  "exec_events cfg P N es (sys_init P) = Some s \<Longrightarrow> reachable cfg P N s"
  by (rule exec_events_reachable [OF _ reachable.start])

end
