(* ===== verification/RwInvariant.thy ===== *)
theory RwInvariant
  imports RwMachine
begin

text \<open>
  The invariant of the header under any interleaving, and its preservation by every step. It
  ties the state word to what the threads own (the reader field counts the read guards, the
  write pattern belongs to exactly one guard, an unoccupied header has exactly one pending right
  to occupy it), keeps every ID in play within the IDs issued so far, and ties the parking queue
  to the program counters (the holder of the queue lock is running its closure; a sleeper is
  always covered by the blocked flag or by an \<open>unpark\<close> about to happen).
\<close>

section \<open>What a program counter owns\<close>

fun pc_reads :: "pc \<Rightarrow> u32 multiset" where
  "pc_reads (UnlockReadLoad i) = {#i#}"
| "pc_reads (UnlockReadCurrent i c) = {#i#}"
| "pc_reads (Finished (ResRead i (Ok True))) = {#i#}"
| "pc_reads _ = {#}"

fun pc_writes :: "pc \<Rightarrow> u32 multiset" where
  "pc_writes (UnlockWriteSwap i) = {#i#}"
| "pc_writes (RemoveLockedSwap i n) = {#i#}"
| "pc_writes (ParkCancel (BlockTransition e n t (CallLockWrite i)) (Transitioned True)) = {#i#}"
| "pc_writes (Finished (ResWrite i (Ok True))) = {#i#}"
| "pc_writes _ = {#}"

fun pc_tokens :: "pc \<Rightarrow> nat" where
  "pc_tokens OccupyFetchOr = 1"
| "pc_tokens (ParkCancel (BlockTransition e n t (CallRemove i)) (Transitioned True)) =
     of_bool (i \<noteq> RESERVED_ID)"
| "pc_tokens (Finished (ResRemove (Ok (RemoveMatched True)))) = 1"
| "pc_tokens (Finished (ResReuse True)) = 1"
| "pc_tokens (Unpark (ResReuse True)) = 1"
| "pc_tokens _ = 0"

definition opt_pc :: "'a \<Rightarrow> (pc \<Rightarrow> 'a) \<Rightarrow> pc option \<Rightarrow> 'a" where
  "opt_pc d f p = (case p of None \<Rightarrow> d | Some p \<Rightarrow> f p)"

lemma opt_pc_simps [simp]: "opt_pc d f None = d" "opt_pc d f (Some p) = f p"
  by (simp_all add: opt_pc_def)

definition rds :: "'q sys \<Rightarrow> nat \<Rightarrow> u32 multiset" where
  "rds s t = reads s t + opt_pc {#} pc_reads (pcs s t)"

definition wrs :: "'q sys \<Rightarrow> nat \<Rightarrow> u32 multiset" where
  "wrs s t = writes s t + opt_pc {#} pc_writes (pcs s t)"

definition toks :: "'q sys \<Rightarrow> nat \<Rightarrow> nat" where
  "toks s t = opt_pc 0 pc_tokens (pcs s t)"

definition total_reads :: "nat \<Rightarrow> 'q sys \<Rightarrow> nat" where
  "total_reads N s = (\<Sum>t<N. size (rds s t))"

definition total_writes :: "nat \<Rightarrow> 'q sys \<Rightarrow> nat" where
  "total_writes N s = (\<Sum>t<N. size (wrs s t))"

definition total_tokens :: "nat \<Rightarrow> 'q sys \<Rightarrow> nat" where
  "total_tokens N s = (\<Sum>t<N. toks s t) + of_bool (token s)"

fun counts_ok :: "header_view \<Rightarrow> nat \<Rightarrow> nat \<Rightarrow> nat \<Rightarrow> bool" where
  "counts_ok (Unoccupied i) R W K = (R = 0 \<and> W = 0 \<and> K = of_bool (i \<noteq> RESERVED_ID))"
| "counts_ok (Unlocked i) R W K = (i \<noteq> RESERVED_ID \<and> R = 0 \<and> W = 0 \<and> K = 0)"
| "counts_ok (ReadLocked i r b) R W K = (i \<noteq> RESERVED_ID \<and> R = r \<and> W = 0 \<and> K = 0)"
| "counts_ok (WriteLocked i b) R W K = (i \<noteq> RESERVED_ID \<and> R = 0 \<and> W = 1 \<and> K = 0)"

section \<open>What a program counter knows\<close>

fun trans_ok :: "u64 \<Rightarrow> u64 \<Rightarrow> u64 \<Rightarrow> caller \<Rightarrow> bool" where
  "trans_ok w e n (CallLockWrite i) \<longleftrightarrow>
     issued w i \<and> e = occupied_unlocked_bits i \<and> n = write_locked_bits i"
| "trans_ok w e n (CallRemove x) \<longleftrightarrow>
     (\<exists>i. issued w i \<and> e = occupied_unlocked_bits i \<and> x = i + 1 \<and> n = unoccupied_bits x)"

fun blocker_ok :: "u64 \<Rightarrow> blocker \<Rightarrow> bool" where
  "blocker_ok w (BlockRead i t) \<longleftrightarrow> issued w i"
| "blocker_ok w (BlockTransition e n t k) \<longleftrightarrow> trans_ok w e n k"

fun blocker_id :: "blocker \<Rightarrow> u32" where
  "blocker_id (BlockRead i t) = i"
| "blocker_id (BlockTransition e n t k) = id_from_bits e"

fun response_ok :: "blocker \<Rightarrow> response \<Rightarrow> bool" where
  "response_ok (BlockRead i t) (Matched c) \<longleftrightarrow> id_from_bits c = i \<and> \<not> is_write_locked c"
| "response_ok (BlockRead i t) Mismatch \<longleftrightarrow> True"
| "response_ok (BlockRead i t) (Transitioned b) \<longleftrightarrow> False"
| "response_ok (BlockTransition e n t k) (Transitioned b) \<longleftrightarrow> True"
| "response_ok (BlockTransition e n t k) _ \<longleftrightarrow> False"

fun pc_ok :: "u64 \<Rightarrow> pc \<Rightarrow> bool" where
  "pc_ok w (LockReadLoad i t) \<longleftrightarrow> issued w i"
| "pc_ok w (LockReadCurrent i c t) \<longleftrightarrow> issued w i"
| "pc_ok w (LockReadSlow i t) \<longleftrightarrow> issued w i"
| "pc_ok w (LockReadMatched i c t) \<longleftrightarrow> issued w i \<and> id_from_bits c = i \<and> \<not> is_write_locked c"
| "pc_ok w (Transition e n t k) \<longleftrightarrow> trans_ok w e n k"
| "pc_ok w (TransitionSlow e n t k) \<longleftrightarrow> trans_ok w e n k"
| "pc_ok w (ParkEnter b) \<longleftrightarrow> blocker_ok w b"
| "pc_ok w (ParkClosure b) \<longleftrightarrow> blocker_ok w b"
| "pc_ok w (ParkMark b e) \<longleftrightarrow>
     blocker_ok w b \<and> readers_from_bits e \<noteq> 0 \<and> id_from_bits e = blocker_id b"
| "pc_ok w (ParkCommit b) \<longleftrightarrow> blocker_ok w b"
| "pc_ok w (ParkAsleep b) \<longleftrightarrow> blocker_ok w b"
| "pc_ok w (ParkCancel b r) \<longleftrightarrow> blocker_ok w b \<and> response_ok b r"
| "pc_ok w (UnlockReadCurrent i c) \<longleftrightarrow>
     readers_from_bits c \<noteq> 0 \<and> \<not> is_write_locked c \<and> id_from_bits c = i"
| "pc_ok w (RemoveLockedSwap i n) \<longleftrightarrow> n = i + 1"
| "pc_ok w (Finished (ResId i)) \<longleftrightarrow> issued w i"
| "pc_ok w (Unpark r) \<longleftrightarrow> r = ResUnit \<or> (\<exists>b. r = ResReuse b)"
| "pc_ok w (Failed f) \<longleftrightarrow> f = TooManyReaders"
| "pc_ok w _ \<longleftrightarrow> True"

lemma issued_mono_pc_ok:
  assumes mono: "\<And>i. issued w i \<Longrightarrow> issued w' i" and ok: "pc_ok w p"
  shows "pc_ok w' p"
proof -
  have trans: "trans_ok w e n k \<Longrightarrow> trans_ok w' e n k" for e n k
    using mono by (cases k) auto
  have blocker: "blocker_ok w b \<Longrightarrow> blocker_ok w' b" for b
    using mono trans by (cases b) auto
  show ?thesis
    using ok by (cases "(w, p)" rule: pc_ok.cases) (auto dest: mono trans blocker)
qed

section \<open>The parking queue\<close>

fun holding :: "pc \<Rightarrow> bool" where
  "holding (ParkClosure b) = True"
| "holding (ParkMark b e) = True"
| "holding (ParkCommit b) = True"
| "holding (ParkCancel b r) = True"
| "holding _ = False"

fun is_asleep :: "pc \<Rightarrow> bool" where
  "is_asleep (ParkAsleep b) = True"
| "is_asleep _ = False"

fun is_committing :: "pc \<Rightarrow> bool" where
  "is_committing (ParkCommit b) = True"
| "is_committing _ = False"

fun is_unparking :: "pc \<Rightarrow> bool" where
  "is_unparking (Unpark r) = True"
| "is_unparking _ = False"

definition blocked_flag :: "u64 \<Rightarrow> bool" where
  "blocked_flag w \<longleftrightarrow> is_occupied w \<and> notification_bit_clear w"

definition park_ok :: "'q parker \<Rightarrow> u64 \<Rightarrow> 'q \<Rightarrow> (nat \<Rightarrow> pc option) \<Rightarrow> bool" where
  "park_ok P w q f \<longleftrightarrow>
     (\<forall>t. pk_holder P q = Some t \<longleftrightarrow> opt_pc False holding (f t)) \<and>
     (\<forall>t \<in> pk_asleep P q. opt_pc False is_asleep (f t)) \<and>
     (pk_asleep P q \<noteq> {} \<or> (\<exists>t. opt_pc False is_committing (f t)) \<longrightarrow>
        blocked_flag w \<or> (\<exists>t. opt_pc False is_unparking (f t)))"

definition inv :: "'q parker \<Rightarrow> nat \<Rightarrow> 'q sys \<Rightarrow> bool" where
  "inv P N s \<longleftrightarrow>
     counts_ok (header_view (word s)) (total_reads N s) (total_writes N s) (total_tokens N s) \<and>
     (\<forall>t<N. \<forall>i \<in># rds s t + wrs s t. i = id_from_bits (word s)) \<and>
     (\<forall>i \<in> known s. issued (word s) i) \<and>
     (\<forall>t<N. opt_pc True (pc_ok (word s)) (pcs s t)) \<and>
     park_ok P (word s) (queue s) (pcs s)"

section \<open>Moving one thread\<close>

lemma sum_change:
  fixes f g :: "nat \<Rightarrow> nat"
  assumes "t < N" and "\<And>u. u \<noteq> t \<Longrightarrow> g u = f u"
  obtains R where "(\<Sum>u<N. f u) = R + f t" and "(\<Sum>u<N. g u) = R + g t"
proof
  show "(\<Sum>u<N. f u) = (\<Sum>u\<in>{..<N} - {t}. f u) + f t"
    using assms(1) by (subst sum.remove [of _ t]) auto
  have "(\<Sum>u<N. g u) = (\<Sum>u\<in>{..<N} - {t}. g u) + g t"
    using assms(1) by (subst sum.remove [of _ t]) auto
  moreover have "(\<Sum>u\<in>{..<N} - {t}. g u) = (\<Sum>u\<in>{..<N} - {t}. f u)"
    using assms(2) by (intro sum.cong) auto
  ultimately show "(\<Sum>u<N. g u) = (\<Sum>u\<in>{..<N} - {t}. f u) + g t" by simp
qed

lemma counts_ok_unoccupied:
  "counts_ok (header_view w) R W K \<Longrightarrow> \<not> is_occupied w \<Longrightarrow> R = 0 \<and> W = 0"
  by (simp add: header_view_def)

text \<open>
  The shape of every preservation proof: thread \<open>t\<close> moves, the rest of the system stays, and
  only what \<open>t\<close> owns and the state word are compared before and after.
\<close>

lemma inv_move:
  assumes inv: "inv P N s" and t: "t < N"
    and frame: "\<And>u. u \<noteq> t \<Longrightarrow> pcs s' u = pcs s u \<and> reads s' u = reads s u \<and> writes s' u = writes s u"
    and counts: "\<And>R W K.
      counts_ok (header_view (word s)) (R + size (rds s t)) (W + size (wrs s t))
        (K + toks s t + of_bool (token s)) \<Longrightarrow>
      counts_ok (header_view (word s')) (R + size (rds s' t)) (W + size (wrs s' t))
        (K + toks s' t + of_bool (token s'))"
    and ids_t: "\<And>i. i \<in># rds s' t + wrs s' t \<Longrightarrow>
      i \<in># rds s t + wrs s t \<or> i = id_from_bits (word s')"
    and ids: "id_from_bits (word s') = id_from_bits (word s) \<or> \<not> is_occupied (word s')"
    and known: "\<And>i. i \<in> known s' \<Longrightarrow> i \<in> known s \<or> issued (word s') i"
    and mono: "\<And>i. issued (word s) i \<Longrightarrow> issued (word s') i"
    and pc: "opt_pc True (pc_ok (word s')) (pcs s' t)"
    and park: "park_ok P (word s') (queue s') (pcs s')"
  shows "inv P N s'"
proof -
  have others: "rds s' u = rds s u" "wrs s' u = wrs s u" "toks s' u = toks s u" if "u \<noteq> t" for u
    using frame [OF that] by (simp_all add: rds_def wrs_def toks_def)
  obtain R where R: "total_reads N s = R + size (rds s t)" "total_reads N s' = R + size (rds s' t)"
    unfolding total_reads_def
    by (rule sum_change [OF t, of "\<lambda>u. size (rds s' u)" "\<lambda>u. size (rds s u)"])
      (auto simp: others(1))
  obtain W where W: "total_writes N s = W + size (wrs s t)" "total_writes N s' = W + size (wrs s' t)"
    unfolding total_writes_def
    by (rule sum_change [OF t, of "\<lambda>u. size (wrs s' u)" "\<lambda>u. size (wrs s u)"])
      (auto simp: others(2))
  obtain K where K: "total_tokens N s = K + toks s t + of_bool (token s)"
    "total_tokens N s' = K + toks s' t + of_bool (token s')"
    unfolding total_tokens_def
    by (rule sum_change [OF t, of "toks s'" "toks s"]) (auto simp: others(3))
  have "counts_ok (header_view (word s)) (total_reads N s) (total_writes N s) (total_tokens N s)"
    using inv by (simp add: inv_def)
  then have c: "counts_ok (header_view (word s')) (total_reads N s') (total_writes N s')
      (total_tokens N s')"
    unfolding R W K by (rule counts)
  have held: "i = id_from_bits (word s')" if "u < N" and "i \<in># rds s' u + wrs s' u" for u i
  proof (cases "i \<in># rds s u + wrs s u")
    case False
    then have "u = t" using that others by metis
    with that ids_t False show ?thesis by blast
  next
    case True
    have "i = id_from_bits (word s)" using inv True that(1) by (auto simp: inv_def)
    moreover have "is_occupied (word s')"
    proof (rule ccontr)
      assume "\<not> is_occupied (word s')"
      with c have "total_reads N s' = 0" "total_writes N s' = 0"
        by (auto dest: counts_ok_unoccupied)
      then have "rds s' u = {#}" "wrs s' u = {#}"
        using \<open>u < N\<close> by (auto simp: total_reads_def total_writes_def)
      with that show False by simp
    qed
    ultimately show ?thesis using ids by simp
  qed
  have "opt_pc True (pc_ok (word s')) (pcs s' u)" if "u < N" for u
  proof (cases "u = t")
    case False
    then have "pcs s' u = pcs s u" using frame by simp
    moreover have "opt_pc True (pc_ok (word s)) (pcs s u)" using inv that by (simp add: inv_def)
    ultimately show ?thesis
      by (cases "pcs s u") (auto intro: issued_mono_pc_ok [OF mono])
  qed (use pc in simp)
  moreover have "issued (word s') i" if "i \<in> known s'" for i
    using known [OF that] inv mono by (auto simp: inv_def)
  ultimately show ?thesis
    using c held park unfolding inv_def by blast
qed

lemma park_ok_move:
  assumes "park_ok P w q f"
    and "opt_pc False holding p' = opt_pc False holding (f t)"
    and "\<not> opt_pc False is_asleep (f t)" and "\<not> opt_pc False is_unparking (f t)"
    and "opt_pc False is_committing p' \<Longrightarrow>
      blocked_flag w' \<or> opt_pc False is_committing (f t)"
    and "blocked_flag w \<Longrightarrow> blocked_flag w' \<or> opt_pc False is_unparking p'"
  shows "park_ok P w' q (f(t := p'))"
proof -
  have "opt_pc False holding ((f(t := p')) u) = opt_pc False holding (f u)" for u
    using assms(2) by simp
  moreover have "opt_pc False is_asleep ((f(t := p')) u)" if "u \<in> pk_asleep P q" for u
  proof -
    have "opt_pc False is_asleep (f u)" using assms(1) that by (auto simp: park_ok_def)
    with assms(3) show ?thesis by (cases "u = t") auto
  qed
  moreover have "blocked_flag w' \<or> (\<exists>u. opt_pc False is_unparking ((f(t := p')) u))"
    if *: "pk_asleep P q \<noteq> {} \<or> (\<exists>u. opt_pc False is_committing ((f(t := p')) u))"
  proof -
    have keep: "opt_pc False is_unparking ((f(t := p')) u)" if "opt_pc False is_unparking (f u)" for u
      using that assms(4) by auto
    have "blocked_flag w' \<or> pk_asleep P q \<noteq> {} \<or> (\<exists>u. opt_pc False is_committing (f u))"
      using * assms(5) by (auto split: if_splits)
    then have "blocked_flag w' \<or> blocked_flag w \<or> (\<exists>u. opt_pc False is_unparking (f u))"
      using assms(1) unfolding park_ok_def by blast
    with keep assms(6) show ?thesis by (metis fun_upd_same)
  qed
  ultimately show ?thesis using assms(1) unfolding park_ok_def by simp
qed

section \<open>Preservation by the steps of a thread\<close>

lemma issued_same_id:
  "id_from_bits w' = id_from_bits w \<Longrightarrow> (is_occupied w \<Longrightarrow> is_occupied w') \<Longrightarrow>
    issued w i \<Longrightarrow> issued w' i"
  by (auto simp: issued_def)

lemma inv_pc_ok: "inv P N s \<Longrightarrow> t < N \<Longrightarrow> pcs s t = Some p \<Longrightarrow> pc_ok (word s) p"
  by (auto simp: inv_def dest!: spec [of _ t])

lemma inv_park: "inv P N s \<Longrightarrow> park_ok P (word s) (queue s) (pcs s)"
  by (simp add: inv_def)

lemma inv_run:
  assumes inv: "inv P N s" and t: "t < N" and p: "pcs s t = Some p"
    and counts: "\<And>R W K.
      counts_ok (header_view (word s)) (R + size (pc_reads p)) (W + size (pc_writes p))
        (K + pc_tokens p) \<Longrightarrow>
      counts_ok (header_view w') (R + size (pc_reads p')) (W + size (pc_writes p'))
        (K + pc_tokens p')"
    and ids_t: "\<And>i. i \<in># pc_reads p' + pc_writes p' \<Longrightarrow>
      i \<in># pc_reads p + pc_writes p \<or> i = id_from_bits w'"
    and ids: "id_from_bits w' = id_from_bits (word s) \<or> \<not> is_occupied w'"
    and mono: "\<And>i. issued (word s) i \<Longrightarrow> issued w' i"
    and pc: "pc_ok w' p'"
    and park: "park_ok P w' q' ((pcs s)(t \<mapsto> p'))"
  shows "inv P N (s\<lparr>word := w', queue := q', pcs := (pcs s)(t \<mapsto> p')\<rparr>)"
proof (rule inv_move [OF inv t])
  let ?s = "s\<lparr>word := w', queue := q', pcs := (pcs s)(t \<mapsto> p')\<rparr>"
  fix R W K
  assume "counts_ok (header_view (word s)) (R + size (rds s t)) (W + size (wrs s t))
    (K + toks s t + of_bool (token s))"
  then show "counts_ok (header_view (word ?s)) (R + size (rds ?s t)) (W + size (wrs ?s t))
    (K + toks ?s t + of_bool (token ?s))"
    using counts [of "R + size (reads s t)" "W + size (writes s t)" "K + of_bool (token s)"] p
    by (simp add: rds_def wrs_def toks_def ac_simps)
next
  let ?s = "s\<lparr>word := w', queue := q', pcs := (pcs s)(t \<mapsto> p')\<rparr>"
  fix i assume "i \<in># rds ?s t + wrs ?s t"
  then show "i \<in># rds s t + wrs s t \<or> i = id_from_bits (word ?s)"
    using ids_t [of i] p by (auto simp: rds_def wrs_def)
qed (use assms in simp_all)

lemma inv_run_queue_same:
  assumes inv: "inv P N s" and t: "t < N" and p: "pcs s t = Some p"
    and "pc_reads p' = pc_reads p" and "pc_writes p' = pc_writes p" and "pc_tokens p' = pc_tokens p"
    and "pc_ok (word s) p'"
    and "holding p' = holding p" and "\<not> is_asleep p" and "\<not> is_unparking p"
    and "\<not> is_committing p'"
  shows "inv P N (s\<lparr>word := word s, queue := queue s, pcs := (pcs s)(t \<mapsto> p')\<rparr>)"
proof (rule inv_run [OF inv t p])
  show "park_ok P (word s) (queue s) ((pcs s)(t \<mapsto> p'))"
    by (rule park_ok_move [OF inv_park [OF inv]]) (use assms in simp_all)
qed (use assms in simp_all)

section \<open>What owning and knowing say about the word\<close>

lemma inv_counts:
  assumes "inv P N s" and "t < N"
  obtains R W K where "counts_ok (header_view (word s)) (R + size (rds s t)) (W + size (wrs s t))
    (K + toks s t + of_bool (token s))"
proof -
  have "total_reads N s = (total_reads N s - size (rds s t)) + size (rds s t)"
    using assms(2) sum_member_le_nat [of "{..<N}" t "\<lambda>t. size (rds s t)"]
    by (simp add: total_reads_def)
  moreover have "total_writes N s = (total_writes N s - size (wrs s t)) + size (wrs s t)"
    using assms(2) sum_member_le_nat [of "{..<N}" t "\<lambda>t. size (wrs s t)"]
    by (simp add: total_writes_def)
  moreover have "total_tokens N s = ((\<Sum>t<N. toks s t) - toks s t) + toks s t + of_bool (token s)"
    using assms(2) sum_member_le_nat [of "{..<N}" t "toks s"]
    by (simp add: total_tokens_def)
  moreover have "counts_ok (header_view (word s)) (total_reads N s) (total_writes N s)
      (total_tokens N s)"
    using assms(1) by (simp add: inv_def)
  ultimately show ?thesis using that by metis
qed

lemma inv_held_id: "inv P N s \<Longrightarrow> t < N \<Longrightarrow> i \<in># rds s t + wrs s t \<Longrightarrow> i = id_from_bits (word s)"
  by (auto simp: inv_def)

lemma inv_read_held:
  assumes "inv P N s" and "t < N" and "i \<in># rds s t"
  obtains n r where "word s = pack n (Suc r) i" and "Suc r < 2147483647" and "i \<noteq> RESERVED_ID"
proof -
  obtain n r j where w: "word s = pack n r j" and r: "r < 2147483648" by (rule word_cases)
  have "i = j" using inv_held_id [OF assms(1,2), of i] assms(3) w r by simp
  obtain R W K where c: "counts_ok (header_view (word s)) (R + size (rds s t)) (W + size (wrs s t))
      (K + toks s t + of_bool (token s))"
    using assms(1,2) by (rule inv_counts)
  have "size (rds s t) \<noteq> 0" using assms(3) by auto
  with c w r that [of n "r - 1"] \<open>i = j\<close> show ?thesis
    by (auto simp: header_view_pack split: if_splits)
qed

lemma inv_write_held:
  assumes "inv P N s" and "t < N" and "i \<in># wrs s t"
  obtains n where "word s = pack n 2147483647 i" and "i \<noteq> RESERVED_ID"
proof -
  obtain n r j where w: "word s = pack n r j" and r: "r < 2147483648" by (rule word_cases)
  have "i = j" using inv_held_id [OF assms(1,2), of i] assms(3) w r by simp
  obtain R W K where c: "counts_ok (header_view (word s)) (R + size (rds s t)) (W + size (wrs s t))
      (K + toks s t + of_bool (token s))"
    using assms(1,2) by (rule inv_counts)
  have "size (wrs s t) \<noteq> 0" using assms(3) by auto
  with c w r that [of n] \<open>i = j\<close> show ?thesis
    by (auto simp: header_view_pack split: if_splits)
qed

lemma inv_token_held:
  assumes "inv P N s" and "t < N" and "toks s t \<noteq> 0 \<or> token s"
  obtains i where "word s = pack False 0 i" and "i \<noteq> RESERVED_ID"
proof -
  obtain n r j where w: "word s = pack n r j" and r: "r < 2147483648" by (rule word_cases)
  obtain R W K where c: "counts_ok (header_view (word s)) (R + size (rds s t)) (W + size (wrs s t))
      (K + toks s t + of_bool (token s))"
    using assms(1,2) by (rule inv_counts)
  with assms(3) w r that [of j] show ?thesis
    by (cases "j = RESERVED_ID") (auto simp: header_view_pack split: if_splits)
qed

lemma inv_issued:
  assumes "inv P N s" and "issued (word s) i"
  shows "i \<noteq> RESERVED_ID" and "id_from_bits (word s) = i \<Longrightarrow> is_occupied (word s)"
proof -
  obtain n r j where w: "word s = pack n r j" and r: "r < 2147483648" by (rule word_cases)
  have c: "counts_ok (header_view (word s)) (total_reads N s) (total_writes N s) (total_tokens N s)"
    using assms(1) by (simp add: inv_def)
  show "i \<noteq> RESERVED_ID"
    using assms(2) c w r less_RESERVED_ID
    by (auto simp: issued_def header_view_pack split: if_splits)
  show "id_from_bits (word s) = i \<Longrightarrow> is_occupied (word s)"
    using assms(2) by (auto simp: issued_def)
qed

section \<open>Each step of a thread\<close>

lemma read_cas_cases:
  assumes "read_cas cfg ch i c to w = (p', w')"
    and "id_from_bits c = i" and "\<not> is_write_locked c" and "i \<noteq> RESERVED_ID"
  obtains "p' = Failed TooManyReaders" "w' = w"
  | "p' = LockReadCurrent i w to" "w' = w"
  | n r where "w = pack n r i" "r < 2147483646" "w' = pack n (Suc r) i"
      "p' = Finished (ResRead i (Ok True))"
proof -
  obtain n r j where c: "c = pack n r j" and r: "r < 2147483648" by (rule word_cases)
  with assms have j: "j = i" and r': "r \<noteq> 2147483647" by auto
  show ?thesis
  proof (cases "r = 2147483646")
    case True
    then have "p' = Failed TooManyReaders" "w' = w"
      using assms(1) c j by (simp_all add: read_cas_def bits_simps)
    then show ?thesis by (rule that(1))
  next
    case False
    with r r' have r: "r < 2147483646" by simp
    then have inc: "increment_readers cfg c = Value (pack n (Suc r) i)"
      using assms(4) c j by (simp add: increment_readers_pack)
    show ?thesis
    proof (cases "ch \<noteq> Spurious \<and> w = c")
      case True
      then have "cas_weak ch w c (pack n (Suc r) i) = (Ok w, pack n (Suc r) i)"
        by (cases ch) (simp_all add: compare_exchange_def)
      then have "w' = pack n (Suc r) i" "p' = Finished (ResRead i (Ok True))"
        using assms(1) inc by (simp_all add: read_cas_def)
      with True c j r that(3) show ?thesis by blast
    next
      case False
      then have "cas_weak ch w c (pack n (Suc r) i) = (Err w, w)"
        by (cases ch) (auto simp add: compare_exchange_def)
      then have "p' = LockReadCurrent i w to" "w' = w"
        using assms(1) inc by (auto simp: read_cas_def)
      then show ?thesis by (rule that(2))
    qed
  qed
qed

lemma inv_read_cas:
  assumes inv: "inv P N s" and t: "t < N" and p: "pcs s t = Some p"
    and own: "pc_reads p = {#}" "pc_writes p = {#}" "pc_tokens p = 0"
    and idle: "\<not> holding p" "\<not> is_asleep p" "\<not> is_unparking p"
    and cas: "read_cas cfg ch i c to (word s) = (p', w')"
    and c: "id_from_bits c = i" "\<not> is_write_locked c" and i: "issued (word s) i"
  shows "inv P N (s\<lparr>word := w', queue := queue s, pcs := (pcs s)(t \<mapsto> p')\<rparr>)"
  using cas c inv_issued(1) [OF inv i]
proof (cases rule: read_cas_cases)
  case 1
  show ?thesis unfolding 1
    by (rule inv_run_queue_same [OF inv t p]) (use own idle in simp_all)
next
  case 2
  show ?thesis unfolding 2
    by (rule inv_run_queue_same [OF inv t p]) (use own idle i in simp_all)
next
  case (3 n r)
  have occ: "n \<or> 0 < r" using inv_issued(2) [OF inv i] 3 by simp
  show ?thesis
  proof (rule inv_run [OF inv t p])
    show "park_ok P w' (queue s) ((pcs s)(t \<mapsto> p'))"
      by (rule park_ok_move [OF inv_park [OF inv]])
        (use 3 own idle p in \<open>simp_all add: blocked_flag_def\<close>)
  next
    fix j assume "issued (word s) j"
    then show "issued w' j" by (rule issued_same_id [rotated 2]) (use 3 in simp_all)
  qed (use 3 own occ inv_issued(1) [OF inv i] in \<open>auto simp: header_view_pack split: if_splits\<close>)
qed

text \<open>A successful CAS of \<open>transition\<close>, in its fast path or inside the parking closure.\<close>

lemma inv_transition_done:
  assumes inv: "inv P N s" and t: "t < N" and p: "pcs s t = Some p"
    and own: "pc_reads p = {#}" "pc_writes p = {#}" "pc_tokens p = 0"
    and idle: "\<not> is_asleep p" "\<not> is_unparking p" "holding p' = holding p" "\<not> is_committing p'"
    and ok: "trans_ok (word s) (word s) new k"
    and gain: "pc_reads p' = {#}" "pc_ok new p'"
      "pc_writes p' = (case k of CallLockWrite i \<Rightarrow> {#i#} | CallRemove x \<Rightarrow> {#})"
      "pc_tokens p' = (case k of CallLockWrite i \<Rightarrow> 0 | CallRemove x \<Rightarrow> of_bool (x \<noteq> RESERVED_ID))"
  shows "inv P N (s\<lparr>word := new, queue := queue s, pcs := (pcs s)(t \<mapsto> p')\<rparr>)"
proof -
  from ok obtain i where i: "issued (word s) i" and w: "word s = pack True 0 i"
    by (cases k) (auto simp: bits_pack)
  note res = inv_issued(1) [OF inv i]
  have park: "park_ok P new (queue s) ((pcs s)(t \<mapsto> p'))"
    by (rule park_ok_move [OF inv_park [OF inv]])
      (use idle p w in \<open>simp_all add: blocked_flag_def\<close>)
  show ?thesis
  proof (cases k)
    case (CallLockWrite j)
    with ok w have new: "new = pack True 2147483647 i" and j: "j = i" by (simp_all add: bits_pack)
    show ?thesis
    proof (rule inv_run [OF inv t p _ _ _ _ gain(2) park])
      fix l assume "issued (word s) l"
      then show "issued new l" by (rule issued_same_id [rotated 2]) (simp_all add: new w)
    qed (use new j w own gain CallLockWrite in \<open>auto simp: header_view_pack\<close>)
  next
    case (CallRemove x)
    with ok w have new: "new = pack False 0 (i + 1)" and x: "x = i + 1" by (auto simp: bits_pack)
    show ?thesis
    proof (rule inv_run [OF inv t p _ _ _ _ gain(2) park])
      fix l assume "issued (word s) l"
      then have "l \<le> i" by (auto simp: issued_def w)
      then show "issued new l" using less_next_id [OF _ res] by (simp add: issued_def new)
    qed (use new x w own gain CallRemove in \<open>auto simp: header_view_pack\<close>)
  qed
qed

lemma trans_ok_id: "trans_ok w e new k \<Longrightarrow> issued w (id_from_bits e) \<and> e = occupied_unlocked_bits (id_from_bits e)"
  by (cases k) (auto simp: bits_pack)

lemma transition_result_owns [simp]:
  "pc_reads (Finished (transition_result k r)) = {#}"
  "pc_ok w (Finished (transition_result k r))"
  "pc_writes (Finished (transition_result k (Ok False))) = {#}"
  "pc_tokens (Finished (transition_result k (Ok False))) = 0"
  "pc_writes (Finished (transition_result k (Err e))) = {#}"
  "pc_tokens (Finished (transition_result k (Err e))) = 0"
  "pc_writes (Finished (transition_result k (Ok True))) =
     (case k of CallLockWrite i \<Rightarrow> {#i#} | CallRemove x \<Rightarrow> {#})"
  "pc_tokens (Finished (transition_result k (Ok True))) =
     (case k of CallLockWrite i \<Rightarrow> 0 | CallRemove x \<Rightarrow> of_bool (x \<noteq> RESERVED_ID))"
proof -
  show "pc_reads (Finished (transition_result k r)) = {#}"
    "pc_ok w (Finished (transition_result k r))"
    by (cases "(k, r)" rule: transition_result.cases; simp)+
  show "pc_writes (Finished (transition_result k (Ok True))) =
      (case k of CallLockWrite i \<Rightarrow> {#i#} | CallRemove x \<Rightarrow> {#})"
    "pc_tokens (Finished (transition_result k (Ok True))) =
      (case k of CallLockWrite i \<Rightarrow> 0 | CallRemove x \<Rightarrow> of_bool (x \<noteq> RESERVED_ID))"
    by (cases k; cases "(case k of CallRemove x \<Rightarrow> x \<noteq> RESERVED_ID | _ \<Rightarrow> True)"; simp)+
qed (cases k; simp)+

lemma run_Transition:
  assumes inv: "inv P N s" and t: "t < N" and p: "pcs s t = Some (Transition e new to k)"
    and step: "hstep cfg P t ch (Transition e new to k) (word s, queue s) = Some (p', w', q')"
  shows "inv P N (s\<lparr>word := w', queue := q', pcs := (pcs s)(t \<mapsto> p')\<rparr>)"
proof -
  have ok: "trans_ok (word s) e new k" using inv_pc_ok [OF inv t p] by simp
  show ?thesis
  proof (cases "ch \<noteq> Spurious \<and> word s = e")
    case True
    then have cas: "cas_weak ch (word s) e new = (Ok e, new)"
      by (cases ch) (auto simp: compare_exchange_def)
    then have *: "w' = new" "q' = queue s" "p' = Finished (transition_result k (Ok True))"
      using step by auto
    show ?thesis unfolding *
      by (rule inv_transition_done [OF inv t p, where k = k])
        (use True ok in simp_all)
  next
    case False
    then have cas: "cas_weak ch (word s) e new = (Err (word s), word s)"
      by (cases ch) (auto simp: compare_exchange_def)
    then consider "p' = TransitionSlow e new to k" | "p' = Transition e new to k"
      | "p' = Finished (transition_result k (Ok False))"
      using step by (auto split: if_splits)
    moreover have *: "w' = word s" "q' = queue s"
      using step cas by (auto split: if_splits)
    ultimately show ?thesis unfolding *
      by cases (rule inv_run_queue_same [OF inv t p]; use ok in simp)+
  qed
qed

section \<open>Steps on the parking queue\<close>

fun plain :: "pc \<Rightarrow> bool" where
  "plain p = (\<not> holding p \<and> \<not> is_asleep p \<and> \<not> is_committing p)"

lemma committing_holding: "is_committing p \<Longrightarrow> holding p"
  by (cases p) auto

lemma park_okI:
  assumes "\<And>u. pk_holder P q = Some u \<longleftrightarrow> opt_pc False holding (f u)"
    and "\<And>u. u \<in> pk_asleep P q \<Longrightarrow> opt_pc False is_asleep (f u)"
    and "pk_asleep P q \<noteq> {} \<or> (\<exists>u. opt_pc False is_committing (f u)) \<Longrightarrow>
      blocked_flag w \<or> (\<exists>u. opt_pc False is_unparking (f u))"
  shows "park_ok P w q f"
  using assms by (simp add: park_ok_def)

lemma park_ok_cover:
  assumes ok: "park_ok P w q f" and f: "\<not> opt_pc False is_unparking (f t)"
    and some: "pk_asleep P q \<noteq> {} \<or> opt_pc False is_committing (f u)"
  shows "blocked_flag w \<or> (\<exists>u. opt_pc False is_unparking ((f(t := p')) u))"
proof -
  have "blocked_flag w \<or> (\<exists>u. opt_pc False is_unparking (f u))"
    using ok some unfolding park_ok_def by blast
  then show ?thesis
  proof
    assume "\<exists>u. opt_pc False is_unparking (f u)"
    then obtain u where u: "opt_pc False is_unparking (f u)" ..
    with f have "u \<noteq> t" by auto
    with u have "opt_pc False is_unparking ((f(t := p')) u)" by simp
    then show ?thesis by blast
  qed simp
qed

lemma park_ok_holder: "park_ok P w q f \<Longrightarrow> pk_holder P q = Some u \<longleftrightarrow> opt_pc False holding (f u)"
  by (simp add: park_ok_def)

lemma park_ok_asleep: "park_ok P w q f \<Longrightarrow> u \<in> pk_asleep P q \<Longrightarrow> opt_pc False is_asleep (f u)"
  by (simp add: park_ok_def)

lemma committing_opt: "opt_pc False is_committing p \<Longrightarrow> opt_pc False holding p"
  by (cases p) (auto intro: committing_holding)

lemma run_ParkClosure:
  assumes inv: "inv P N s" and t: "t < N" and p: "pcs s t = Some (ParkClosure b)"
    and step: "hstep cfg P t ch (ParkClosure b) (word s, queue s) = Some (p', w', q')"
  shows "inv P N (s\<lparr>word := w', queue := q', pcs := (pcs s)(t \<mapsto> p')\<rparr>)"
proof (cases b)
  case (BlockRead i to)
  have i: "issued (word s) i" using inv_pc_ok [OF inv t p] BlockRead by simp
  obtain n r j where w: "word s = pack n r j" and r: "r < 2147483648" by (rule word_cases)
  have "(p' = ParkMark b (word s) \<and> is_write_locked (word s) \<and> id_from_bits (word s) = i \<or>
      (\<exists>x. p' = ParkCancel b x \<and> response_ok b x)) \<and> w' = word s \<and> q' = queue s"
    using step BlockRead by (auto split: if_splits)
  then have eqs: "w' = word s" "q' = queue s" and ok: "pc_ok (word s) p'" "holding p'"
      "\<not> is_committing p'" "pc_reads p' = {#}" "pc_writes p' = {#}" "pc_tokens p' = 0"
    using i BlockRead w r by (auto simp: bits_simps)
  show ?thesis unfolding eqs
    by (rule inv_run_queue_same [OF inv t p]) (use ok in simp_all)
next
  case (BlockTransition e new to k)
  have ok: "trans_ok (word s) e new k" using inv_pc_ok [OF inv t p] BlockTransition by simp
  show ?thesis
  proof (cases "word s = e")
    case True
    then have eqs: "w' = new" "q' = queue s" "p' = ParkCancel b (Transitioned True)"
      using step BlockTransition by (auto simp: compare_exchange_def)
    have "trans_ok new e new k"
      using ok True inv_issued(1) [OF inv]
      by (cases k) (force simp: issued_def bits_pack less_next_id)+
    then show ?thesis unfolding eqs
      by (intro inv_transition_done [OF inv t p, where k = k])
        (use True ok BlockTransition in \<open>auto split: caller.splits\<close>)
  next
    case False
    obtain n r j where w: "word s = pack n r j" and r: "r < 2147483648" by (rule word_cases)
    have e: "e = occupied_unlocked_bits (id_from_bits e)" "issued (word s) (id_from_bits e)"
      using trans_ok_id [OF ok] by simp_all
    have "0 < r" if "j = id_from_bits e"
    proof (rule ccontr)
      assume "\<not> 0 < r"
      with inv_issued(2) [OF inv e(2)] that w have "word s = pack True 0 (id_from_bits e)" by simp
      with e(1) False show False by (simp only: bits_pack)
    qed
    then have pos: "j = id_from_bits e \<Longrightarrow> readers_from_bits (word s) \<noteq> 0"
      using w r by (simp add: bits_simps)
    have "(p' = ParkMark b (word s) \<and> j = id_from_bits e \<or> p' = ParkCancel b (Transitioned False))
        \<and> w' = word s \<and> q' = queue s"
      using step BlockTransition False w r by (auto simp: compare_exchange_def split: if_splits)
    then have eqs: "w' = word s" "q' = queue s" and p': "pc_ok (word s) p'" "holding p'"
        "\<not> is_committing p'" "pc_reads p' = {#}" "pc_writes p' = {#}" "pc_tokens p' = 0"
      using ok BlockTransition pos w r by (cases k; auto)+
    show ?thesis unfolding eqs
      by (rule inv_run_queue_same [OF inv t p]) (use p' in simp_all)
  qed
qed

lemma run_ParkMark:
  assumes inv: "inv P N s" and t: "t < N" and p: "pcs s t = Some (ParkMark b e)"
    and step: "hstep cfg P t ch (ParkMark b e) (word s, queue s) = Some (p', w', q')"
  shows "inv P N (s\<lparr>word := w', queue := q', pcs := (pcs s)(t \<mapsto> p')\<rparr>)"
proof -
  have ok: "blocker_ok (word s) b" "readers_from_bits e \<noteq> 0" "id_from_bits e = blocker_id b"
    using inv_pc_ok [OF inv t p] by simp_all
  have "issued (word s) (blocker_id b)" using ok(1) by (cases b) (auto dest: trans_ok_id)
  then have res: "blocker_id b \<noteq> RESERVED_ID" by (rule inv_issued(1) [OF inv])
  obtain n r i where e: "e = pack n r i" and r: "r < 2147483648" by (rule word_cases)
  have pos: "0 < r" "i \<noteq> RESERVED_ID" using ok res e r by (auto simp: bits_simps)
  then have mark: "mark_thread_blocking cfg e = Value (pack False r i)"
    using e r by (simp add: bits_simps)
  show ?thesis
  proof (cases "word s = e")
    case False
    then have eqs: "w' = word s" "q' = queue s" "p' = ParkClosure b"
      using step mark by (simp_all add: compare_exchange_def)
    show ?thesis unfolding eqs
      by (rule inv_run_queue_same [OF inv t p]) (use ok in simp_all)
  next
    case True
    then have eqs: "w' = pack False r i" "q' = queue s" "p' = ParkCommit b"
      using step mark by (simp_all add: compare_exchange_def)
    note ws = True [unfolded e]
    have mono: "issued (word s) j \<Longrightarrow> issued (pack False r i) j" for j
      by (rule issued_same_id [of "pack False r i" "word s"]) (use ws r pos in auto)
    show ?thesis unfolding eqs
    proof (rule inv_run [OF inv t p])
      show "park_ok P (pack False r i) (queue s) ((pcs s)(t \<mapsto> ParkCommit b))"
        by (rule park_ok_move [OF inv_park [OF inv]])
          (use p r pos in \<open>simp_all add: blocked_flag_def\<close>)
      show "pc_ok (pack False r i) (ParkCommit b)"
        by (rule issued_mono_pc_ok [OF mono]) (use ok in simp_all)
    qed (use ws r pos mono in \<open>auto simp: header_view_pack split: if_splits\<close>)
  qed
qed

lemma run_UnlockReadCurrent:
  assumes inv: "inv P N s" and t: "t < N" and p: "pcs s t = Some (UnlockReadCurrent i c)"
    and step: "hstep cfg P t ch (UnlockReadCurrent i c) (word s, queue s) = Some (p', w', q')"
  shows "inv P N (s\<lparr>word := w', queue := q', pcs := (pcs s)(t \<mapsto> p')\<rparr>)"
proof -
  have held: "i \<in># rds s t" using p by (simp add: rds_def)
  obtain nw rw where w: "word s = pack nw (Suc rw) i" and rw: "Suc rw < 2147483647"
    and res: "i \<noteq> RESERVED_ID"
    using inv t held by (rule inv_read_held)
  have ok: "readers_from_bits c \<noteq> 0" "\<not> is_write_locked c" "id_from_bits c = i"
    using inv_pc_ok [OF inv t p] by simp_all
  obtain n r j where c: "c = pack n r j" and r: "r < 2147483648" by (rule word_cases)
  have r1: "0 < r" "r < 2147483647" "j = i" using ok c r by (auto simp: bits_simps)
  have new: "unlock_read_new cfg i c = Value (\<not> n \<and> r = 1, pack (n \<or> r = 1) (r - 1) i)"
    using r1 c ok decrement_readers_pack [of "r - 1" cfg n i]
    by (auto simp: unlock_read_new_def debug_assert_holds bits_simps Let_def)
  show ?thesis
  proof (cases "ch \<noteq> Spurious \<and> word s = c")
    case False
    then have "cas_weak ch (word s) c (pack (n \<or> r = 1) (r - 1) i) = (Err (word s), word s)"
      by (cases ch) (auto simp: compare_exchange_def)
    then have eqs: "w' = word s" "q' = queue s" "p' = UnlockReadCurrent i (word s)"
      using step new by auto
    have "pc_ok (word s) (UnlockReadCurrent i (word s))"
      using w rw by (simp add: bits_simps)
    then show ?thesis unfolding eqs
      by (intro inv_run_queue_same [OF inv t p]) simp_all
  next
    case True
    then have "cas_weak ch (word s) c (pack (n \<or> r = 1) (r - 1) i) =
        (Ok c, pack (n \<or> r = 1) (r - 1) i)"
      by (cases ch) (auto simp: compare_exchange_def)
    then have eqs: "w' = pack (n \<or> r = 1) (r - 1) i" "q' = queue s"
        "p' = (if \<not> n \<and> r = 1 then Unpark ResUnit else Finished ResUnit)"
      using step new by (simp_all split: if_splits)
    have own: "pc_reads p' = {#}" "pc_writes p' = {#}" "pc_tokens p' = 0" "\<not> holding p'"
        "\<not> is_committing p'" "pc_ok w' p'" "is_unparking p' \<longleftrightarrow> \<not> n \<and> r = 1"
      using eqs by simp_all
    have ws: "word s = pack n r i" using True c r1 by simp
    show ?thesis unfolding eqs(2)
    proof (rule inv_run [OF inv t p])
      show "park_ok P w' (queue s) ((pcs s)(t \<mapsto> p'))"
        by (rule park_ok_move [OF inv_park [OF inv]])
          (use p own r1 ws in \<open>auto simp: blocked_flag_def eqs(1)\<close>)
      fix l assume "issued (word s) l"
      then show "issued w' l"
        by (rule issued_same_id [rotated 2]) (use ws r1 in \<open>auto simp: eqs(1)\<close>)
    qed (use ws r1 own res in \<open>auto simp: header_view_pack eqs(1) split: if_splits\<close>)
  qed
qed

lemma swap_checks_eval:
  assumes "i \<noteq> RESERVED_ID"
  shows "swap_checks cfg i (pack n 2147483647 i) res = (if n then Finished res else Unpark res)"
  using assms by (simp add: swap_checks_def debug_assert_holds bits_simps)

lemma run_UnlockWriteSwap:
  assumes inv: "inv P N s" and t: "t < N" and p: "pcs s t = Some (UnlockWriteSwap i)"
    and step: "hstep cfg P t ch (UnlockWriteSwap i) (word s, queue s) = Some (p', w', q')"
  shows "inv P N (s\<lparr>word := w', queue := q', pcs := (pcs s)(t \<mapsto> p')\<rparr>)"
proof -
  have held: "i \<in># wrs s t" using p by (simp add: wrs_def)
  obtain n where w: "word s = pack n 2147483647 i" and res: "i \<noteq> RESERVED_ID"
    using inv t held by (rule inv_write_held)
  have eqs: "w' = pack True 0 i" "q' = queue s"
      "p' = (if n then Finished ResUnit else Unpark ResUnit)"
    using step w res by (simp_all add: swap_checks_eval bits_pack)
  show ?thesis unfolding eqs(1,2)
  proof (rule inv_run [OF inv t p])
    show "park_ok P (pack True 0 i) (queue s) ((pcs s)(t \<mapsto> p'))"
      by (rule park_ok_move [OF inv_park [OF inv]])
        (use p w in \<open>auto simp: blocked_flag_def eqs(3) split: if_splits\<close>)
    fix l assume "issued (word s) l"
    then show "issued (pack True 0 i) l"
      by (rule issued_same_id [rotated 2]) (use w in auto)
  qed (use w res in \<open>auto simp: header_view_pack eqs(3) split: if_splits\<close>)
qed

lemma unpark_if_tokens:
  "pc_tokens (if n then Finished (ResReuse m) else Unpark (ResReuse m)) = of_bool m"
  by (cases m) simp_all

lemma run_RemoveLockedSwap:
  assumes inv: "inv P N s" and t: "t < N" and p: "pcs s t = Some (RemoveLockedSwap i x)"
    and step: "hstep cfg P t ch (RemoveLockedSwap i x) (word s, queue s) = Some (p', w', q')"
  shows "inv P N (s\<lparr>word := w', queue := q', pcs := (pcs s)(t \<mapsto> p')\<rparr>)"
proof -
  have held: "i \<in># wrs s t" using p by (simp add: wrs_def)
  obtain n where w: "word s = pack n 2147483647 i" and res: "i \<noteq> RESERVED_ID"
    using inv t held by (rule inv_write_held)
  have x: "x = i + 1" using inv_pc_ok [OF inv t p] by simp
  obtain m where m: "m \<longleftrightarrow> i + 1 \<noteq> RESERVED_ID" by blast
  let ?r = "ResReuse m"
  have eqs: "w' = pack False 0 (i + 1)" "q' = queue s" "p' = (if n then Finished ?r else Unpark ?r)"
    using step w res m by (auto simp: swap_checks_eval bits_pack x)
  have own: "pc_reads p' = {#}" "pc_writes p' = {#}"
      "pc_tokens p' = of_bool m" "\<not> holding p'" "\<not> is_committing p'"
      "pc_ok w' p'" "is_unparking p' \<longleftrightarrow> \<not> n"
    unfolding eqs(3) by (simp_all only: unpark_if_tokens) simp_all
  show ?thesis unfolding eqs(2)
  proof (rule inv_run [OF inv t p])
    show "park_ok P w' (queue s) ((pcs s)(t \<mapsto> p'))"
      by (rule park_ok_move [OF inv_park [OF inv]])
        (use p own w in \<open>auto simp: blocked_flag_def eqs(1)\<close>)
    fix l assume "issued (word s) l"
    then have "l \<le> i" by (auto simp: issued_def w)
    then show "issued w' l" using less_next_id [OF _ res] by (simp add: issued_def eqs(1))
  qed (use w res own m in \<open>auto simp: header_view_pack eqs(1)\<close>)
qed

lemma run_OccupyFetchOr:
  assumes inv: "inv P N s" and t: "t < N" and p: "pcs s t = Some OccupyFetchOr"
    and step: "hstep cfg P t ch OccupyFetchOr (word s, queue s) = Some (p', w', q')"
  shows "inv P N (s\<lparr>word := w', queue := q', pcs := (pcs s)(t \<mapsto> p')\<rparr>)"
proof -
  have held: "toks s t \<noteq> 0 \<or> token s" using p by (simp add: toks_def)
  obtain i where w: "word s = pack False 0 i" and res: "i \<noteq> RESERVED_ID"
    using inv t held by (rule inv_token_held)
  have eqs: "w' = pack True 0 i" "q' = queue s" "p' = Finished (ResId i)"
    using step w res by (simp_all add: debug_assert_holds bits_simps)
  show ?thesis unfolding eqs
  proof (rule inv_run [OF inv t p])
    show "park_ok P (pack True 0 i) (queue s) ((pcs s)(t \<mapsto> Finished (ResId i)))"
      by (rule park_ok_move [OF inv_park [OF inv]]) (use p w in \<open>auto simp: blocked_flag_def\<close>)
    fix l assume "issued (word s) l"
    then show "issued (pack True 0 i) l"
      by (rule issued_same_id [rotated 2]) (use w in auto)
  qed (use w res in \<open>auto simp: header_view_pack issued_def\<close>)
qed

context parking
begin

lemma park_ok_enter:
  assumes ok: "park_ok P w q f" and q: "pk_enter P t q = Some q'" and f: "f t = Some p"
    and p: "plain p" "\<not> is_unparking p" and p': "holding p'" "\<not> is_committing p'"
  shows "park_ok P w q' (f(t \<mapsto> p'))"
proof (rule park_okI)
  note q' = enter_locks [OF q]
  have none: "\<not> opt_pc False holding (f u)" for u
    using park_ok_holder [OF ok, of u] q' by simp
  show "pk_holder P q' = Some u \<longleftrightarrow> opt_pc False holding ((f(t \<mapsto> p')) u)" for u
    using q' p' none [of u] by auto
  show "opt_pc False is_asleep ((f(t \<mapsto> p')) u)" if "u \<in> pk_asleep P q'" for u
    using park_ok_asleep [OF ok, of u] that q' f p by (cases "u = t") auto
  assume "pk_asleep P q' \<noteq> {} \<or> (\<exists>u. opt_pc False is_committing ((f(t \<mapsto> p')) u))"
  then have "pk_asleep P q \<noteq> {}"
    using q' p' none committing_opt by (auto split: if_splits)
  then show "blocked_flag w \<or> (\<exists>u. opt_pc False is_unparking ((f(t \<mapsto> p')) u))"
    using park_ok_cover [OF ok, of t] f p by simp
qed

lemma park_ok_commit:
  assumes ok: "park_ok P w q f" and f: "f t = Some (ParkCommit b)"
  shows "park_ok P w (pk_commit P t q) (f(t \<mapsto> ParkAsleep b))"
proof (rule park_okI)
  have holder: "pk_holder P q = Some t" using park_ok_holder [OF ok, of t] f by simp
  note q' = commit_sleeps [OF holder]
  have others: "u \<noteq> t \<Longrightarrow> \<not> opt_pc False holding (f u)" for u
    using park_ok_holder [OF ok, of u] holder by auto
  show "pk_holder P (pk_commit P t q) = Some u \<longleftrightarrow>
      opt_pc False holding ((f(t \<mapsto> ParkAsleep b)) u)" for u
    using q' others [of u] by auto
  show "opt_pc False is_asleep ((f(t \<mapsto> ParkAsleep b)) u)" if "u \<in> pk_asleep P (pk_commit P t q)" for u
    using park_ok_asleep [OF ok, of u] that q' by (cases "u = t") auto
  show "blocked_flag w \<or> (\<exists>u. opt_pc False is_unparking ((f(t \<mapsto> ParkAsleep b)) u))"
    using park_ok_cover [OF ok, of t t] f by simp
qed

lemma park_ok_cancel:
  assumes ok: "park_ok P w q f" and f: "f t = Some p" and p: "holding p" and p': "plain p'"
  shows "park_ok P w (pk_cancel P t q) (f(t \<mapsto> p'))"
proof (rule park_okI)
  have holder: "pk_holder P q = Some t" using park_ok_holder [OF ok, of t] f p by simp
  note q' = cancel_releases [OF holder]
  have others: "u \<noteq> t \<Longrightarrow> \<not> opt_pc False holding (f u)" for u
    using park_ok_holder [OF ok, of u] holder by auto
  have p_state: "\<not> is_asleep p" "\<not> is_unparking p" using p by (cases p; simp)+
  show "pk_holder P (pk_cancel P t q) = Some u \<longleftrightarrow> opt_pc False holding ((f(t \<mapsto> p')) u)" for u
    using q' p' others [of u] by auto
  show "opt_pc False is_asleep ((f(t \<mapsto> p')) u)" if "u \<in> pk_asleep P (pk_cancel P t q)" for u
    using park_ok_asleep [OF ok, of u] that q' f p_state by (cases "u = t") auto
  assume "pk_asleep P (pk_cancel P t q) \<noteq> {} \<or> (\<exists>u. opt_pc False is_committing ((f(t \<mapsto> p')) u))"
  then have "pk_asleep P q \<noteq> {}"
    using q' p' others committing_opt by (auto split: if_splits)
  then show "blocked_flag w \<or> (\<exists>u. opt_pc False is_unparking ((f(t \<mapsto> p')) u))"
    using park_ok_cover [OF ok, of t] f p_state by simp
qed

lemma park_ok_wake:
  assumes ok: "park_ok P w q f" and f: "f t = Some (ParkAsleep b)"
    and q': "pk_holder P q' = pk_holder P q" "pk_asleep P q' = pk_asleep P q - {t}"
    and p': "plain p'"
  shows "park_ok P w q' (f(t \<mapsto> p'))"
proof (rule park_okI)
  show "pk_holder P q' = Some u \<longleftrightarrow> opt_pc False holding ((f(t \<mapsto> p')) u)" for u
    using park_ok_holder [OF ok, of u] q' f p' by (cases "u = t") auto
  show "opt_pc False is_asleep ((f(t \<mapsto> p')) u)" if "u \<in> pk_asleep P q'" for u
    using park_ok_asleep [OF ok, of u] that q' by (cases "u = t") auto
  assume "pk_asleep P q' \<noteq> {} \<or> (\<exists>u. opt_pc False is_committing ((f(t \<mapsto> p')) u))"
  then have "\<exists>u. pk_asleep P q \<noteq> {} \<or> opt_pc False is_committing (f u)"
    using q' p' by (auto split: if_splits)
  then obtain u where "pk_asleep P q \<noteq> {} \<or> opt_pc False is_committing (f u)" ..
  then show "blocked_flag w \<or> (\<exists>u. opt_pc False is_unparking ((f(t \<mapsto> p')) u))"
    by (rule park_ok_cover [OF ok, rotated]) (simp add: f)
qed

lemma park_ok_unpark:
  assumes ok: "park_ok P w q f" and f: "f t = Some (Unpark r)" and q: "pk_unpark_all P q = Some q'"
    and p': "plain p'"
  shows "park_ok P w q' (f(t \<mapsto> p'))"
proof (rule park_okI)
  note q' = unpark_wakes [OF q]
  have none: "\<not> opt_pc False holding (f u)" for u
    using park_ok_holder [OF ok, of u] q' by simp
  show "pk_holder P q' = Some u \<longleftrightarrow> opt_pc False holding ((f(t \<mapsto> p')) u)" for u
    using q' p' none [of u] by auto
  show "opt_pc False is_asleep ((f(t \<mapsto> p')) u)" if "u \<in> pk_asleep P q'" for u
    using that q' by simp
  assume "pk_asleep P q' \<noteq> {} \<or> (\<exists>u. opt_pc False is_committing ((f(t \<mapsto> p')) u))"
  then have False using q' p' none committing_opt by (auto split: if_splits)
  then show "blocked_flag w \<or> (\<exists>u. opt_pc False is_unparking ((f(t \<mapsto> p')) u))" ..
qed

lemma run_ParkAsleep:
  assumes inv: "inv P N s" and t: "t < N" and p: "pcs s t = Some (ParkAsleep b)"
    and step: "hstep cfg P t ch (ParkAsleep b) (word s, queue s) = Some (p', w', q')"
  shows "inv P N (s\<lparr>word := w', queue := q', pcs := (pcs s)(t \<mapsto> p')\<rparr>)"
proof -
  have b: "blocker_ok (word s) b" using inv_pc_ok [OF inv t p] by simp
  have eqs: "w' = word s" and p': "p' = ParkEnter b \<or> p' = Finished (blocker_timed_out b)"
    and "pk_resume P t (queue s) = Some q' \<or> pk_expire P t (queue s) = Some q'"
    using step by (auto split: choice.splits result.splits option.splits)
  then have q': "pk_holder P q' = pk_holder P (queue s)"
      "pk_asleep P q' = pk_asleep P (queue s) - {t}"
    using resume_wakes expire_wakes by blast+
  have own: "pc_reads p' = {#}" "pc_writes p' = {#}" "pc_tokens p' = 0" "plain p'"
      "pc_ok (word s) p'"
    using p' b by (cases b; auto)+
  show ?thesis unfolding eqs
  proof (rule inv_run [OF inv t p])
    show "park_ok P (word s) q' ((pcs s)(t \<mapsto> p'))"
      by (rule park_ok_wake [OF inv_park [OF inv] p q' own(4)])
  qed (use own in simp_all)
qed

lemma run_ParkCancel:
  assumes inv: "inv P N s" and t: "t < N" and p: "pcs s t = Some (ParkCancel b r)"
    and step: "hstep cfg P t ch (ParkCancel b r) (word s, queue s) = Some (p', w', q')"
  shows "inv P N (s\<lparr>word := w', queue := q', pcs := (pcs s)(t \<mapsto> p')\<rparr>)"
proof -
  have ok: "blocker_ok (word s) b" "response_ok b r" using inv_pc_ok [OF inv t p] by simp_all
  have eqs: "w' = word s" "q' = pk_cancel P t (queue s)" "p' = after_block b r"
    using step by auto
  have own: "pc_reads p' = {#}" "pc_writes p' = pc_writes (ParkCancel b r)"
      "pc_tokens p' = pc_tokens (ParkCancel b r)" "plain p'" "pc_ok (word s) p'"
  proof -
    consider i to c where "b = BlockRead i to" "r = Matched c"
      | i to where "b = BlockRead i to" "r = Mismatch"
      | e n to k where "b = BlockTransition e n to k" "r = Transitioned True"
      | e n to k where "b = BlockTransition e n to k" "r = Transitioned False"
      using ok(2) by (cases "(b, r)" rule: response_ok.cases) auto
    then show "pc_reads p' = {#}" "pc_writes p' = pc_writes (ParkCancel b r)"
      "pc_tokens p' = pc_tokens (ParkCancel b r)" "plain p'" "pc_ok (word s) p'"
      using ok unfolding eqs(3) by (cases; auto split: caller.split)+
  qed
  show ?thesis unfolding eqs(1,2)
  proof (rule inv_run [OF inv t p])
    show "park_ok P (word s) (pk_cancel P t (queue s)) ((pcs s)(t \<mapsto> p'))"
      by (rule park_ok_cancel [OF inv_park [OF inv] p _ own(4)]) simp
  qed (use own in simp_all)
qed

lemma run_inv:
  assumes inv: "inv P N s" and t: "t < N" and p: "pcs s t = Some p"
    and step: "hstep cfg P t ch p (word s, queue s) = Some (p', w', q')"
  shows "inv P N (s\<lparr>word := w', queue := q', pcs := (pcs s)(t \<mapsto> p')\<rparr>)"
proof (cases p)
  case (LockReadLoad i to)
  with step have eqs: "w' = word s" "q' = queue s" "p' = LockReadCurrent i (word s) to" by auto
  show ?thesis unfolding eqs
    by (rule inv_run_queue_same [OF inv t p]) (use inv_pc_ok [OF inv t p] LockReadLoad in simp_all)
next
  case (LockReadCurrent i c to)
  have i: "issued (word s) i" using inv_pc_ok [OF inv t p] LockReadCurrent by simp
  consider "id_from_bits c \<noteq> i" | "id_from_bits c = i" "is_write_locked c"
    | "id_from_bits c = i" "\<not> is_write_locked c" by blast
  then show ?thesis
  proof cases
    case 1
    with step LockReadCurrent have eqs: "w' = word s" "q' = queue s"
      "p' = Finished (ResRead i (Ok False))" by simp_all
    show ?thesis unfolding eqs
      by (rule inv_run_queue_same [OF inv t p]) (use LockReadCurrent in simp_all)
  next
    case 2
    with step LockReadCurrent have eqs: "w' = word s" "q' = queue s" "p' = LockReadSlow i to"
      by simp_all
    show ?thesis unfolding eqs
      by (rule inv_run_queue_same [OF inv t p]) (use LockReadCurrent i in simp_all)
  next
    case 3
    with step LockReadCurrent have cas: "read_cas cfg ch i c to (word s) = (p', w')"
      and q': "q' = queue s" by (auto split: prod.splits)
    show ?thesis unfolding q'
      by (rule inv_read_cas [OF inv t p _ _ _ _ _ _ cas 3 i]) (use LockReadCurrent in simp_all)
  qed
next
  case (LockReadMatched i c to)
  have ok: "issued (word s) i" "id_from_bits c = i" "\<not> is_write_locked c"
    using inv_pc_ok [OF inv t p] LockReadMatched by simp_all
  from step LockReadMatched have cas: "read_cas cfg ch i c to (word s) = (p', w')"
    and q': "q' = queue s" by (auto split: prod.splits)
  show ?thesis unfolding q'
    by (rule inv_read_cas [OF inv t p _ _ _ _ _ _ cas ok(2,3,1)]) (use LockReadMatched in simp_all)
next
  case (LockReadSlow i to)
  with step have "w' = word s \<and> q' = queue s \<and>
      (p' = ParkEnter (BlockRead i to) \<or> (\<exists>e. p' = Finished (ResRead i (Err e))))"
    by (auto split: result.splits)
  then show ?thesis
    using inv_pc_ok [OF inv t p] LockReadSlow
    by (elim conjE disjE exE; simp only:; intro inv_run_queue_same [OF inv t p]; simp)
next
  case (TransitionSlow e new to k)
  with step have "w' = word s \<and> q' = queue s \<and>
      (p' = ParkEnter (BlockTransition e new to k) \<or>
       (\<exists>e. p' = Finished (transition_result k (Err e))))"
    by (auto split: result.splits)
  then show ?thesis
    using inv_pc_ok [OF inv t p] TransitionSlow
    by (elim conjE disjE exE; simp only:; intro inv_run_queue_same [OF inv t p]; simp)
next
  case (UnlockReadLoad i)
  with step have eqs: "w' = word s" "q' = queue s" "p' = UnlockReadCurrent i (word s)" by auto
  have held: "i \<in># rds s t" using p UnlockReadLoad by (simp add: rds_def)
  obtain n r where w: "word s = pack n (Suc r) i" "Suc r < 2147483647"
    using inv t held by (rule inv_read_held)
  show ?thesis unfolding eqs
    by (rule inv_run_queue_same [OF inv t p]) (use w UnlockReadLoad in \<open>simp_all add: bits_simps\<close>)
next
  case (ParkEnter b)
  with step obtain q: "pk_enter P t (queue s) = Some q'" and eqs: "w' = word s" "p' = ParkClosure b"
    by auto
  show ?thesis unfolding eqs
  proof (rule inv_run [OF inv t p])
    show "park_ok P (word s) q' ((pcs s)(t \<mapsto> ParkClosure b))"
      by (rule park_ok_enter [OF inv_park [OF inv] q p]) (use ParkEnter in simp_all)
  qed (use inv_pc_ok [OF inv t p] ParkEnter in simp_all)
next
  case (ParkCommit b)
  with step have eqs: "w' = word s" "p' = ParkAsleep b" "q' = pk_commit P t (queue s)" by simp_all
  show ?thesis unfolding eqs
  proof (rule inv_run [OF inv t p])
    show "park_ok P (word s) (pk_commit P t (queue s)) ((pcs s)(t \<mapsto> ParkAsleep b))"
      by (rule park_ok_commit [OF inv_park [OF inv]]) (use p ParkCommit in simp)
  qed (use inv_pc_ok [OF inv t p] ParkCommit in simp_all)
next
  case (Unpark r)
  with step obtain q: "pk_unpark_all P (queue s) = Some q'" and eqs: "w' = word s" "p' = Finished r"
    by auto
  have r: "r = ResUnit \<or> r = ResReuse True \<or> r = ResReuse False"
    using inv_pc_ok [OF inv t p] Unpark by auto
  show ?thesis unfolding eqs
  proof (rule inv_run [OF inv t p])
    show "park_ok P (word s) q' ((pcs s)(t \<mapsto> Finished r))"
      by (rule park_ok_unpark [OF inv_park [OF inv] _ q]) (use p Unpark in simp_all)
  qed (use Unpark r in auto)
qed (use step p run_Transition [OF inv t] run_ParkClosure [OF inv t] run_ParkMark [OF inv t]
  run_ParkAsleep [OF inv t] run_ParkCancel [OF inv t] run_UnlockReadCurrent [OF inv t]
  run_UnlockWriteSwap [OF inv t] run_OccupyFetchOr [OF inv t] run_RemoveLockedSwap [OF inv t]
  in \<open>simp_all del: hstep.simps add: hstep.simps(19,20)\<close>)

end

section \<open>Calls, returns and reachable states\<close>

lemma inv_client:
  assumes inv: "inv P N s" and t: "t < N"
    and eqs: "word s' = word s" "queue s' = queue s" "pcs s' = (pcs s)(t := p')"
    and frame: "\<And>u. u \<noteq> t \<Longrightarrow> reads s' u = reads s u \<and> writes s' u = writes s u"
    and own: "rds s' t = rds s t" "wrs s' t = wrs s t"
      "toks s' t + of_bool (token s') = toks s t + of_bool (token s)"
    and known: "\<And>i. i \<in> known s' \<Longrightarrow> i \<in> known s \<or> issued (word s) i"
    and pc: "opt_pc True (pc_ok (word s)) p'"
    and calm: "\<not> opt_pc False holding (pcs s t)" "\<not> opt_pc False is_asleep (pcs s t)"
      "\<not> opt_pc False is_unparking (pcs s t)" "\<not> opt_pc False holding p'"
      "\<not> opt_pc False is_committing p'"
  shows "inv P N s'"
proof (rule inv_move [OF inv t])
  show "park_ok P (word s') (queue s') (pcs s')"
    unfolding eqs by (rule park_ok_move [OF inv_park [OF inv]]) (use calm in simp_all)
  fix R W K
  assume "counts_ok (header_view (word s)) (R + size (rds s t)) (W + size (wrs s t))
    (K + toks s t + of_bool (token s))"
  then show "counts_ok (header_view (word s')) (R + size (rds s' t)) (W + size (wrs s' t))
    (K + toks s' t + of_bool (token s'))"
    using own by (simp add: eqs add.assoc)
qed (use assms in auto)

lemma entry_simps [simp]:
  assumes "i \<noteq> RESERVED_ID"
  shows "entry cfg (OpLockRead i to) = LockReadLoad i to"
    and "entry cfg (OpLockWrite i to) =
      Transition (occupied_unlocked_bits i) (write_locked_bits i) to (CallLockWrite i)"
    and "entry cfg (OpRemove i to) =
      Transition (occupied_unlocked_bits i) (unoccupied_bits (i + 1)) to (CallRemove (i + 1))"
    and "entry cfg (OpRemoveLocked i) = RemoveLockedSwap i (i + 1)"
  using assms by (simp_all add: debug_assert_holds checked_add_id)

lemma rds_reads: "i \<in># reads s t \<Longrightarrow> i \<in># rds s t"
  by (simp add: rds_def)

lemma wrs_writes: "i \<in># writes s t \<Longrightarrow> i \<in># wrs s t"
  by (simp add: wrs_def)

lemmas owned_defs = rds_def wrs_def toks_def call_def

lemma grant_inv:
  assumes inv: "inv P N s" and t: "t < N" and p: "pcs s t = Some (Finished r)"
  shows "inv P N (grant t r (s\<lparr>pcs := (pcs s)(t := None)\<rparr>))"
proof -
  have "token s = False" if "0 < toks s t"
  proof -
    obtain R W K where "counts_ok (header_view (word s)) (R + size (rds s t)) (W + size (wrs s t))
        (K + toks s t + of_bool (token s))"
      using inv t by (rule inv_counts)
    with that show ?thesis
      by (cases "header_view (word s)") (auto simp: of_bool_def split: if_splits)
  qed
  moreover have "pc_ok (word s) (Finished r)" by (rule inv_pc_ok [OF inv t p])
  ultimately show ?thesis
    using p by (cases "(t, r, s)" rule: grant.cases)
      (auto simp: owned_defs intro!: inv_client [OF inv t, where p' = None])
qed

lemma call_known_inv:
  assumes inv: "inv P N s" and t: "t < N" and idle: "pcs s t = None" and i: "i \<in> known s"
    and c: "c = OpLockRead i to \<or> c = OpLockWrite i to \<or> c = OpRemove i to"
  shows "inv P N (call cfg t c s)"
proof -
  have i': "issued (word s) i" using inv i by (simp add: inv_def)
  note res = inv_issued(1) [OF inv i']
  show ?thesis
    by (rule inv_client [OF inv t, where p' = "Some (entry cfg c)"])
      (use c idle i' res in \<open>auto simp: owned_defs checked_add_id\<close>)
qed

lemma call_release_inv:
  assumes inv: "inv P N s" and t: "t < N" and idle: "pcs s t = None"
  shows "i \<in># reads s t \<Longrightarrow>
      inv P N (call cfg t (OpUnlockRead i) (s\<lparr>reads := (reads s)(t := reads s t - {#i#})\<rparr>))"
    and "i \<in># writes s t \<Longrightarrow>
      inv P N (call cfg t (OpUnlockWrite i) (s\<lparr>writes := (writes s)(t := writes s t - {#i#})\<rparr>))"
    and "i \<in># writes s t \<Longrightarrow>
      inv P N (call cfg t (OpRemoveLocked i) (s\<lparr>writes := (writes s)(t := writes s t - {#i#})\<rparr>))"
proof -
  show "i \<in># reads s t \<Longrightarrow>
      inv P N (call cfg t (OpUnlockRead i) (s\<lparr>reads := (reads s)(t := reads s t - {#i#})\<rparr>))"
    by (rule inv_client [OF inv t, where p' = "Some (UnlockReadLoad i)"])
      (use idle in \<open>simp_all add: owned_defs\<close>)
  show "i \<in># writes s t \<Longrightarrow>
      inv P N (call cfg t (OpUnlockWrite i) (s\<lparr>writes := (writes s)(t := writes s t - {#i#})\<rparr>))"
    by (rule inv_client [OF inv t, where p' = "Some (UnlockWriteSwap i)"])
      (use idle in \<open>simp_all add: owned_defs\<close>)
  assume i: "i \<in># writes s t"
  obtain n where "i \<noteq> RESERVED_ID" using inv t wrs_writes [OF i] by (rule inv_write_held)
  with i show "inv P N (call cfg t (OpRemoveLocked i)
      (s\<lparr>writes := (writes s)(t := writes s t - {#i#})\<rparr>))"
    by (intro inv_client [OF inv t, where p' = "Some (RemoveLockedSwap i (i + 1))"])
      (use idle in \<open>simp_all add: owned_defs checked_add_id\<close>)
qed

context parking
begin

lemma sys_step_inv: "sys_step cfg P N s s' \<Longrightarrow> inv P N s \<Longrightarrow> inv P N s'"
proof (induction rule: sys_step.induct)
  case (call_occupy t s)
  then show ?case
    by (intro inv_client [OF call_occupy.prems, where p' = "Some OccupyFetchOr" and t = t])
      (simp_all add: owned_defs)
next
  case (unwind t s f)
  then show ?case
    by (intro inv_client [OF unwind.prems, where p' = None and t = t])
      (simp_all add: owned_defs)
qed (auto intro: call_known_inv call_release_inv run_inv grant_inv)

lemma init_inv: "inv P N (sys_init P)"
  unfolding inv_def park_ok_def
  by (simp add: sys_init_def new_idle bits_pack header_view_pack total_reads_def total_writes_def
      total_tokens_def owned_defs unat_RESERVED_ID word_unat_eq_iff)

lemma reachable_inv: "reachable cfg P N s \<Longrightarrow> inv P N s"
  by (induction rule: reachable.induct) (auto intro: init_inv sys_step_inv)

end

end
