(* ===== verification/RwConcurrent.thy ===== *)
theory RwConcurrent
  imports RwInvariant
begin

text \<open>
  What the invariant of \<open>RwInvariant\<close> gives the callers of a header, for any number of threads
  and any interleaving: exclusion, agreement of the state word with the guards, absence of
  panics, wake-ups that are never lost, and IDs that are never issued twice.
\<close>

section \<open>Freshness of issued IDs\<close>

definition fresh_ids :: "nat \<Rightarrow> 'q sys \<Rightarrow> bool" where
  "fresh_ids N s \<longleftrightarrow>
     (\<forall>t<N. \<forall>i. pcs s t = Some (Finished (ResId i)) \<longrightarrow>
        i \<notin> known s \<and> (\<forall>u<N. u \<noteq> t \<longrightarrow> pcs s u \<noteq> Some (Finished (ResId i))))"

lemma not_ids [simp]:
  "transition_result k r \<noteq> ResId i"
  "blocker_timed_out b \<noteq> ResId i"
  "after_block b x \<noteq> Finished (ResId i)"
proof -
  show transition: "transition_result k r \<noteq> ResId i" for k r
    by (cases "(k, r)" rule: transition_result.cases) auto
  show "blocker_timed_out b \<noteq> ResId i"
    by (cases b) (auto simp: transition)
  show "after_block b x \<noteq> Finished (ResId i)"
    by (cases "(b, x)" rule: after_block.cases) (auto simp: transition)
qed

lemma read_cas_not_id: "read_cas cfg ch j c to w = (p', w') \<Longrightarrow> p' \<noteq> Finished (ResId i)"
  by (auto simp: read_cas_def split: outcome.splits prod.splits result.splits)

lemma swap_checks_not_id: "r \<noteq> ResId i \<Longrightarrow> swap_checks cfg j w r \<noteq> Finished (ResId i)"
  by (auto simp: swap_checks_def debug_assert_def has_thread_blocking_def omap_def
      split: outcome.splits)

lemma hstep_new_id:
  assumes step: "hstep cfg P t ch p (w, q) = Some (Finished (ResId i), w', q')"
    and ok: "pc_ok w p"
  shows "p = OccupyFetchOr \<and> i = id_from_bits w"
proof (cases p)
  case OccupyFetchOr
  with step show ?thesis by (auto simp: debug_assert_def split: if_splits)
next
  case (LockReadCurrent j c to)
  with step show ?thesis
    by (auto split: if_splits prod.splits dest: read_cas_not_id)
next
  case (LockReadMatched j c to)
  with step show ?thesis
    by (auto split: prod.splits dest: read_cas_not_id)
next
  case (UnlockWriteSwap j)
  with step swap_checks_not_id [of ResUnit i cfg j w] show ?thesis by simp
next
  case (RemoveLockedSwap j n)
  with step swap_checks_not_id [of "ResReuse (n \<noteq> RESERVED_ID)" i cfg j w] show ?thesis by simp
next
  case (Unpark r)
  with step ok show ?thesis by auto
next
  case (ParkAsleep b)
  with step show ?thesis by (auto split: choice.splits result.splits option.splits)
qed (use step in \<open>auto split: if_splits prod.splits result.splits outcome.splits
    block_choice.splits option.splits\<close>)

lemma entry_not_id: "entry cfg c \<noteq> Finished (ResId i)"
  by (cases c) (auto simp: debug_assert_def checked_add_def)

lemma grant_pcs: "pcs (grant t r s) = pcs s"
  by (cases "(t, r, s)" rule: grant.cases) auto

lemma grant_known: "known (grant t r s) = known s \<union> {i. r = ResId i}"
  by (cases "(t, r, s)" rule: grant.cases) auto

lemma fresh_idsI:
  assumes "\<And>t i. t < N \<Longrightarrow> pcs s t = Some (Finished (ResId i)) \<Longrightarrow> i \<notin> known s"
    and "\<And>t u i. t < N \<Longrightarrow> u < N \<Longrightarrow> u \<noteq> t \<Longrightarrow> pcs s t = Some (Finished (ResId i)) \<Longrightarrow>
      pcs s u \<noteq> Some (Finished (ResId i))"
  shows "fresh_ids N s"
  unfolding fresh_ids_def using assms by blast

lemma fresh_idsD:
  assumes "fresh_ids N s" and "t < N" and "pcs s t = Some (Finished (ResId i))"
  shows "i \<notin> known s" and "u < N \<Longrightarrow> u \<noteq> t \<Longrightarrow> pcs s u \<noteq> Some (Finished (ResId i))"
  using assms unfolding fresh_ids_def by blast+

lemma fresh_ids_client:
  assumes fresh: "fresh_ids N s" and pcs: "pcs s' = (pcs s)(t := p')" and known: "known s' = known s"
    and p': "\<And>i. p' \<noteq> Some (Finished (ResId i))"
  shows "fresh_ids N s'"
proof (rule fresh_idsI)
  have old: "pcs s u = Some (Finished (ResId i))" if "pcs s' u = Some (Finished (ResId i))" for u i
    using that p' pcs by (cases "u = t") auto
  show "i \<notin> known s'" if "u < N" "pcs s' u = Some (Finished (ResId i))" for u i
    unfolding known by (rule fresh_idsD(1) [OF fresh that(1) old [OF that(2)]])
  show "pcs s' v \<noteq> Some (Finished (ResId i))"
    if "u < N" "v < N" "v \<noteq> u" "pcs s' u = Some (Finished (ResId i))" for u v i
    using fresh_idsD(2) [OF fresh that(1) old [OF that(4)] that(2,3)] old by blast
qed

lemma fresh_ids_run:
  assumes inv: "inv P N s" and fresh: "fresh_ids N s" and t: "t < N" and p: "pcs s t = Some p"
    and step: "hstep cfg P t ch p (word s, queue s) = Some (p', w', q')"
  shows "fresh_ids N (s\<lparr>word := w', queue := q', pcs := (pcs s)(t \<mapsto> p')\<rparr>)" (is "fresh_ids N ?s")
proof (cases "\<exists>i. p' = Finished (ResId i)")
  case False
  then show ?thesis
    by (intro fresh_ids_client [OF fresh, where t = t and p' = "Some p'"]) auto
next
  case True
  then obtain i where i: "p' = Finished (ResId i)" ..
  have occ: "p = OccupyFetchOr \<and> i = id_from_bits (word s)"
    by (rule hstep_new_id [OF step [unfolded i] inv_pc_ok [OF inv t p]])
  have "toks s t \<noteq> 0 \<or> token s" using p occ by (simp add: toks_def)
  with inv t obtain j where w: "word s = pack False 0 j" by (rule inv_token_held)
  have not_issued: "\<not> issued (word s) i"
    using occ by (simp add: issued_def w bits_pack)
  have unknown: "i \<notin> known s" using not_issued inv by (auto simp: inv_def)
  have others: "pcs s u \<noteq> Some (Finished (ResId i))" if "u < N" for u
    using inv_pc_ok [OF inv that, of "Finished (ResId i)"] not_issued by auto
  have new: "u = t \<and> k = i \<or> u \<noteq> t \<and> pcs s u = Some (Finished (ResId k))"
    if "pcs ?s u = Some (Finished (ResId k))" for u k
    using that i by (cases "u = t") auto
  show ?thesis
  proof (rule fresh_idsI)
    show "k \<notin> known ?s" if u: "u < N" "pcs ?s u = Some (Finished (ResId k))" for u k
      using new [OF u(2)] unknown fresh_idsD(1) [OF fresh u(1), of k] by fastforce
    show "pcs ?s v \<noteq> Some (Finished (ResId k))"
      if u: "u < N" "v < N" "v \<noteq> u" "pcs ?s u = Some (Finished (ResId k))" for u v k
      using new [OF u(4)] new [of v k] others [OF u(1)] others [OF u(2)] u(3)
        fresh_idsD(2) [OF fresh u(1) _ u(2,3), of k] by blast
  qed
qed

lemma fresh_ids_call: "fresh_ids N s \<Longrightarrow> fresh_ids N (call cfg t c s)"
  by (rule fresh_ids_client [where t = t and p' = "Some (entry cfg c)"])
    (simp_all add: call_def entry_not_id del: entry.simps)

lemma fresh_ids_release:
  "fresh_ids N (s\<lparr>reads := f\<rparr>) = fresh_ids N s"
  "fresh_ids N (s\<lparr>writes := f\<rparr>) = fresh_ids N s"
  "fresh_ids N (s\<lparr>token := b\<rparr>) = fresh_ids N s"
  by (simp_all add: fresh_ids_def)

lemma fresh_ids_return:
  assumes fresh: "fresh_ids N s" and t: "t < N" and p: "pcs s t = Some (Finished r)"
  shows "fresh_ids N (grant t r (s\<lparr>pcs := (pcs s)(t := None)\<rparr>))" (is "fresh_ids N ?s")
proof (rule fresh_idsI)
  have old: "u \<noteq> t \<and> pcs s u = Some (Finished (ResId i))"
    if "pcs ?s u = Some (Finished (ResId i))" for u i
    using that by (auto simp: grant_pcs split: if_splits)
  show "i \<notin> known ?s" if u: "u < N" "pcs ?s u = Some (Finished (ResId i))" for u i
    using old [OF u(2)] fresh_idsD(1) [OF fresh u(1), of i]
      fresh_idsD(2) [OF fresh u(1) _ t, of i] p by (auto simp: grant_known)
  show "pcs ?s v \<noteq> Some (Finished (ResId i))"
    if u: "u < N" "v < N" "v \<noteq> u" "pcs ?s u = Some (Finished (ResId i))" for u v i
    using old [OF u(4)] old [of v i] fresh_idsD(2) [OF fresh u(1) _ u(2,3), of i] by blast
qed

context parking
begin

lemma sys_step_fresh:
  "sys_step cfg P N s s' \<Longrightarrow> inv P N s \<Longrightarrow> fresh_ids N s \<Longrightarrow> fresh_ids N s'"
proof (induction rule: sys_step.induct)
  case (run t s p ch p' w' q')
  then show ?case by (blast intro: fresh_ids_run)
next
  case (return t s r)
  then show ?case by (blast intro: fresh_ids_return)
next
  case (unwind t s f)
  show ?case by (rule fresh_ids_client [OF unwind.prems(2), where p' = None and t = t]) simp_all
qed (simp_all only: fresh_ids_call fresh_ids_release)

lemma reachable_fresh: "reachable cfg P N s \<Longrightarrow> fresh_ids N s"
proof (induction rule: reachable.induct)
  case start
  show ?case by (simp add: fresh_ids_def sys_init_def)
next
  case (step s s')
  then show ?case by (blast intro: sys_step_fresh reachable_inv)
qed

end

end
