(* ===== verification/RwGuarantees.thy ===== *)
theory RwGuarantees
  imports RwConcurrent
begin

text \<open>
  What the callers of a header may rely on, for any number of threads, any interleaving, any
  build and any implementation of the parking interface: exclusion, guards that pin their
  element, no panic but the documented one, wake-ups that are never lost, IDs that are never
  issued twice, and no thread that is stuck for good. Each property is a consequence of the
  invariant of \<open>RwInvariant\<close>; each witness runs a concrete interleaving on the parking queue of
  \<open>RwPark\<close>.
\<close>

section \<open>Threads outside the system\<close>

lemma reachable_idle: "reachable cfg P N s \<Longrightarrow> \<not> t < N \<Longrightarrow> pcs s t = None"
proof (induction rule: reachable.induct)
  case (step s s')
  from step.hyps(2) step.IH [OF step.prems] step.prems show ?case
    by (cases rule: sys_step.cases) (auto simp: call_def grant_pcs)
qed (simp add: sys_init_def)

lemma blocked_flag_view:
  "blocked_flag w \<longleftrightarrow> (\<exists>i r. header_view w = ReadLocked i r True) \<or> (\<exists>i. header_view w = WriteLocked i True)"
  by (rule word_cases [of w]) (auto simp: blocked_flag_def header_view_pack bits_pack split: if_splits)

lemma counted_reader:
  assumes "inv P N s" and "header_view (word s) = ReadLocked i r b"
  obtains t where "t < N" and "i \<in># rds s t"
proof -
  have "0 < r" using header_view_range [OF assms(2)] by simp
  moreover have "total_reads N s = r" and ids: "\<And>t j. t < N \<Longrightarrow> j \<in># rds s t \<Longrightarrow> j = id_from_bits (word s)"
    using assms by (auto simp: inv_def)
  ultimately obtain t where t: "t < N" "size (rds s t) \<noteq> 0"
    unfolding total_reads_def by (metis lessThan_iff not_less0 sum.neutral)
  then obtain j where j: "j \<in># rds s t" by fastforce
  moreover have "id_from_bits (word s) = i"
    using assms(2) by (auto simp: header_view_def split: if_splits)
  ultimately show ?thesis using ids that t(1) by blast
qed

lemma counted_writer:
  assumes "inv P N s" and "header_view (word s) = WriteLocked i b"
  obtains t where "t < N" and "i \<in># wrs s t"
proof -
  have "total_writes N s = 1" and ids: "\<And>t j. t < N \<Longrightarrow> j \<in># wrs s t \<Longrightarrow> j = id_from_bits (word s)"
    using assms by (auto simp: inv_def)
  then obtain t where t: "t < N" "size (wrs s t) \<noteq> 0"
    unfolding total_writes_def by (metis lessThan_iff one_neq_zero sum.neutral)
  then obtain j where j: "j \<in># wrs s t" by fastforce
  moreover have "id_from_bits (word s) = i"
    using assms(2) by (auto simp: header_view_def split: if_splits)
  ultimately show ?thesis using ids that t(1) by blast
qed

lemma write_held_view:
  assumes "inv P N s" and "t < N" and "i \<in># wrs s t"
  obtains b where "header_view (word s) = WriteLocked i b" and "total_reads N s = 0"
    and "total_writes N s = 1"
proof -
  obtain n where "word s = pack n 2147483647 i" using assms by (rule inv_write_held)
  then have "header_view (word s) = WriteLocked i (\<not> n)" by (simp add: header_view_pack)
  with assms(1) that show ?thesis by (auto simp: inv_def)
qed

lemma read_held_view:
  assumes "inv P N s" and "t < N" and "i \<in># rds s t"
  obtains r b where "header_view (word s) = ReadLocked i r b" and "total_reads N s = r"
    and "total_writes N s = 0"
proof -
  obtain n r where "word s = pack n (Suc r) i" "Suc r < 2147483647"
    using assms by (rule inv_read_held)
  then have "header_view (word s) = ReadLocked i (Suc r) (\<not> n)"
    by (simp add: header_view_pack del: of_nat_Suc)
  with assms(1) that show ?thesis by (auto simp: inv_def)
qed

lemma sum_one_unique:
  fixes f :: "nat \<Rightarrow> nat"
  assumes "(\<Sum>t<N. f t) = 1" and "t < N" and "f t \<noteq> 0"
  shows "f t = 1" and "u < N \<Longrightarrow> u \<noteq> t \<Longrightarrow> f u = 0"
proof -
  have split: "(\<Sum>t<N. f t) = f t + (\<Sum>u\<in>{..<N} - {t}. f u)"
    using assms(2) by (intro sum.remove) auto
  with assms show "f t = 1" by linarith
  with split assms(1) have "(\<Sum>u\<in>{..<N} - {t}. f u) = 0" by linarith
  then show "u < N \<Longrightarrow> u \<noteq> t \<Longrightarrow> f u = 0" by simp
qed

section \<open>Steps that change the ID, fail, or wait\<close>

lemma trans_new_id:
  assumes "trans_ok w e new k" and "id_from_bits e \<noteq> RESERVED_ID"
  shows "id_from_bits e \<le> id_from_bits new"
  using assms less_next_id [of "id_from_bits e" "id_from_bits e"]
  by (cases k) (auto simp: bits_pack)

lemma unlock_read_new_pack:
  "r < 2147483646 \<Longrightarrow>
    unlock_read_new cfg i (pack n (Suc r) i) = Value (\<not> n \<and> r = 0, pack (n \<or> r = 0) r i)"
  using decrement_readers_pack [of r cfg n i]
  by (auto simp: unlock_read_new_def debug_assert_holds bits_simps Let_def)

lemma hstep_id_mono:
  assumes inv: "inv P N s" and t: "t < N" and p: "pcs s t = Some p"
    and step: "hstep cfg P t ch p (word s, queue s) = Some (p', w', q')"
  shows "id_from_bits (word s) \<le> id_from_bits w'"
proof -
  have cas: "id_from_bits (word s) \<le> id_from_bits w'"
    if "read_cas cfg ch i c to (word s) = (p', w')" and "id_from_bits c = i"
      and "\<not> is_write_locked c" and "issued (word s) i" for i c to
    using that(1-3) inv_issued(1) [OF inv that(4)] by (cases rule: read_cas_cases) auto
  have trans: "id_from_bits (word s) \<le> id_from_bits w'"
    if "trans_ok (word s) e new k" and "w' = word s \<or> word s = e \<and> w' = new" for e new k
    using that trans_new_id [OF that(1)] inv_issued(1) [OF inv] trans_ok_id [OF that(1)] by auto
  note ok = inv_pc_ok [OF inv t p]
  show ?thesis
  proof (cases p)
    case (LockReadCurrent i c to)
    with step ok cas show ?thesis by (auto split: if_splits prod.splits)
  next
    case (LockReadMatched i c to)
    with step ok cas show ?thesis by (auto split: prod.splits)
  next
    case (Transition e new to k)
    have "w' = word s \<or> word s = e \<and> w' = new"
      using step Transition
      by (cases ch) (auto simp: compare_exchange_def split: if_splits)
    with trans ok Transition show ?thesis by auto
  next
    case (ParkClosure b)
    show ?thesis
    proof (cases b)
      case (BlockTransition e new to k)
      have "w' = word s \<or> word s = e \<and> w' = new"
        using step ParkClosure BlockTransition
        by (auto simp: compare_exchange_def split: if_splits)
      with trans ok ParkClosure BlockTransition show ?thesis by auto
    qed (use step ParkClosure in \<open>auto split: if_splits\<close>)
  next
    case (ParkMark b e)
    with step show ?thesis
      by (auto simp: mark_thread_blocking_def compare_exchange_def debug_assert_def mask_fields
          split: if_splits outcome.splits prod.splits result.splits)
  next
    case (UnlockReadCurrent i c)
    have "i \<in># rds s t" using p UnlockReadCurrent by (simp add: rds_def)
    then obtain nw rw where w: "word s = pack nw (Suc rw) i" "Suc rw < 2147483647"
      using inv t by (meson inv_read_held)
    have "id_from_bits w' = i \<or> w' = word s"
    proof (cases "word s = c \<and> ch \<noteq> Spurious")
      case True
      have "unlock_read_new cfg i c = Value (\<not> nw \<and> rw = 0, pack (nw \<or> rw = 0) rw i)"
        using True w unlock_read_new_pack [of rw cfg i nw] by auto
      with step UnlockReadCurrent w show ?thesis
        by (cases ch) (auto simp: compare_exchange_def split: if_splits)
    next
      case False
      then have "cas_weak ch (word s) c x = (Err (word s), word s)" for x
        by (cases ch) (auto simp: compare_exchange_def)
      with step UnlockReadCurrent show ?thesis by (auto split: outcome.splits prod.splits)
    qed
    with w show ?thesis by auto
  next
    case (UnlockWriteSwap i)
    have "i \<in># wrs s t" using p UnlockWriteSwap by (simp add: wrs_def)
    then obtain n where "word s = pack n 2147483647 i" using inv t by (meson inv_write_held)
    with step UnlockWriteSwap show ?thesis by (auto simp: bits_pack)
  next
    case (RemoveLockedSwap i x)
    have "i \<in># wrs s t" using p RemoveLockedSwap by (simp add: wrs_def)
    with inv t obtain n where "word s = pack n 2147483647 i" "i \<noteq> RESERVED_ID"
      by (rule inv_write_held)
    with step RemoveLockedSwap ok less_next_id [of i i] show ?thesis by (auto simp: bits_pack)
  next
    case OccupyFetchOr
    with step show ?thesis by (auto simp: mask_fields)
  qed (use step in \<open>auto split: result.splits choice.splits option.splits\<close>)
qed

lemma read_cas_Failed:
  "read_cas cfg ch i c to w = (Failed f, w') \<Longrightarrow>
    increment_readers cfg c = Fault f \<or> f = UndefinedBehaviour"
  by (auto simp: read_cas_def split: outcome.splits prod.splits result.splits)

lemma checks_not_TooMany:
  "swap_checks cfg i w r \<noteq> Failed TooManyReaders"
  "unlock_read_new cfg i w \<noteq> Fault TooManyReaders"
  "mark_thread_blocking cfg w \<noteq> Fault TooManyReaders"
  by (auto simp: swap_checks_def unlock_read_new_def mark_thread_blocking_def debug_assert_def
      has_thread_blocking_def decrement_readers_def checked_sub_def omap_def Let_def)

lemma transition_never_fails: "after_block b x \<noteq> Failed f"
  by (cases "(b, x)" rule: after_block.cases) auto

lemma TooManyReaders_step:
  assumes step: "hstep cfg P t ch p (w, q) = Some (Failed TooManyReaders, w', q')"
  shows "\<exists>i c to. (p = LockReadCurrent i c to \<or> p = LockReadMatched i c to) \<and>
    readers_from_bits c = MAX_CONCURRENT_READS \<and> w' = w"
proof -
  have cas: "readers_from_bits c = MAX_CONCURRENT_READS \<and> w' = w"
    if "read_cas cfg ch i c to w = (Failed TooManyReaders, w')" for i c to
    using that by (auto simp: read_cas_def increment_readers_def checked_add_def debug_assert_def
        split: outcome.splits prod.splits result.splits if_splits)
  show ?thesis
  proof (cases p)
    case (LockReadCurrent i c to)
    with step cas show ?thesis by (auto split: if_splits prod.splits)
  next
    case (LockReadMatched i c to)
    with step cas show ?thesis by (auto split: prod.splits)
  next
    case (ParkCancel b r)
    with step transition_never_fails [of b r] show ?thesis by auto
  next
    case (UnlockReadCurrent i c)
    with step checks_not_TooMany(2) show ?thesis
      by (auto split: outcome.splits prod.splits result.splits if_splits)
  next
    case (ParkMark b e)
    with step checks_not_TooMany(3) show ?thesis
      by (auto split: outcome.splits prod.splits result.splits)
  next
    case OccupyFetchOr
    with step show ?thesis by (auto simp: debug_assert_def split: if_splits)
  qed (use step checks_not_TooMany(1) in \<open>auto split: result.splits prod.splits if_splits
      block_choice.splits choice.splits option.splits\<close>)
qed

text \<open>Which steps can be taken, and when a thread has to wait for the queue lock.\<close>

fun waits :: "pc \<Rightarrow> bool" where
  "waits (ParkEnter b) = True"
| "waits (ParkAsleep b) = True"
| "waits (Unpark r) = True"
| "waits (Finished r) = True"
| "waits (Failed f) = True"
| "waits _ = False"

lemma no_Hang:
  "mark_thread_blocking cfg w \<noteq> Hang" "unlock_read_new cfg i w \<noteq> Hang"
  by (auto simp: unlock_read_new_def mark_thread_blocking_def debug_assert_def
      has_thread_blocking_def decrement_readers_def checked_sub_def omap_def Let_def)

lemma holding_not_waits: "holding p \<Longrightarrow> \<not> waits p"
  by (cases p) auto

lemma hstep_enabled: "\<not> waits p \<Longrightarrow> hstep cfg P t Go p (w, q) \<noteq> None"
proof (cases p)
  case (ParkMark b e)
  then show ?thesis
    by (auto simp: no_Hang split: outcome.splits prod.splits result.splits)
next
  case (UnlockReadCurrent i c)
  then show ?thesis
    by (auto simp: no_Hang split: outcome.splits prod.splits result.splits)
qed (auto split: result.splits prod.splits block_choice.splits)

section \<open>Scripts for the witnesses\<close>

definition script_read :: "event list" where
  "script_read = [Call 0 OpOccupy, Run 0 Go, Return 0,
     Call 1 (OpLockRead 0 BlockIndefinitely), Run 1 Go, Run 1 Go, Return 1]"

definition script_write :: "event list" where
  "script_write = [Call 0 OpOccupy, Run 0 Go, Return 0,
     Call 0 (OpLockWrite 0 BlockIndefinitely), Run 0 Go, Return 0]"

definition script_sleep :: "event list" where
  "script_sleep = script_write @ [Call 1 (OpLockRead 0 BlockIndefinitely),
     Run 1 Go, Run 1 Go, Run 1 Go, Run 1 Go, Run 1 Go, Run 1 Go, Run 1 Go]"

definition script_occupy :: "event list" where
  "script_occupy = [Call 0 OpOccupy, Run 0 Go]"

definition script_remove :: "event list" where
  "script_remove = [Call 0 OpOccupy, Run 0 Go, Return 0,
     Call 0 (OpRemove 0 BlockIndefinitely), Run 0 Go, Return 0]"

definition scripted :: "event list \<Rightarrow> loom_park sys" where
  "scripted es = the (exec_events debug_build loom_parker 2 es (sys_init loom_parker))"

lemma scripted_runs:
  assumes "\<not> Option.is_none (exec_events debug_build loom_parker 2 es (sys_init loom_parker))"
  shows "reachable debug_build loom_parker 2 (scripted es)"
  using assms by (auto simp: scripted_def Option.is_none_def intro: scripted_reachable)

lemma reserved_ids: "0 \<noteq> RESERVED_ID" "RESERVED_ID \<noteq> 0" "1 \<noteq> RESERVED_ID" "RESERVED_ID \<noteq> 1"
  by (simp_all add: RESERVED_ID_def)

lemmas scripted_eval = scripted_def script_read_def script_write_def script_sleep_def
  script_occupy_def script_remove_def sys_init_def call_event_def call_def debug_build_def loom_defs
  read_cas_def compare_exchange_def deadline_of_def block_for_def instant_add_def rds_def wrs_def bits_simps bits_pack debug_assert_holds
  reserved_ids checked_add_id

lemma script_outcomes:
  "reachable debug_build loom_parker 2 (scripted script_read)"
  "reachable debug_build loom_parker 2 (scripted script_write)"
  "reachable debug_build loom_parker 2 (scripted script_sleep)"
  "reachable debug_build loom_parker 2 (scripted script_occupy)"
  "reachable debug_build loom_parker 2 (scripted script_remove)"
  by (rule scripted_runs, simp add: scripted_eval)+

section \<open>Guarantees\<close>

text \<open>
  C4. The state word agrees with the locks that are held. In every state that any number of
  threads can reach by any interleaving of lock, unlock, occupy and remove operations, an
  unoccupied or unlocked header has no lock held on it, a read locked header says how many read
  locks there are and no write lock is held, and a write locked header has exactly one write
  lock and no read lock (locks count from the successful exchange on the state word until the
  unlocking one).
\<close>

theorem word_counts_locks:
  assumes "parking P" and "reachable cfg P N s"
  shows "case header_view (word s) of
      Unoccupied i \<Rightarrow> total_reads N s = 0 \<and> total_writes N s = 0
    | Unlocked i \<Rightarrow> total_reads N s = 0 \<and> total_writes N s = 0
    | ReadLocked i r b \<Rightarrow> total_reads N s = r \<and> total_writes N s = 0
    | WriteLocked i b \<Rightarrow> total_reads N s = 0 \<and> total_writes N s = 1"
  using parking.reachable_inv [OF assms] by (auto simp: inv_def split: header_view.split)

theorem word_counts_locks_witness:
  "header_view (word (scripted script_read)) = ReadLocked 0 1 False \<and>
   total_reads 2 (scripted script_read) = 1 \<and> total_writes 2 (scripted script_read) = 0"
proof -
  have "header_view (word (scripted script_read)) = ReadLocked 0 1 False"
    by (simp add: scripted_eval)
  with word_counts_locks [OF loom.parking_axioms script_outcomes(1)] show ?thesis by simp
qed

text \<open>
  C5. Mutual exclusion. While a thread holds a write lock, no other thread holds a read or a
  write lock, the thread itself holds nothing else, and the header stays write locked under the
  ID the lock was taken for, so the element cannot be removed or replaced underneath.
\<close>

theorem writer_excludes:
  assumes "parking P" and "reachable cfg P N s" and "t < N" and "i \<in># writes s t"
  shows "writes s t = {#i#} \<and> reads s t = {#} \<and>
    (\<forall>u<N. u \<noteq> t \<longrightarrow> reads s u = {#} \<and> writes s u = {#}) \<and>
    (\<exists>b. header_view (word s) = WriteLocked i b)"
proof -
  have inv: "inv P N s" using assms(1,2) by (rule parking.reachable_inv)
  have held: "i \<in># wrs s t" using assms(4) by (rule wrs_writes)
  obtain b where b: "header_view (word s) = WriteLocked i b"
    and R: "total_reads N s = 0" and W: "total_writes N s = 1"
    using inv assms(3) held by (rule write_held_view)
  have "size (wrs s t) \<noteq> 0" using held by auto
  note one = sum_one_unique [OF W [unfolded total_writes_def] assms(3) this]
  have noreads: "rds s u = {#}" if "u < N" for u using R that by (simp add: total_reads_def)
  have "size (writes s t) \<le> 1" using one(1) by (simp add: wrs_def)
  then have "writes s t = {#i#}" using multi_member_split [OF assms(4)] by auto
  moreover have "writes s u = {#}" if "u < N" "u \<noteq> t" for u using one(2) [OF that] by (simp add: wrs_def)
  moreover have "reads s u = {#}" if "u < N" for u using noreads [OF that] by (simp add: rds_def)
  ultimately show ?thesis using b assms(3) by simp
qed

theorem writer_excludes_witness:
  "writes (scripted script_write) 0 = {#0#} \<and> writes (scripted script_write) 1 = {#} \<and>
   reads (scripted script_write) 1 = {#}"
proof -
  have "0 \<in># writes (scripted script_write) 0" by (simp add: scripted_eval)
  with writer_excludes [OF loom.parking_axioms script_outcomes(2), of 0 0] show ?thesis by simp
qed

text \<open>
  C7. A header never panics in the crate's own use of it, except for the documented limit. In
  every reachable state of any build, the only fault a thread can have is the panic on too many
  readers, and it arises only in a \<open>lock_read\<close> that has read a state word with 2^31 - 2 readers;
  the state word is then unchanged. So no debug assertion of header.rs fires, no arithmetic
  overflows, and the release build meets no state its assertions would have excluded.
\<close>

theorem only_reader_limit_panics:
  assumes "parking P" and "reachable cfg P N s" and "t < N"
  shows "(\<forall>f. pcs s t = Some (Failed f) \<longrightarrow> f = TooManyReaders) \<and>
    (\<forall>p ch f w' q'. pcs s t = Some p \<and>
        hstep cfg P t ch p (word s, queue s) = Some (Failed f, w', q') \<longrightarrow>
      (\<exists>i c to. (p = LockReadCurrent i c to \<or> p = LockReadMatched i c to) \<and>
        readers_from_bits c = MAX_CONCURRENT_READS \<and> f = TooManyReaders \<and> w' = word s))"
proof (intro conjI allI impI)
  have inv: "inv P N s" using assms(1,2) by (rule parking.reachable_inv)
  show "f = TooManyReaders" if "pcs s t = Some (Failed f)" for f
    using inv_pc_ok [OF inv assms(3) that] by simp
  fix p ch f w' q'
  assume *: "pcs s t = Some p \<and> hstep cfg P t ch p (word s, queue s) = Some (Failed f, w', q')"
  then have "inv P N (s\<lparr>word := w', queue := q', pcs := (pcs s)(t \<mapsto> Failed f)\<rparr>)"
    using parking.run_inv [OF assms(1) inv assms(3)] by blast
  from inv_pc_ok [OF this assms(3)] have "f = TooManyReaders" by simp
  with * TooManyReaders_step [of cfg P t ch p "word s" "queue s" w' q']
  show "\<exists>i c to. (p = LockReadCurrent i c to \<or> p = LockReadMatched i c to) \<and>
      readers_from_bits c = MAX_CONCURRENT_READS \<and> f = TooManyReaders \<and> w' = word s" by blast
qed

theorem only_reader_limit_panics_witness:
  "pcs (scripted script_sleep) 1 = Some (ParkAsleep (BlockRead 0 BlockIndefinitely)) \<and>
   pcs (scripted script_sleep) 1 \<noteq> Some (Failed DebugAssertion)"
  using only_reader_limit_panics [OF loom.parking_axioms script_outcomes(3), of 1]
  by (simp add: scripted_eval)

text \<open>A sleeper is about to be woken, or some thread still holds a lock on the header.\<close>

lemma sleeper_covered:
  assumes "parking P" and "reachable cfg P N s" and "t \<in> pk_asleep P (queue s)"
  shows "(\<exists>u<N. \<exists>r. pcs s u = Some (Unpark r)) \<or>
    (\<exists>u<N. \<exists>i. i \<in># rds s u \<and> (\<exists>r. header_view (word s) = ReadLocked i r True)) \<or>
    (\<exists>u<N. \<exists>i. i \<in># wrs s u \<and> header_view (word s) = WriteLocked i True)"
proof -
  have inv: "inv P N s" using assms(1,2) by (rule parking.reachable_inv)
  have "blocked_flag (word s) \<or> (\<exists>u. opt_pc False is_unparking (pcs s u))"
    using inv_park [OF inv] assms(3) by (auto simp: park_ok_def)
  then consider (unpark) u p where "pcs s u = Some p" "is_unparking p"
    | (reading) i r where "header_view (word s) = ReadLocked i r True"
    | (writing) i where "header_view (word s) = WriteLocked i True"
    by (auto simp: blocked_flag_view opt_pc_def split: option.splits)
  then show ?thesis
  proof cases
    case unpark
    moreover from unpark have "u < N" using reachable_idle [OF assms(2), of u] by fastforce
    ultimately show ?thesis by (cases p) auto
  next
    case reading
    moreover from inv reading obtain u where "u < N" "i \<in># rds s u" by (rule counted_reader)
    ultimately show ?thesis by blast
  next
    case writing
    moreover from inv writing obtain u where "u < N" "i \<in># wrs s u" by (rule counted_writer)
    ultimately show ?thesis by blast
  qed
qed

text \<open>
  C6. No wake-up is lost. In every reachable state, if a thread is asleep in the parking queue,
  then either some thread is about to call \<open>unpark\<close>, or the state word says that threads are
  blocked and some thread still holds a lock on the header, whose release will see that flag.
  In particular nobody sleeps on a header that is unlocked or unoccupied with no \<open>unpark\<close> on the
  way.
\<close>

theorem no_lost_wakeup:
  assumes "parking P" and "reachable cfg P N s" and "t \<in> pk_asleep P (queue s)"
  shows "(\<exists>u<N. \<exists>r. pcs s u = Some (Unpark r)) \<or>
    (\<exists>u<N. \<exists>i. i \<in># rds s u \<and> (\<exists>r. header_view (word s) = ReadLocked i r True)) \<or>
    (\<exists>u<N. \<exists>i. i \<in># wrs s u \<and> header_view (word s) = WriteLocked i True)"
  using assms by (rule sleeper_covered)

theorem no_lost_wakeup_witness:
  "header_view (word (scripted script_sleep)) = WriteLocked 0 True \<and>
   (\<exists>u<2. 0 \<in># wrs (scripted script_sleep) u)"
proof -
  have view: "header_view (word (scripted script_sleep)) = WriteLocked 0 True"
    and sleep: "1 \<in> pk_asleep loom_parker (queue (scripted script_sleep))"
    and busy: "\<forall>u<2. \<forall>r. pcs (scripted script_sleep) u \<noteq> Some (Unpark r)"
    by (simp_all add: scripted_eval)
  from no_lost_wakeup [OF loom.parking_axioms script_outcomes(3) sleep] view busy
  show ?thesis by auto
qed

text \<open>A thread inside an operation can go on, waits for a thread that can, or is asleep.\<close>

lemma goes_or_sleeps:
  assumes "parking P" and "reachable cfg P N s" and "t < N" and "pcs s t = Some p"
    and "\<forall>r. p \<noteq> Finished r" and "\<forall>f. p \<noteq> Failed f"
  shows "(\<exists>x. hstep cfg P t Go p (word s, queue s) = Some x) \<or>
    (\<exists>u<N. \<exists>pu x. pcs s u = Some pu \<and> holding pu \<and>
      hstep cfg P u Go pu (word s, queue s) = Some x) \<or>
    t \<in> pk_asleep P (queue s)"
proof (cases "waits p")
  case False
  then show ?thesis using hstep_enabled [of p cfg P t "word s" "queue s"] by auto
next
  case True
  have inv: "inv P N s" using assms(1,2) by (rule parking.reachable_inv)
  show ?thesis
  proof (cases "pk_holder P (queue s)")
    case None
    then have "t \<notin> pk_asleep P (queue s) \<Longrightarrow> hstep cfg P t Go p (word s, queue s) \<noteq> None"
      using True assms(5,6) parking.enter_free [OF assms(1) None, of t]
        parking.unpark_free [OF assms(1) None]
        parking.resume_awake [OF assms(1) _ None, of t]
      by (cases p) auto
    then show ?thesis by auto
  next
    case (Some u)
    then have "opt_pc False holding (pcs s u)"
      using park_ok_holder [OF inv_park [OF inv]] by blast
    then obtain pu where pu: "pcs s u = Some pu" "holding pu"
      by (auto simp: opt_pc_def split: option.splits)
    moreover have "u < N" using pu(1) reachable_idle [OF assms(2), of u] by fastforce
    moreover have "hstep cfg P u Go pu (word s, queue s) \<noteq> None"
      using hstep_enabled [OF holding_not_waits [OF pu(2)]] .
    ultimately show ?thesis by blast
  qed
qed

text \<open>
  C9. IDs are never issued twice by a header: in every reachable state, the ID that an \<open>occupy\<close>
  has just produced is not the reserved one, is none of the IDs that were returned before, and
  no other thread has been given it at the same time.
\<close>

theorem occupy_issues_fresh_id:
  assumes "parking P" and "reachable cfg P N s" and "t < N"
    and "pcs s t = Some (Finished (ResId i))"
  shows "i \<notin> known s \<and> i \<noteq> RESERVED_ID \<and>
    (\<forall>u<N. u \<noteq> t \<longrightarrow> pcs s u \<noteq> Some (Finished (ResId i)))"
proof -
  have inv: "inv P N s" using assms(1,2) by (rule parking.reachable_inv)
  have fresh: "fresh_ids N s" using assms(1,2) by (rule parking.reachable_fresh)
  have "issued (word s) i" using inv_pc_ok [OF inv assms(3,4)] by simp
  then show ?thesis using inv_issued(1) [OF inv] fresh_idsD [OF fresh assms(3,4)] by blast
qed

theorem occupy_issues_fresh_id_witness:
  "pcs (scripted script_occupy) 0 = Some (Finished (ResId 0)) \<and> 0 \<notin> known (scripted script_occupy)"
proof -
  have "pcs (scripted script_occupy) 0 = Some (Finished (ResId 0))" by (simp add: scripted_eval)
  with occupy_issues_fresh_id [OF loom.parking_axioms script_outcomes(4), of 0 0]
  show ?thesis by simp
qed

text \<open>
  C8. A removed ID is dead for good: once the header has left an ID that was handed out, then in
  every state reached later by any interleaving the header is past that ID and no thread holds a
  read or a write lock for it.
\<close>

theorem removed_id_stays_dead:
  assumes "parking P" and "reachable cfg P N s" and "i \<in> known s"
    and "\<not> (is_occupied (word s) \<and> id_from_bits (word s) = i)"
    and "(sys_step cfg P N)\<^sup>*\<^sup>* s s'"
  shows "i < id_from_bits (word s') \<and> (\<forall>t<N. i \<notin># reads s' t \<and> i \<notin># writes s' t)"
proof -
  have inv: "inv P N s" using assms(1,2) by (rule parking.reachable_inv)
  have "issued (word s) i" using inv assms(3) by (auto simp: inv_def)
  with assms(4) have now: "i < id_from_bits (word s)" by (auto simp: issued_def)
  have "reachable cfg P N s' \<and> i < id_from_bits (word s')"
    using assms(5)
  proof (induction rule: rtranclp_induct)
    case base
    show ?case using assms(2) now by simp
  next
    case (step y z)
    have "id_from_bits (word y) \<le> id_from_bits (word z)"
      using step.hyps(2)
    proof (cases rule: sys_step.cases)
      case (run t p ch p' w' q')
      have "inv P N y" using step.IH parking.reachable_inv [OF assms(1)] by blast
      from hstep_id_mono [OF this run(2,3,4)] run(1) show ?thesis by simp
    next
      case (return t r)
      then show ?thesis by (cases "(t, r, y)" rule: grant.cases) simp_all
    qed (simp_all add: call_def)
    with step show ?case by (auto intro: reachable.step)
  qed
  moreover from this have "inv P N s'" using parking.reachable_inv [OF assms(1)] by blast
  ultimately show ?thesis
    using inv_held_id [of P N s'] rds_reads wrs_writes by fastforce
qed

theorem removed_id_stays_dead_witness:
  "0 \<in> known (scripted script_remove) \<and> 0 < id_from_bits (word (scripted script_remove))"
proof -
  have known: "0 \<in> known (scripted script_remove)"
    and view: "\<not> (is_occupied (word (scripted script_remove)) \<and>
      id_from_bits (word (scripted script_remove)) = 0)"
    by (simp_all add: scripted_eval)
  from removed_id_stays_dead [OF loom.parking_axioms script_outcomes(5) known view] known
  show ?thesis by auto
qed

end
