(* ===== verification/RwHeaderSpec.thy ===== *)
theory RwHeaderSpec
  imports RwHeader
begin

text \<open>
  What a header operation does, on the abstract view of the state word: a read-write lock
  with an ID. The \<open>view_*\<close> functions are that specification; the lemmas of the first section
  evaluate the code of \<open>RwHeader\<close> on a word given by its fields, the theorems say that the
  code implements the specification whatever the build and however often the weak CAS fails.
\<close>

named_theorems header_eval \<open>the header operations on a word given by its fields\<close>

section \<open>The operations on packed words\<close>

lemma compare_exchange_weak_same:
  "compare_exchange_weak spur w w new =
     (case spur of 0 \<Rightarrow> (Ok w, new, 0) | Suc s \<Rightarrow> (Err w, w, s))"
  by (simp add: compare_exchange_weak_def)

lemma lock_read_with_current_mismatch:
  "id_from_bits current \<noteq> i \<Longrightarrow>
    lock_read_with_current cfg spur i current t w = Value (Ok False, w)"
  by (simp add: lock_read_with_current.simps)

lemma lock_read_with_current_free:
  assumes "r < 2147483646" and "i \<noteq> RESERVED_ID"
  shows "lock_read_with_current cfg spur i (pack n r i) t (pack n r i) =
    Value (Ok True, pack n (Suc r) i)"
  using assms
  by (induction spur)
    (simp_all add: lock_read_with_current.simps compare_exchange_weak_same bits_simps)

lemma lock_read_with_current_full:
  "lock_read_with_current cfg spur i (pack n 2147483646 i) t (pack n 2147483646 i) =
    Fault TooManyReaders"
  by (simp add: lock_read_with_current.simps bits_simps)

lemma lock_read_slow_write_locked:
  assumes "i \<noteq> RESERVED_ID"
  shows "lock_read_slow cfg spur i t (pack n 2147483647 i) =
    (case t of DontBlock \<Rightarrow> Value (Err TimedOut, pack n 2147483647 i)
     | BlockUntil d \<Rightarrow> Value (Err TimedOut, pack False 2147483647 i)
     | BlockIndefinitely \<Rightarrow> Hang)"
  using assms
  by (simp add: lock_read_slow.simps deadline_of_def header_block_eq bits_simps split: timeout.split)

lemma lock_read_mismatch [header_eval]:
  "r < 2147483648 \<Longrightarrow> i \<noteq> j \<Longrightarrow> j \<noteq> RESERVED_ID \<Longrightarrow>
    lock_read cfg spur j t (pack n r i) = Value (Ok False, pack n r i)"
  by (simp add: lock_read_def debug_assert_holds lock_read_with_current_mismatch)

lemma lock_read_match [header_eval]:
  assumes "r < 2147483648" and "i \<noteq> RESERVED_ID"
  shows "lock_read cfg spur i t (pack n r i) =
    (if r = 2147483646 then Fault TooManyReaders
     else if r < 2147483646 then Value (Ok True, pack n (Suc r) i)
     else case t of DontBlock \<Rightarrow> Value (Err TimedOut, pack n r i)
       | BlockUntil d \<Rightarrow> Value (Err TimedOut, pack False r i)
       | BlockIndefinitely \<Rightarrow> Hang)"
proof -
  consider "r = 2147483646" | "r < 2147483646" | "r = 2147483647" using assms by linarith
  then show ?thesis
  proof cases
    case 3
    then have "lock_read_with_current cfg spur i (pack n r i) t (pack n r i) =
        lock_read_slow cfg spur i t (pack n r i)"
      using assms by (simp add: lock_read_with_current.simps)
    with 3 assms show ?thesis
      by (simp add: lock_read_def debug_assert_holds lock_read_slow_write_locked cong: timeout.case_cong)
  qed (use assms in \<open>simp_all add: lock_read_def debug_assert_holds
      lock_read_with_current_full lock_read_with_current_free\<close>)
qed

lemma unlock_read_match [header_eval]:
  assumes "Suc r < 2147483647"
  shows "unlock_read cfg spur i (pack n (Suc r) i) =
    Value (\<not> n \<and> r = 0, pack (n \<or> r = 0) r i)"
proof -
  have "unlock_read_with_current cfg spur i (pack n (Suc r) i) (pack n (Suc r) i) =
      Value (\<not> n \<and> r = 0, pack (n \<or> r = 0) r i)"
    using assms
    by (induction spur)
      (auto simp: unlock_read_with_current.simps compare_exchange_weak_same bits_simps
        debug_assert_holds Let_def)
  then show ?thesis by (simp add: unlock_read_def)
qed

lemma transition_slow_eval:
  assumes "r < 2147483648" and "0 < r" and "i \<noteq> RESERVED_ID" and "id_from_bits expected = i"
    and "expected \<noteq> pack n r i"
  shows "transition_slow cfg expected new t (pack n r i) =
    (case t of DontBlock \<Rightarrow> Value (Err TimedOut, pack n r i)
       | BlockUntil d \<Rightarrow> Value (Err TimedOut, pack False r i)
       | BlockIndefinitely \<Rightarrow> Hang)"
  using assms
  by (auto simp: transition_slow_def deadline_of_def header_block_eq compare_exchange_def bits_simps
      split: timeout.split)

lemma transition_success:
  "transition cfg spur w new t w = Some (Value (Ok True, new))" if "readers_from_bits w = 0"
  using that
  by (induction spur) (subst transition.simps; simp add: compare_exchange_weak_same)+

lemma transition_eval [header_eval]:
  assumes "r < 2147483648" and "j \<noteq> RESERVED_ID" and "i = j \<longrightarrow> n \<or> 0 < r"
  shows "transition cfg spur (pack True 0 j) new t (pack n r i) = Some
    (if i \<noteq> j then Value (Ok False, pack n r i)
     else if r = 0 then Value (Ok True, new)
     else case t of DontBlock \<Rightarrow> Value (Err TimedOut, pack n r i)
       | BlockUntil d \<Rightarrow> Value (Err TimedOut, pack False r i)
       | BlockIndefinitely \<Rightarrow> Hang)"
proof (cases "i = j \<and> r = 0")
  case True
  have "readers_from_bits (pack True 0 j) = 0" by (simp add: bits_simps)
  with True assms show ?thesis by (simp add: transition_success)
next
  case False
  from False assms show ?thesis
    by (subst transition.simps)
      (auto simp: compare_exchange_weak_def bits_simps transition_slow_eval)
qed

lemma lock_write_eval [header_eval]:
  assumes "r < 2147483648" and "j \<noteq> RESERVED_ID" and "i = j \<longrightarrow> n \<or> 0 < r"
  shows "lock_write cfg spur j t (pack n r i) =
    (if i \<noteq> j then Value (Ok False, pack n r i)
     else if r = 0 then Value (Ok True, pack True 2147483647 j)
     else case t of DontBlock \<Rightarrow> Value (Err TimedOut, pack n r i)
       | BlockUntil d \<Rightarrow> Value (Err TimedOut, pack False r i)
       | BlockIndefinitely \<Rightarrow> Hang)"
  using assms by (simp add: lock_write_def debug_assert_holds bits_pack transition_eval)

lemma unlock_write_eval [header_eval]:
  "unlock_write cfg i (pack n 2147483647 i) = Value (\<not> n, pack True 0 i)"
  by (simp add: unlock_write_def debug_assert_holds bits_simps bits_pack)

lemma occupy_eval [header_eval]:
  "i \<noteq> RESERVED_ID \<Longrightarrow> occupy cfg (pack False 0 i) = Value (i, pack True 0 i)"
  by (simp add: occupy_def debug_assert_holds bits_simps)

lemma header_remove_eval [header_eval]:
  assumes "r < 2147483648" and "j \<noteq> RESERVED_ID" and "i = j \<longrightarrow> n \<or> 0 < r"
  shows "header_remove cfg spur j t (pack n r i) =
    (if i \<noteq> j then Value (Ok DidntMatch, pack n r i)
     else if r = 0 then Value (Ok (RemoveMatched (j + 1 \<noteq> RESERVED_ID)), pack False 0 (j + 1))
     else case t of DontBlock \<Rightarrow> Value (Err TimedOut, pack n r i)
       | BlockUntil d \<Rightarrow> Value (Err TimedOut, pack False r i)
       | BlockIndefinitely \<Rightarrow> Hang)"
  using assms
  by (auto simp: header_remove_def debug_assert_holds bits_pack transition_eval checked_add_id
      split: timeout.split)

lemma header_remove_locked_eval [header_eval]:
  "i \<noteq> RESERVED_ID \<Longrightarrow> header_remove_locked cfg i (pack n 2147483647 i) =
    Value (i + 1 \<noteq> RESERVED_ID, \<not> n, pack False 0 (i + 1))"
  by (simp add: header_remove_locked_def debug_assert_holds bits_simps bits_pack checked_add_id)

lemma header_reset_eval [header_eval]:
  "header_reset cfg (pack True 0 i) = Value (Some i, pack False 0 i)"
  "header_reset cfg (pack False 0 i) = Value (None, pack False 0 i)"
  by (simp_all add: Let_def header_reset_def debug_assert_holds bits_simps bits_pack)

lemma header_drop_eval [header_eval]: "header_drop cfg p (pack n 0 i) = Value ()"
  by (cases n) (simp_all add: header_drop_def debug_assert_holds bits_simps)

section \<open>The specification: a read-write lock with an ID\<close>

fun view_id :: "header_view \<Rightarrow> u32" where
  "view_id (Unoccupied i) = i"
| "view_id (Unlocked i) = i"
| "view_id (ReadLocked i r b) = i"
| "view_id (WriteLocked i b) = i"

fun view_mark :: "header_view \<Rightarrow> header_view" where
  "view_mark (ReadLocked i r b) = ReadLocked i r True"
| "view_mark (WriteLocked i b) = WriteLocked i True"
| "view_mark v = v"

text \<open>A contended operation of a thread nobody will wake: it gives up, or hangs.\<close>

definition view_wait :: "timeout \<Rightarrow> header_view \<Rightarrow> ('a block_result \<times> header_view) outcome" where
  "view_wait t v =
     (case t of DontBlock \<Rightarrow> Value (Err TimedOut, v)
      | BlockUntil d \<Rightarrow> Value (Err TimedOut, view_mark v)
      | BlockIndefinitely \<Rightarrow> Hang)"

definition view_lock_read ::
  "u32 \<Rightarrow> timeout \<Rightarrow> header_view \<Rightarrow> (bool block_result \<times> header_view) outcome" where
  "view_lock_read j t v =
     (if view_id v \<noteq> j then Value (Ok False, v)
      else case v of
        Unoccupied i \<Rightarrow> Hang
      | Unlocked i \<Rightarrow> Value (Ok True, ReadLocked i 1 False)
      | ReadLocked i r b \<Rightarrow>
          (if r = unat MAX_CONCURRENT_READS then Fault TooManyReaders
           else Value (Ok True, ReadLocked i (r + 1) b))
      | WriteLocked i b \<Rightarrow> view_wait t v)"

definition view_lock_write ::
  "u32 \<Rightarrow> timeout \<Rightarrow> header_view \<Rightarrow> (bool block_result \<times> header_view) outcome" where
  "view_lock_write j t v =
     (if view_id v \<noteq> j then Value (Ok False, v)
      else case v of
        Unoccupied i \<Rightarrow> Hang
      | Unlocked i \<Rightarrow> Value (Ok True, WriteLocked i False)
      | _ \<Rightarrow> view_wait t v)"

definition view_remove ::
  "u32 \<Rightarrow> timeout \<Rightarrow> header_view \<Rightarrow> (header_remove_result block_result \<times> header_view) outcome"
where
  "view_remove j t v =
     (if view_id v \<noteq> j then Value (Ok DidntMatch, v)
      else case v of
        Unoccupied i \<Rightarrow> Hang
      | Unlocked i \<Rightarrow> Value (Ok (RemoveMatched (i + 1 \<noteq> RESERVED_ID)), Unoccupied (i + 1))
      | _ \<Rightarrow> view_wait t v)"

definition on_view :: "('a \<times> u64) outcome \<Rightarrow> ('a \<times> header_view) outcome" where
  "on_view = omap (\<lambda>(r, w). (r, header_view w))"

lemma on_view_simps [simp]:
  "on_view (Value (r, w)) = Value (r, header_view w)"
  "on_view (Fault f) = Fault f"
  "on_view Hang = Hang"
  by (simp_all add: on_view_def)

section \<open>The code implements the specification\<close>

text \<open>
  C39. \<open>Header::lock_read\<close> implements the specification of a read-write lock with ID matching:
  for an ID other than the reserved one that matches only an occupied header (the documented
  precondition), its result and the new state are those of \<open>view_lock_read\<close>: no lock on an ID
  mismatch, one more reader on an unlocked or read locked header, a panic at the reader limit,
  and on a write locked header a timeout (marking the header as having a blocked thread only if
  it slept) or an endless wait. This holds for every build, timeout and number of spurious
  failures of the weak compare-exchange.
\<close>

theorem lock_read_refines:
  assumes "j \<noteq> RESERVED_ID" and "id_from_bits w = j \<longrightarrow> is_occupied w"
  shows "on_view (lock_read cfg spur j t w) = view_lock_read j t (header_view w)"
proof -
  obtain n r i where w: "w = pack n r i" and r: "r < 2147483648" by (rule word_cases)
  show ?thesis
    using assms r unfolding w
    by (cases "i = j")
      (auto simp: header_eval bits_simps view_lock_read_def view_wait_def MAX_CONCURRENT_READS_nat
        split: timeout.split)
qed

theorem lock_read_refines_witness:
  "on_view (lock_read release_build 2 5 DontBlock (occupied_unlocked_bits 5)) =
   view_lock_read 5 DontBlock (Unlocked 5)"
  using lock_read_refines [of 5 "occupied_unlocked_bits 5" release_build 2 DontBlock]
  by (simp add: bits_pack bits_simps RESERVED_ID_def)

text \<open>
  \<open>Header::lock_write\<close> implements the specification: it takes the lock only of an unlocked
  header with a matching ID; on a locked one it times out or waits forever; it never changes a
  header whose ID does not match.
\<close>

lemma lock_write_refines:
  assumes "j \<noteq> RESERVED_ID" and "id_from_bits w = j \<longrightarrow> is_occupied w"
  shows "on_view (lock_write cfg spur j t w) = view_lock_write j t (header_view w)"
proof -
  obtain n r i where w: "w = pack n r i" and r: "r < 2147483648" by (rule word_cases)
  show ?thesis
    using assms r unfolding w
    by (cases "i = j")
      (auto simp: header_eval bits_simps view_lock_write_def view_wait_def split: timeout.split)
qed

text \<open>
  \<open>Header::remove\<close> implements the specification: it vacates only an unlocked header with a
  matching ID, moves it to the next ID, and reports it reusable exactly if that next ID is not
  the reserved one.
\<close>

lemma header_remove_refines:
  assumes "j \<noteq> RESERVED_ID" and "id_from_bits w = j \<longrightarrow> is_occupied w"
  shows "on_view (header_remove cfg spur j t w) = view_remove j t (header_view w)"
proof -
  obtain n r i where w: "w = pack n r i" and r: "r < 2147483648" by (rule word_cases)
  show ?thesis
    using assms r unfolding w
    by (cases "i = j")
      (auto simp: header_eval bits_simps view_remove_def view_wait_def split: timeout.split)
qed

text \<open>
  Releasing undoes acquiring: whenever \<open>lock_read\<close> (or \<open>lock_write\<close>) succeeds on an occupied
  header, the matching unlock does not panic, wakes nobody it need not wake, and restores the
  state word bit for bit.
\<close>

lemma unlock_restores:
  assumes "j \<noteq> RESERVED_ID" and "is_occupied w"
  shows "(\<forall>w'. lock_read cfg spur j t w = Value (Ok True, w') \<longrightarrow>
            unlock_read cfg spur' j w' = Value (False, w)) \<and>
         (\<forall>w'. lock_write cfg spur j t w = Value (Ok True, w') \<longrightarrow>
            unlock_write cfg j w' = Value (False, w))"
proof -
  obtain n r i where w: "w = pack n r i" and r: "r < 2147483648" by (rule word_cases)
  show ?thesis
    using assms r unfolding w
    by (cases "i = j") (auto simp: header_eval bits_simps split: if_splits timeout.splits)
qed

text \<open>
  Who must wake blocked threads: \<open>unlock_read\<close> calls \<open>unpark\<close> exactly when it releases the
  last read lock of a header with blocked threads, \<open>unlock_write\<close> and \<open>remove_locked\<close> exactly
  when there are blocked threads, and each of them leaves a header without the blocked flag when
  it leaves it unlocked or unoccupied.
\<close>

theorem release_unparks:
  "(header_view w = ReadLocked j r b \<longrightarrow> unlock_read cfg spur j w =
      Value (b \<and> r = 1, pack (\<not> b \<or> r = 1) (r - 1) j)) \<and>
   (header_view w = WriteLocked j b \<longrightarrow> unlock_write cfg j w =
      Value (b, occupied_unlocked_bits j)) \<and>
   (header_view w = WriteLocked j b \<and> j \<noteq> RESERVED_ID \<longrightarrow> header_remove_locked cfg j w =
      Value (j + 1 \<noteq> RESERVED_ID, b, unoccupied_bits (j + 1)))"
proof -
  obtain n r' i where w: "w = pack n r' i" and r': "r' < 2147483648" by (rule word_cases)
  have "unlock_read cfg spur i (pack n r' i) = Value (\<not> n \<and> r' = 1, pack (n \<or> r' = 1) (r' - 1) i)"
    if "0 < r'" and "r' < 2147483647"
    using that unlock_read_match [of "r' - 1" cfg spur i n] by (cases r') auto
  then show ?thesis
    using r' unfolding w by (auto simp: header_eval bits_simps bits_pack split: if_splits)
qed

theorem release_unparks_witness:
  "unlock_write debug_build 5 (pack False 2147483647 5) = Value (True, occupied_unlocked_bits 5) \<and>
   unlock_read debug_build 0 5 (pack False 1 5) = Value (True, pack True 0 5)"
  using release_unparks [of "pack False 2147483647 5" 5 1 True debug_build 0]
    release_unparks [of "pack False 1 5" 5 1 True debug_build 0]
  by (simp add: bits_simps)

text \<open>
  The life of a header: occupying an unoccupied header whose ID is not the reserved one
  returns that ID without a panic and unlocks it; removing it then always succeeds at once,
  returns the header to the unoccupied state under the successor ID, so that the old ID never
  matches again, and the slot is retired exactly after the last ID before the reserved one.
\<close>

theorem occupy_remove_cycle:
  assumes "header_view w = Unoccupied i" and "i \<noteq> RESERVED_ID"
  shows "\<exists>w1 w2. occupy cfg w = Value (i, w1) \<and> header_view w1 = Unlocked i \<and>
    header_remove cfg spur i t w1 = Value (Ok (RemoveMatched (i + 1 \<noteq> RESERVED_ID)), w2) \<and>
    header_view w2 = Unoccupied (i + 1) \<and>
    lock_read cfg spur' i t' w2 = Value (Ok False, w2) \<and>
    lock_write cfg spur' i t' w2 = Value (Ok False, w2) \<and>
    header_remove cfg spur' i t' w2 = Value (Ok DidntMatch, w2)"
proof -
  obtain n r j where w: "w = pack n r j" and r: "r < 2147483648" by (rule word_cases)
  from assms r w have "n = False" "r = 0" "j = i" by (auto simp: bits_simps split: if_splits)
  moreover have "i + 1 \<noteq> i" by simp
  ultimately show ?thesis
    using assms w by (auto simp: header_eval bits_simps)
qed

theorem occupy_remove_cycle_witness:
  "\<exists>w1 w2. occupy debug_build (unoccupied_bits 5) = Value (5, w1) \<and>
     header_remove debug_build 0 5 DontBlock w1 = Value (Ok (RemoveMatched True), w2) \<and>
     header_view w2 = Unoccupied 6"
proof -
  have "header_view (unoccupied_bits 5) = Unoccupied 5" by (simp add: bits_pack header_view_pack)
  moreover have "(5::u32) \<noteq> RESERVED_ID" "(6::u32) \<noteq> RESERVED_ID" by (simp_all add: RESERVED_ID_def)
  ultimately show ?thesis
    using occupy_remove_cycle [of "unoccupied_bits 5" 5 debug_build 0 DontBlock] by fastforce
qed

end
