(* ===== verification/RwSequential.thy ===== *)
theory RwSequential
  imports RwMachine
begin

text \<open>
  The two models of a header's operations agree. \<open>RwHeader\<close> has the operations as functions of
  the word, for one thread; \<open>RwMachine\<close> has them as a machine that makes one atomic access per
  step. Here a single thread runs the machine while nobody else moves: \<open>solo\<close>. What the rest of
  an operation is worth, \<open>rest\<close>, is given by the functions of \<open>RwHeader\<close> for every program
  counter, and no step changes it; so a run of an operation ends with what the function returns.
\<close>

section \<open>Operations as functions of the word\<close>

definition finish :: "('a \<Rightarrow> op_result) \<Rightarrow> ('a \<times> u64) outcome \<Rightarrow> (op_result \<times> u64) outcome" where
  "finish f = omap (map_prod f id)"

fun seq_op :: "build \<Rightarrow> nat \<Rightarrow> header_op \<Rightarrow> u64 \<Rightarrow> (op_result \<times> u64) outcome" where
  "seq_op cfg spur (OpLockRead i t) w = finish (ResRead i) (lock_read cfg spur i t w)"
| "seq_op cfg spur (OpUnlockRead i) w = finish (\<lambda>_. ResUnit) (unlock_read cfg spur i w)"
| "seq_op cfg spur (OpLockWrite i t) w = finish (ResWrite i) (lock_write cfg spur i t w)"
| "seq_op cfg spur (OpUnlockWrite i) w = finish (\<lambda>_. ResUnit) (unlock_write cfg i w)"
| "seq_op cfg spur OpOccupy w = finish ResId (occupy cfg w)"
| "seq_op cfg spur (OpRemove i t) w = finish ResRemove (header_remove cfg spur i t w)"
| "seq_op cfg spur (OpRemoveLocked i) w =
     omap (\<lambda>(reuse, _, w'). (ResReuse reuse, w')) (header_remove_locked cfg i w)"

lemma finish_simps [simp]:
  "finish f (Value (x, w)) = Value (f x, w)"
  "finish f (Fault e) = Fault e"
  "finish f Hang = Hang"
  by (simp_all add: finish_def)

lemma finish_debug_assert [simp]:
  "finish f (debug_assert cfg c k) = debug_assert cfg c (finish f k)"
  by (simp add: debug_assert_def)

lemma finish_obind: "finish f (obind m k) = obind m (\<lambda>x. finish f (k x))"
  by (cases m) simp_all

section \<open>What the rest of an operation is worth\<close>

definition deadline_in :: "blocker \<Rightarrow> instant option" where
  "deadline_in b = (case deadline_of (blocker_timeout b) of Ok d \<Rightarrow> d | Err _ \<Rightarrow> None)"

definition read_rest ::
  "build \<Rightarrow> nat \<Rightarrow> u32 \<Rightarrow> u64 \<Rightarrow> timeout \<Rightarrow> u64 \<Rightarrow> (bool block_result \<times> u64) outcome" where
  "read_rest cfg spur i current t w =
     obind (increment_readers cfg current) (\<lambda>new.
       case compare_exchange_weak spur w current new of
         (Ok _, w', _) \<Rightarrow> Value (Ok True, w')
       | (Err actual, w', spur') \<Rightarrow> lock_read_with_current cfg spur' i actual t w')"

fun block_rest ::
  "build \<Rightarrow> nat \<Rightarrow> blocker \<Rightarrow> response block_result \<times> u64 \<Rightarrow> (op_result \<times> u64) outcome" where
  "block_rest cfg spur b (Err TimedOut, w) = Value (blocker_timed_out b, w)"
| "block_rest cfg spur (BlockRead i t) (Ok (Matched current), w) =
     finish (ResRead i) (read_rest cfg spur i current t w)"
| "block_rest cfg spur (BlockRead i t) (Ok _, w) = Value (ResRead i (Ok False), w)"
| "block_rest cfg spur (BlockTransition expected new t k) (Ok (Transitioned b), w) =
     Value (transition_result k (Ok b), w)"
| "block_rest cfg spur (BlockTransition expected new t k) (Ok _, w) =
     Value (transition_result k (Ok False), w)"

definition park_rest :: "build \<Rightarrow> nat \<Rightarrow> blocker \<Rightarrow> u64 \<Rightarrow> (op_result \<times> u64) outcome" where
  "park_rest cfg spur b w =
     obind (header_block cfg (deadline_in b) (blocker_closure b) w) (block_rest cfg spur b)"

definition asleep_rest :: "blocker \<Rightarrow> u64 \<Rightarrow> (op_result \<times> u64) outcome" where
  "asleep_rest b w =
     (case deadline_in b of None \<Rightarrow> Hang | Some _ \<Rightarrow> Value (blocker_timed_out b, w))"

definition swap_rest :: "build \<Rightarrow> u32 \<Rightarrow> u64 \<Rightarrow> op_result \<Rightarrow> u64 \<Rightarrow> (op_result \<times> u64) outcome"
where
  "swap_rest cfg i old r w =
     debug_assert cfg (id_from_bits old = i)
       (debug_assert cfg (is_write_locked old)
         (omap (\<lambda>_. (r, w)) (has_thread_blocking cfg old)))"

fun rest :: "build \<Rightarrow> nat \<Rightarrow> pc \<Rightarrow> u64 \<Rightarrow> (op_result \<times> u64) outcome" where
  "rest cfg spur (LockReadLoad i t) w =
     finish (ResRead i) (lock_read_with_current cfg spur i w t w)"
| "rest cfg spur (LockReadCurrent i current t) w =
     finish (ResRead i) (lock_read_with_current cfg spur i current t w)"
| "rest cfg spur (LockReadSlow i t) w = finish (ResRead i) (lock_read_slow cfg spur i t w)"
| "rest cfg spur (LockReadMatched i current t) w =
     finish (ResRead i) (read_rest cfg spur i current t w)"
| "rest cfg spur (Transition expected new t k) w =
     finish (transition_result k) (returns (transition cfg spur expected new t w))"
| "rest cfg spur (TransitionSlow expected new t k) w =
     finish (transition_result k) (transition_slow cfg expected new t w)"
| "rest cfg spur (ParkEnter b) w = park_rest cfg spur b w"
| "rest cfg spur (ParkClosure b) w = park_rest cfg spur b w"
| "rest cfg spur (ParkMark b expected) w =
     obind (mark_thread_blocking cfg expected) (\<lambda>new.
       if w = expected then asleep_rest b new else park_rest cfg spur b w)"
| "rest cfg spur (ParkCommit b) w = asleep_rest b w"
| "rest cfg spur (ParkAsleep b) w = asleep_rest b w"
| "rest cfg spur (ParkCancel b r) w = block_rest cfg spur b (Ok r, w)"
| "rest cfg spur (UnlockReadLoad i) w =
     finish (\<lambda>_. ResUnit) (unlock_read_with_current cfg spur i w w)"
| "rest cfg spur (UnlockReadCurrent i current) w =
     finish (\<lambda>_. ResUnit) (unlock_read_with_current cfg spur i current w)"
| "rest cfg spur (UnlockWriteSwap i) w =
     swap_rest cfg i w ResUnit (occupied_unlocked_bits i)"
| "rest cfg spur OccupyFetchOr w = finish ResId (occupy cfg w)"
| "rest cfg spur (RemoveLockedSwap i next_id) w =
     swap_rest cfg i w (ResReuse (next_id \<noteq> RESERVED_ID)) (unoccupied_bits next_id)"
| "rest cfg spur (Unpark r) w = Value (r, w)"
| "rest cfg spur (Finished r) w = Value (r, w)"
| "rest cfg spur (Failed f) w = Fault f"

section \<open>Running alone\<close>

text \<open>
  \<open>solo n\<close> is a run of one thread with \<open>n\<close> spurious failures of the weak exchange. Nobody wakes
  the thread once it is asleep, but its deadline may pass.
\<close>

inductive solo ::
  "build \<Rightarrow> 'q parker \<Rightarrow> nat \<Rightarrow> nat \<Rightarrow> pc \<times> u64 \<times> 'q \<Rightarrow> pc \<times> u64 \<times> 'q \<Rightarrow> bool"
  for cfg :: build and P :: "'q parker" and tid :: nat where
  stop: "solo cfg P tid 0 s s"
| go: "hstep cfg P tid Go p wq = Some s' \<Longrightarrow> (\<forall>b. p \<noteq> ParkAsleep b) \<Longrightarrow> solo cfg P tid n s' s'' \<Longrightarrow>
    solo cfg P tid n (p, wq) s''"
| spurious: "hstep cfg P tid Spurious p wq = Some s' \<Longrightarrow> hstep cfg P tid Go p wq \<noteq> Some s' \<Longrightarrow>
    (\<forall>b. p \<noteq> ParkAsleep b) \<Longrightarrow> solo cfg P tid n s' s'' \<Longrightarrow> solo cfg P tid (Suc n) (p, wq) s''"
| expire: "hstep cfg P tid Expire (ParkAsleep b) wq = Some s' \<Longrightarrow>
    deadline_of (blocker_timeout b) = Ok (Some d) \<Longrightarrow> solo cfg P tid n s' s'' \<Longrightarrow>
    solo cfg P tid n (ParkAsleep b, wq) s''"

lemma finish_transition_result [simp]:
  "finish (transition_result (CallLockWrite i)) m = finish (ResWrite i) m"
  "finish (transition_result (CallRemove next_id)) m =
     finish ResRemove (obind m (\<lambda>(matched, w'). case matched of
       Err e \<Rightarrow> Value (Err e, w')
     | Ok True \<Rightarrow> Value (Ok (RemoveMatched (next_id \<noteq> RESERVED_ID)), w')
     | Ok False \<Rightarrow> Value (Ok DidntMatch, w')))"
  subgoal by (cases m) auto
  subgoal by (cases m) (auto split: result.split bool.split)
  done

lemma never_Hang [simp]:
  "checked_add cfg a b \<noteq> Hang" "checked_sub cfg a b \<noteq> Hang"
  "has_thread_blocking cfg w \<noteq> Hang" "mark_thread_blocking cfg w \<noteq> Hang"
  "increment_readers cfg w \<noteq> Hang"
  by (simp_all add: checked_add_def checked_sub_def has_thread_blocking_def mark_thread_blocking_def
      increment_readers_def debug_assert_def)

lemma obind_debug_assert [simp]:
  "obind (debug_assert cfg c m) k = debug_assert cfg c (obind m k)"
  by (simp add: debug_assert_def)

lemma debug_assert_Hang_iff [simp]:
  "debug_assert cfg c k = Hang \<longleftrightarrow> (debug_assertions cfg \<longrightarrow> c) \<and> k = Hang"
  by (simp add: debug_assert_def)

lemma obind_Hang_iff: "obind m k = Hang \<longleftrightarrow> m = Hang \<or> (\<exists>x. m = Value x \<and> k x = Hang)"
  by (cases m) auto

lemma rest_pc_of: "m \<noteq> Hang \<Longrightarrow> rest cfg spur (pc_of m) w = obind m (\<lambda>p. rest cfg spur p w)"
  by (cases m) auto

lemmas entry_unfold = rest_pc_of obind_Hang_iff obind_assoc finish_obind omap_def swap_rest_def
  lock_read_def unlock_read_def lock_write_def unlock_write_def header_remove_def
  header_remove_locked_def

lemma rest_entry: "rest cfg spur (entry cfg c) w = seq_op cfg spur c w"
proof (cases c)
  case (OpRemoveLocked i)
  then show ?thesis by (simp add: entry_unfold)
qed (simp_all add: entry_unfold)

section \<open>No step changes what the rest is worth\<close>

lemma rest_pc_of_swap_checks [simp]:
  "rest cfg spur (swap_checks cfg i old r) w = swap_rest cfg i old r w"
  by (simp add: swap_checks_def swap_rest_def rest_pc_of omap_def obind_Hang_iff obind_assoc
      if_distrib [of "\<lambda>p. rest cfg spur p w"] cong: if_cong)

lemma block_rest_Err [simp]:
  "block_rest cfg spur (BlockRead i t) (Err e, w) = Value (ResRead i (Err e), w)"
  "block_rest cfg spur (BlockTransition expected new t k) (Err e, w) =
     Value (transition_result k (Err e), w)"
  by (cases e; simp)+

lemma lock_read_rest:
  "lock_read_with_current cfg spur i current t w =
     (if id_from_bits current \<noteq> i then Value (Ok False, w)
      else if is_write_locked current then lock_read_slow cfg spur i t w
      else read_rest cfg spur i current t w)"
  by (subst lock_read_with_current.simps) (simp add: read_rest_def)

lemma lock_read_slow_rest:
  "deadline_of t = Ok d \<Longrightarrow>
    finish (ResRead i) (lock_read_slow cfg spur i t w) = park_rest cfg spur (BlockRead i t) w"
  by (subst lock_read_slow.simps) (auto simp: park_rest_def deadline_in_def read_rest_def finish_obind
      intro!: obind_cong split: result.split response.split)

lemma transition_slow_rest:
  "deadline_of t = Ok d \<Longrightarrow>
    finish (transition_result k) (transition_slow cfg expected new t w) =
      park_rest cfg spur (BlockTransition expected new t k) w"
  by (auto simp: transition_slow_def park_rest_def deadline_in_def finish_obind
      intro!: obind_cong split: result.split response.split)

lemma park_rest_closure:
  "park_rest cfg spur b w =
     (case run_closure (blocker_closure b) w of
        (BlockOn _, _) \<Rightarrow> obind (mark_thread_blocking cfg w) (asleep_rest b)
      | (DontBlockOn r, w') \<Rightarrow> block_rest cfg spur b (Ok r, w'))"
  by (auto simp: park_rest_def header_block_eq asleep_rest_def obind_assoc intro!: obind_cong
      split: prod.split block_choice.split option.split)

definition ends_soon :: "pc \<Rightarrow> bool" where
  "ends_soon p = (case p of Finished _ \<Rightarrow> True | Unpark _ \<Rightarrow> True | _ \<Rightarrow> False)"

lemma read_cas_rest:
  "read_cas cfg Go i current t w = (p', w') \<Longrightarrow>
     spur = 0 \<or> read_cas cfg Spurious i current t w = (p', w') \<Longrightarrow>
     finish (ResRead i) (read_rest cfg spur i current t w) = rest cfg spur p' w'"
  "read_cas cfg Spurious i current t w = (p', w') \<Longrightarrow>
     read_cas cfg Go i current t w \<noteq> (p', w') \<Longrightarrow>
     finish (ResRead i) (read_rest cfg (Suc spur) i current t w) = rest cfg spur p' w'"
  by (auto simp: read_cas_def read_rest_def compare_exchange_def compare_exchange_weak_def
      split: outcome.splits if_splits)

lemma lock_read_slow_Err:
  "deadline_of t = Err e \<Longrightarrow> lock_read_slow cfg spur i t w = Value (Err e, w)"
  by (simp add: lock_read_slow.simps)

lemma transition_slow_Err:
  "deadline_of t = Err e \<Longrightarrow> transition_slow cfg expected new t w = Value (Err e, w)"
  by (simp add: transition_slow_def)

lemma transition_rest:
  "transition cfg 0 w new t w = Some (Value (Ok True, new))"
  "transition cfg (Suc spur) w new t w =
     (if readers_from_bits w > 0 then Some (transition_slow cfg w new t w)
      else transition cfg spur w new t w)"
  "w \<noteq> expected \<Longrightarrow> id_from_bits w \<noteq> id_from_bits expected \<Longrightarrow>
     transition cfg spur expected new t w = Some (Value (Ok False, w))"
  "w \<noteq> expected \<Longrightarrow> id_from_bits w = id_from_bits expected \<Longrightarrow> readers_from_bits w > 0 \<Longrightarrow>
     transition cfg spur expected new t w = Some (transition_slow cfg expected new t w)"
  by (subst transition.simps, simp add: compare_exchange_weak_def)+

lemma unlock_read_rest:
  "unlock_read_with_current cfg spur i current w =
     obind (unlock_read_new cfg i current) (\<lambda>(must_unpark, new).
       case compare_exchange_weak spur w current new of
         (Ok _, w', _) \<Rightarrow> Value (must_unpark, w')
       | (Err actual, w', spur') \<Rightarrow> unlock_read_with_current cfg spur' i actual w')"
  by (subst unlock_read_with_current.simps)
    (simp add: unlock_read_new_def omap_def obind_assoc Let_def cong: if_cong)

lemma go_rest:
  assumes "hstep cfg P tid Go p (w, q) = Some (p', w', q')" and "\<forall>b. p \<noteq> ParkAsleep b"
    and "spur = 0 \<or> hstep cfg P tid Spurious p (w, q) = Some (p', w', q')"
  shows "rest cfg spur p w = rest cfg spur p' w'"
proof (cases p)
  case (LockReadCurrent i current t)
  then show ?thesis using assms read_cas_rest(1) [of cfg i current t w _ _ spur]
    by (auto simp: lock_read_rest split: if_splits prod.splits)
next
  case (LockReadMatched i current t)
  then show ?thesis using assms read_cas_rest(1) [of cfg i current t w _ _ spur]
    by (auto split: if_splits prod.splits)
next
  case (LockReadSlow i t)
  then show ?thesis using assms by (auto simp: lock_read_slow_rest lock_read_slow_Err split: result.splits)
next
  case (TransitionSlow i t)
  then show ?thesis using assms by (auto simp: transition_slow_rest transition_slow_Err split: result.splits)
next
  case (ParkEnter b)
  then show ?thesis using assms by auto
next
  case (ParkMark b e)
  then show ?thesis using assms by (auto simp: compare_exchange_def split: outcome.splits if_splits)
next
  case (ParkClosure b)
  then show ?thesis using assms by (auto simp: park_rest_closure dest: run_closure_BlockOn split: prod.splits block_choice.splits)
next
  case (UnlockReadCurrent i c)
  then show ?thesis using assms
    by (auto simp: unlock_read_rest [of cfg spur] compare_exchange_def compare_exchange_weak_def
        split: outcome.splits if_splits)
next
  case (UnlockWriteSwap i)
  then show ?thesis using assms by auto
next
  case OccupyFetchOr
  then show ?thesis using assms
    by (auto simp: occupy_def rest_pc_of Let_def)
next
  case (Transition expected new t k)
  then show ?thesis using assms
    by (auto simp: transition_rest compare_exchange_def split: if_splits)
next
  case (ParkCancel b r)
  then show ?thesis using assms by (cases b; cases r) auto
qed (use assms in auto)

lemma spurious_rest:
  assumes "hstep cfg P tid Spurious p (w, q) = Some (p', w', q')" and "\<forall>b. p \<noteq> ParkAsleep b"
    and "hstep cfg P tid Go p (w, q) \<noteq> Some (p', w', q')"
  shows "rest cfg (Suc spur) p w = rest cfg spur p' w'"
proof (cases p)
  case (LockReadCurrent i current t)
  then show ?thesis using assms read_cas_rest(2) [of cfg i current t w p' w' spur]
    by (auto simp: lock_read_rest split: if_splits prod.splits)
next
  case (LockReadMatched i current t)
  then show ?thesis using assms read_cas_rest(2) [of cfg i current t w p' w' spur]
    by (auto split: if_splits prod.splits)
next
  case (UnlockReadCurrent i c)
  then show ?thesis using assms
    by (auto simp: unlock_read_rest [of cfg "Suc spur"] compare_exchange_def
        compare_exchange_weak_def split: outcome.splits if_splits)
next
  case (Transition expected new t k)
  then show ?thesis using assms
    by (cases "w = expected") (auto simp: transition_rest compare_exchange_def split: if_splits)
qed (use assms in auto)

lemma go_ends:
  assumes "hstep cfg P tid Go p (w, q) = Some (p', w', q')"
    and "hstep cfg P tid Spurious p (w, q) \<noteq> Some (p', w', q')" and "\<forall>b. p \<noteq> ParkAsleep b"
  shows "ends_soon p'"
  using assms
  by (cases p) (auto simp: ends_soon_def read_cas_def compare_exchange_def
      split: outcome.splits if_splits prod.splits)

lemma ends_soon_solo: "solo cfg P tid n s s' \<Longrightarrow> ends_soon (fst s) \<Longrightarrow> n = 0"
  by (induction rule: solo.induct) (auto simp: ends_soon_def split: pc.splits)

lemma solo_rest:
  "solo cfg P tid n s s' \<Longrightarrow> rest cfg n (fst s) (fst (snd s)) = rest cfg 0 (fst s') (fst (snd s'))"
proof (induction rule: solo.induct)
  case (go p wq s1 n s')
  obtain w q where wq: "wq = (w, q)" by (cases wq)
  obtain p' w' q' where s1: "s1 = (p', w', q')" by (cases s1)
  have "n = 0 \<or> hstep cfg P tid Spurious p (w, q) = Some (p', w', q')"
    using go_ends [of cfg P tid p w q p' w' q'] ends_soon_solo [OF go.hyps(3)] go.hyps
    by (auto simp: wq s1)
  then show ?case using go_rest [of cfg P tid p w q p' w' q' n] go by (simp add: wq s1)
next
  case (spurious p wq s1 n s')
  then show ?case
    using spurious_rest [of cfg P tid p "fst wq" "snd wq" "fst s1" "fst (snd s1)" "snd (snd s1)" n]
    by simp
next
  case (expire b wq s1 d n s')
  then show ?case by (cases wq) (auto simp: asleep_rest_def deadline_in_def)
qed simp

section \<open>The machine alone computes what the functions compute\<close>

fun stands_for :: "pc \<Rightarrow> u64 \<Rightarrow> (op_result \<times> u64) outcome \<Rightarrow> bool" where
  "stands_for (Finished r) w m = (m = Value (r, w))"
| "stands_for (Failed f) w m = (m = Fault f)"
| "stands_for (ParkAsleep b) w m =
     (m = (case deadline_of (blocker_timeout b) of
             Ok (Some _) \<Rightarrow> Value (blocker_timed_out b, w) | _ \<Rightarrow> Hang))"
| "stands_for _ w m = True"

text \<open>
  C21. Equivalence of the two models. When an operation of a header runs with no other thread
  moving, from any word and any state of the parking queue, then what it ends with is what the
  function for one thread returns, given as many spurious failures of the weak exchange as
  happened in the run: the same result and word, the same fault, and a thread that sleeps
  without a deadline exactly where the function hangs.
\<close>

theorem solo_agrees:
  assumes "solo cfg P tid n (entry cfg c, w, q) (p, w', q')"
  shows "stands_for p w' (seq_op cfg n c w)"
  using solo_rest [OF assms]
  by (cases p) (auto simp: rest_entry asleep_rest_def deadline_in_def split: result.split option.split)

text \<open>
  One spurious failure of the exchange of \<open>lock_read\<close>, in the implementation of parking for
  \<open>cfg(loom)\<close>.
\<close>

theorem solo_agrees_witness:
  "stands_for (Finished (ResRead 0 (Ok True))) (pack True 1 0)
     (seq_op debug_build 1 (OpLockRead 0 DontBlock) (pack True 0 0))"
proof (rule solo_agrees)
  let ?q = "loom_park_new" and ?w = "pack True 0 0 :: u64"
  have new: "increment_readers debug_build ?w = Value (pack True 1 0)" "?w \<noteq> pack True 1 0"
    by (simp_all add: bits_simps RESERVED_ID_def)
  have cas: "read_cas debug_build Spurious 0 ?w DontBlock ?w = (LockReadCurrent 0 ?w DontBlock, ?w)"
    "read_cas debug_build Go 0 ?w DontBlock ?w = (Finished (ResRead 0 (Ok True)), pack True 1 0)"
    using new by (simp_all add: read_cas_def compare_exchange_def)
  let ?s = "(LockReadCurrent 0 ?w DontBlock, ?w, ?q)"
  let ?fin = "(Finished (ResRead 0 (Ok True)), pack True 1 0, ?q)"
  have "solo debug_build loom_parker 0 0 ?s ?fin"
    by (rule solo.go [OF _ _ solo.stop]) (simp_all add: bits_simps cas)
  then have "solo debug_build loom_parker 0 (Suc 0) ?s ?fin"
    by (rule solo.spurious [rotated -1]) (simp_all add: bits_simps cas)
  then have "solo debug_build loom_parker 0 (Suc 0) (LockReadLoad 0 DontBlock, ?w, ?q) ?fin"
    by (rule solo.go [rotated -1]) simp_all
  then show "solo debug_build loom_parker 0 1 (entry debug_build (OpLockRead 0 DontBlock), ?w, ?q) ?fin"
    by (simp add: RESERVED_ID_def debug_assert_def)
qed

section \<open>An operation that runs alone ends\<close>

definition ended :: "pc \<Rightarrow> bool" where
  "ended p =
     (case p of Finished _ \<Rightarrow> True | Failed _ \<Rightarrow> True | ParkAsleep _ \<Rightarrow> True | _ \<Rightarrow> False)"

definition ends :: "build \<Rightarrow> 'q parker \<Rightarrow> nat \<Rightarrow> pc \<times> u64 \<times> 'q \<Rightarrow> bool" where
  "ends cfg P tid s \<longleftrightarrow> (\<exists>p w q. solo cfg P tid 0 s (p, w, q) \<and> ended p)"

lemma ended_ends [simp]: "ended p \<Longrightarrow> ends cfg P tid (p, wq)"
  unfolding ends_def by (metis solo.stop surj_pair)

lemma ended_simps [simp]:
  "ended (Finished r)" "ended (Failed f)" "ended (ParkAsleep b)"
  by (simp_all add: ended_def)

lemma not_ended_simps [simp]:
  "\<not> ended (LockReadLoad i t)" "\<not> ended (LockReadCurrent i c t)" "\<not> ended (LockReadSlow i t)"
  "\<not> ended (LockReadMatched i c t)" "\<not> ended (Transition e n t k)"
  "\<not> ended (TransitionSlow e n t k)" "\<not> ended (ParkEnter b)" "\<not> ended (ParkClosure b)"
  "\<not> ended (ParkMark b e)" "\<not> ended (ParkCommit b)" "\<not> ended (ParkCancel b r)"
  "\<not> ended (UnlockReadLoad i)" "\<not> ended (UnlockReadCurrent i c)" "\<not> ended (UnlockWriteSwap i)"
  "\<not> ended OccupyFetchOr" "\<not> ended (RemoveLockedSwap i j)" "\<not> ended (Unpark u)"
  by (simp_all add: ended_def)

lemma ends_step:
  "(case hstep cfg P tid Go p wq of None \<Rightarrow> False | Some s' \<Rightarrow> ends cfg P tid s') \<Longrightarrow> \<not> ended p \<Longrightarrow>
    ends cfg P tid (p, wq)"
  unfolding ends_def by (fastforce simp: ended_def intro: solo.go split: option.splits)

lemma read_cas_ends: "read_cas cfg Go i w t w = (p, w') \<Longrightarrow> ends cfg P tid (p, w', q)"
  by (auto simp: read_cas_def compare_exchange_def split: outcome.splits)

lemma LockReadMatched_ends: "ends cfg P tid (LockReadMatched i w t, w, q)"
  by (rule ends_step) (auto split: prod.split intro: read_cas_ends)

lemma ParkMark_ends: "ends cfg P tid (ParkMark b w, w, q)"
proof (rule ends_step)
  have "ends cfg P tid (ParkCommit b, w', q)" for w'
    by (rule ends_step) simp_all
  then show "case hstep cfg P tid Go (ParkMark b w) (w, q) of None \<Rightarrow> False
      | Some s' \<Rightarrow> ends cfg P tid s'"
    by (auto simp: compare_exchange_def split: outcome.split)
qed simp

lemma ParkCancel_ends:
  assumes "run_closure (blocker_closure b) w = (DontBlockOn r, w')"
  shows "ends cfg P tid (ParkCancel b r, w', q)"
proof -
  have "ends cfg P tid (after_block b r, w', q')" for q'
    using run_closure_DontBlockOn_Matched [of "blocker_closure b" w _ w'] assms
    by (cases b; cases r) (auto simp: LockReadMatched_ends)
  then show ?thesis by (intro ends_step) simp_all
qed

context parking
begin

lemma ParkEnter_ends:
  assumes "pk_holder P q = None"
  shows "ends cfg P tid (ParkEnter b, w, q)"
proof -
  have "ends cfg P tid (ParkClosure b, w, q')" for q'
    by (rule ends_step) (auto split: prod.split block_choice.split
        intro: ParkCancel_ends dest!: run_closure_BlockOn simp: ParkMark_ends)
  then show ?thesis
    using enter_free [OF assms, of tid] by (intro ends_step) auto
qed

lemma Unpark_ends: "pk_holder P q = None \<Longrightarrow> ends cfg P tid (Unpark r, w, q)"
  using unpark_free [of q] by (intro ends_step) auto

lemma Transition_ends:
  assumes "pk_holder P q = None"
    and "id_from_bits w = id_from_bits expected \<longrightarrow> w = expected \<or> readers_from_bits w > 0"
  shows "ends cfg P tid (Transition expected new t k, w, q)"
proof -
  have "ends cfg P tid (TransitionSlow expected new t k, w, q)"
    by (rule ends_step) (auto simp: assms ParkEnter_ends split: result.split)
  then show ?thesis
    using assms by (intro ends_step) (auto simp: compare_exchange_def)
qed

lemma LockReadLoad_ends:
  assumes "pk_holder P q = None"
  shows "ends cfg P tid (LockReadLoad i t, w, q)"
proof -
  have "ends cfg P tid (LockReadSlow i t, w, q)"
    by (rule ends_step) (auto simp: assms ParkEnter_ends split: result.split)
  then have "ends cfg P tid (LockReadCurrent i w t, w, q)"
    by (intro ends_step) (auto split: prod.split intro: read_cas_ends)
  then show ?thesis by (intro ends_step) auto
qed

lemma UnlockReadLoad_ends:
  assumes "pk_holder P q = None"
  shows "ends cfg P tid (UnlockReadLoad i, w, q)"
proof -
  have "unlock_read_new cfg i w \<noteq> Hang"
    by (auto simp: unlock_read_new_def obind_Hang_iff omap_def Let_def decrement_readers_def)
  then have "ends cfg P tid (UnlockReadCurrent i w, w, q)"
    by (intro ends_step) (auto simp: compare_exchange_def assms Unpark_ends split: outcome.split)
  then show ?thesis by (intro ends_step) auto
qed

lemma swap_checks_ends:
  "pk_holder P q = None \<Longrightarrow> ends cfg P tid (swap_checks cfg i old r, w, q)"
  by (simp add: swap_checks_def debug_assert_def has_thread_blocking_def Unpark_ends)

lemma entry_ends:
  assumes "pk_holder P q = None"
    and "\<And>i t. c = OpLockWrite i t \<or> c = OpRemove i t \<Longrightarrow> id_from_bits w = i \<Longrightarrow>
      w = occupied_unlocked_bits i \<or> readers_from_bits w > 0"
  shows "ends cfg P tid (entry cfg c, w, q)"
proof (cases c)
  case (OpLockWrite i t)
  then show ?thesis using assms
    by (auto simp: debug_assert_def bits_pack intro!: Transition_ends)
next
  case (OpRemove i t)
  then show ?thesis using assms
    by (auto simp: debug_assert_def checked_add_def bits_pack intro!: Transition_ends)
next
  case (OpUnlockWrite i)
  then show ?thesis using assms(1) by (auto intro!: ends_step swap_checks_ends)
next
  case (OpRemoveLocked i)
  have "ends cfg P tid (RemoveLockedSwap i j, w, q)" for j
    using assms(1) by (auto intro!: ends_step swap_checks_ends)
  then show ?thesis using OpRemoveLocked by (simp add: checked_add_def)
next
  case OpOccupy
  then show ?thesis by (auto simp: debug_assert_def intro!: ends_step)
qed (simp_all add: assms(1) debug_assert_def LockReadLoad_ends UnlockReadLoad_ends)

end

text \<open>
  C22. Termination. Nothing inside a header can keep a thread from finishing but another thread:
  running alone with the parking queue free, every operation ends, with a result, a fault, or
  asleep. A write lock and a removal whose ID matches need the header to be occupied; an
  unoccupied header of that ID would keep \<open>transition\<close> in its retry loop.
\<close>

theorem solo_ends:
  assumes "parking P" and "pk_holder P q = None"
    and "\<And>i t. c = OpLockWrite i t \<or> c = OpRemove i t \<Longrightarrow> id_from_bits w = i \<Longrightarrow> is_occupied w"
  shows "\<exists>p w' q'. solo cfg P tid 0 (entry cfg c, w, q) (p, w', q') \<and> ended p"
proof -
  have "w = occupied_unlocked_bits (id_from_bits w) \<or> readers_from_bits w > 0" if "is_occupied w"
    using that by (cases w rule: word_cases) (auto simp: bits_pack bits_simps)
  then show ?thesis
    using parking.entry_ends [OF assms(1, 2), of c w cfg tid] assms(3) unfolding ends_def by blast
qed

theorem solo_ends_witness:
  "\<exists>p w' q'. solo debug_build loom_parker 0 0
     (entry debug_build (OpRemove 0 DontBlock), pack True 0 0, loom_park_new) (p, w', q') \<and> ended p"
  by (rule solo_ends [OF loom.parking_axioms]) (auto simp: loom_defs)

end
