(* ===== verification/RwMemory.thy ===== *)
theory RwMemory
  imports RwHeaderSpec
begin

text \<open>
  What blocks are made of: the debug-checked accesses of \<open>src/src/util/debug_check.rs\<close>, store
  identities (\<open>src/src/rwstore_id.rs\<close>), element IDs (\<open>src/src/id.rs\<close>), slots
  (\<open>src/src/block.rs\<close>) and the memory they live in.

  A raw pointer to a slot is an \<open>address\<close>: the number of the allocation it points into and the
  index of the slot there. Memory maps addresses to slots; reading through a pointer that is
  not mapped is undefined behaviour. Slots never move: the source pins its blocks.
\<close>

section \<open>Debug-checked accesses\<close>

text \<open>
  \<open>DebugCheckedMaybeUninit\<close>: \<open>None\<close> is uninitialised memory. With debug assertions the source
  tracks this at run time and panics; without them using it is undefined behaviour.
\<close>

type_synonym 'e maybe_uninit = "'e option"

definition uninit :: "'e maybe_uninit" where
  "uninit = None"

definition init_value :: "'e \<Rightarrow> 'e maybe_uninit" where
  "init_value v = Some v"

definition debug_fault :: "build \<Rightarrow> fault \<Rightarrow> fault" where
  "debug_fault cfg f = (if debug_assertions cfg then f else UndefinedBehaviour)"

definition assume_init :: "build \<Rightarrow> 'e maybe_uninit \<Rightarrow> 'e outcome" where
  "assume_init cfg m =
     (case m of Some v \<Rightarrow> Value v | None \<Rightarrow> Fault (debug_fault cfg UnwrapNone))"

text \<open>Only the debug version looks at the contents; the pointer it returns is that of the slot.\<close>

definition contents_ptr :: "build \<Rightarrow> 'e maybe_uninit \<Rightarrow> 'p \<Rightarrow> 'p outcome" where
  "contents_ptr cfg m p =
     (if debug_assertions cfg \<and> m = None then Fault Unreachable else Value p)"

definition get_debug_checked :: "build \<Rightarrow> nat \<Rightarrow> nat \<Rightarrow> nat outcome" where
  "get_debug_checked cfg len i =
     (if i < len then Value i else Fault (debug_fault cfg IndexOutOfBounds))"

definition unwrap_debug_checked :: "build \<Rightarrow> 'a option \<Rightarrow> 'a outcome" where
  "unwrap_debug_checked cfg m =
     (case m of Some v \<Rightarrow> Value v | None \<Rightarrow> Fault (debug_fault cfg UnwrapNone))"

text \<open>The same for a \<open>Result\<close>.\<close>

definition unwrap_result_debug_checked :: "build \<Rightarrow> ('a, 'err) result \<Rightarrow> 'a outcome" where
  "unwrap_result_debug_checked cfg r =
     (case r of Ok v \<Rightarrow> Value v | Err e \<Rightarrow> Fault (debug_fault cfg UnwrapNone))"

lemma debug_checked_simps [simp, outcome_simps]:
  "assume_init cfg (Some v) = Value v"
  "contents_ptr cfg (Some v) p = Value p"
  "unwrap_debug_checked cfg (Some v) = Value v"
  "unwrap_result_debug_checked cfg (Ok v) = Value v"
  "i < len \<Longrightarrow> get_debug_checked cfg len i = Value i"
  by (simp_all add: assume_init_def contents_ptr_def unwrap_debug_checked_def
    unwrap_result_debug_checked_def get_debug_checked_def)

section \<open>Store identities and element IDs\<close>

text \<open>\<open>RwStoreId\<close> holds a number with debug assertions and nothing without them.\<close>

type_synonym store_id = "u64 option"

definition store_id_generate :: "build \<Rightarrow> u64 \<Rightarrow> store_id \<times> u64" where
  "store_id_generate cfg next_id =
     (if debug_assertions cfg then (Some next_id, next_id + 1) else (None, next_id))"

datatype address = Address (allocation: nat) (slot_index: nat)

record elem_id =
  ordinal :: u32
  slot_address :: address
  id_store :: store_id

definition id_new :: "u32 \<Rightarrow> address \<Rightarrow> store_id \<Rightarrow> elem_id" where
  "id_new n p sid = \<lparr>ordinal = n, slot_address = p, id_store = sid\<rparr>"

lemma id_new_simps [simp]:
  "ordinal (id_new n p sid) = n" "slot_address (id_new n p sid) = p" "id_store (id_new n p sid) = sid"
  by (simp_all add: id_new_def)

section \<open>Slots and memory\<close>

record 'e slot =
  slot_header :: u64
  slot_value :: "'e maybe_uninit"

definition slot_new :: "build \<Rightarrow> 'e slot outcome" where
  "slot_new cfg = omap (\<lambda>w. \<lparr>slot_header = w, slot_value = uninit\<rparr>) (header_new cfg)"

definition fresh_slot :: "'e slot" where
  "fresh_slot = \<lparr>slot_header = unoccupied_bits 0, slot_value = None\<rparr>"

lemma slot_new_eq: "slot_new cfg = Value fresh_slot"
  by (simp add: slot_new_def fresh_slot_def header_new_def uninit_def debug_assert_holds
      unoccupied_bits_def)

record 'e heap =
  cells :: "address \<Rightarrow> 'e slot option"
  allocations :: nat

definition slot_at :: "'e heap \<Rightarrow> address \<Rightarrow> 'e slot outcome" where
  "slot_at h p = (case cells h p of Some s \<Rightarrow> Value s | None \<Rightarrow> Fault UndefinedBehaviour)"

definition set_slot :: "'e heap \<Rightarrow> address \<Rightarrow> 'e slot \<Rightarrow> 'e heap" where
  "set_slot h p s = h\<lparr>cells := (cells h)(p \<mapsto> s)\<rparr>"

lemma slot_at_Some [simp]: "cells h p = Some s \<Longrightarrow> slot_at h p = Value s"
  by (simp add: slot_at_def)

lemma slot_at_Value: "slot_at h p = Value s \<longleftrightarrow> cells h p = Some s"
  by (simp add: slot_at_def split: option.split)

lemma set_slot_simps [simp]:
  "cells (set_slot h p s) = (cells h)(p \<mapsto> s)"
  "allocations (set_slot h p s) = allocations h"
  by (simp_all add: set_slot_def)

text \<open>Reading and writing an element through a pointer that \<open>contents_ptr\<close> returned.\<close>

definition read_element :: "'e heap \<Rightarrow> address \<Rightarrow> 'e outcome" where
  "read_element h p =
     obind (slot_at h p) (\<lambda>s.
       case slot_value s of Some v \<Rightarrow> Value v | None \<Rightarrow> Fault UndefinedBehaviour)"

definition write_element :: "'e heap \<Rightarrow> address \<Rightarrow> 'e \<Rightarrow> 'e heap outcome" where
  "write_element h p v =
     obind (slot_at h p) (\<lambda>s.
       case slot_value s of
         Some _ \<Rightarrow> Value (set_slot h p (s\<lparr>slot_value := Some v\<rparr>))
       | None \<Rightarrow> Fault UndefinedBehaviour)"

text \<open>
  What the element type, the compiler and the allocator decide: the sizes and alignments of
  \<open>BlockHeader\<close> and \<open>Slot\<close>; whether the element type has a destructor (\<open>mem::needs_drop\<close>); at which
  offset an \<open>Option\<close> of the element type stores the element (0 when the type has a niche, otherwise
  behind the discriminant; of an element without size every offset is as good as 0); and whether
  \<open>std::alloc::alloc\<close> returns memory for a given size and alignment.
\<close>

record platform =
  header_size :: u64
  header_align :: u64
  slot_size :: u64
  slot_align :: u64
  element_needs_drop :: bool
  option_offset :: u64
  alloc_succeeds :: "u64 \<Rightarrow> u64 \<Rightarrow> bool"

end
