(* ===== verification/RwBlock.thy ===== *)
theory RwBlock
  imports RwMemory
begin

text \<open>
  Blocks (\<open>src/src/block.rs\<close>): arrays of slots whose length is a power of two, chained from the
  newest to the oldest. The theory holds the operations of \<open>Block\<close>, the layout arithmetic of
  \<open>Block::new\<close>, the permutation \<open>scramble_slot\<close>, and \<open>Drop for Slot\<close>.
\<close>

section \<open>Creating a block\<close>

datatype block =
  Block (block_next: "block option") (block_store: store_id) (block_base: nat) (block_len: u32)

definition is_power_of_two :: "'w::len word \<Rightarrow> bool" where
  "is_power_of_two n \<longleftrightarrow> n \<noteq> 0 \<and> n AND (n - 1) = 0"

definition next_multiple_of :: "build \<Rightarrow> u64 \<Rightarrow> u64 \<Rightarrow> u64 outcome" where
  "next_multiple_of cfg number multiple =
     (if multiple = 0 then Fault DivisionByZero
      else if number mod multiple = 0 then Value number
      else
        let excess = number mod multiple in
        obind (checked_sub cfg multiple excess) (\<lambda>padding. checked_add cfg number padding))"

text \<open>\<open>Layout::from_size_align\<close> of the standard library.\<close>

datatype layout_error = LayoutError

definition layout_from_size_align :: "u64 \<Rightarrow> u64 \<Rightarrow> (u64 \<times> u64, layout_error) result" where
  "layout_from_size_align bytes align =
     (if is_power_of_two align \<and> unat bytes + (unat align - 1) < 2 ^ 63
      then Ok (bytes, align) else Err LayoutError)"

text \<open>The sizes computed at the start of \<open>Block::new\<close>: size and alignment of the block, offset of the slots.\<close>

definition block_layout :: "build \<Rightarrow> platform \<Rightarrow> u32 \<Rightarrow> (u64 \<times> u64 \<times> u64) outcome" where
  "block_layout cfg A len =
     obind (checked_mul cfg (slot_size A) (ucast len)) (\<lambda>slots_size.
     obind (next_multiple_of cfg (header_size A) (slot_align A)) (\<lambda>slots_offset.
     let block_align = max (header_align A) (slot_align A) in
     obind (checked_add cfg slots_offset slots_size) (\<lambda>end_of_slots.
     obind (next_multiple_of cfg end_of_slots block_align) (\<lambda>block_size.
       Value (block_size, block_align, slots_offset)))))"

text \<open>The loop over \<open>0..size\<close> that writes the slots.\<close>

primrec write_slots :: "build \<Rightarrow> platform \<Rightarrow> nat \<Rightarrow> nat list \<Rightarrow> 'e heap \<Rightarrow> 'e heap outcome" where
  "write_slots cfg A n [] h = Value h"
| "write_slots cfg A n (i # is) h =
     obind (checked_mul cfg (slot_size A) (of_nat i)) (\<lambda>_.
       obind (slot_new cfg) (\<lambda>s. write_slots cfg A n is (set_slot h (Address n i) s)))"

definition block_new ::
  "build \<Rightarrow> platform \<Rightarrow> u32 \<Rightarrow> block option \<Rightarrow> store_id \<Rightarrow> 'e heap \<Rightarrow> (block \<times> 'e heap) outcome"
where
  "block_new cfg A len next sid h =
     debug_assert cfg (len \<noteq> 0) (debug_assert cfg (is_power_of_two len)
       (obind (block_layout cfg A len) (\<lambda>(block_size, block_align, slots_offset).
         obind (unwrap_result_debug_checked cfg (layout_from_size_align block_size block_align)) (\<lambda>_.
           if \<not> alloc_succeeds A block_size block_align then Fault UndefinedBehaviour
           else
             let n = allocations h in
             omap (Pair (Block next sid n len))
               (write_slots cfg A n [0..<unat len] (h\<lparr>allocations := n + 1\<rparr>))))))"

section \<open>Finding slots\<close>

definition SCRAMBLE_FACTOR :: u32 where
  "SCRAMBLE_FACTOR = 3"

definition scramble_slot :: "build \<Rightarrow> u32 \<Rightarrow> u32 \<Rightarrow> u32 outcome" where
  "scramble_slot cfg len slot =
     obind (checked_mul cfg (ucast slot :: u64) (ucast SCRAMBLE_FACTOR)) (\<lambda>unbounded.
       obind (checked_sub cfg len 1) (\<lambda>mask. Value (ucast unbounded AND mask)))"

definition block_slot_address :: "build \<Rightarrow> block \<Rightarrow> u32 \<Rightarrow> address outcome" where
  "block_slot_address cfg b slot =
     obind (scramble_slot cfg (block_len b) slot) (\<lambda>i.
       omap (Address (block_base b)) (get_debug_checked cfg (unat (block_len b)) (unat i)))"

section \<open>Operations on the slot of an ID\<close>

definition block_insert ::
  "build \<Rightarrow> address \<Rightarrow> 'e \<Rightarrow> store_id \<Rightarrow> 'e heap \<Rightarrow> (elem_id \<times> 'e heap) outcome" where
  "block_insert cfg p element sid h =
     obind (slot_at h p) (\<lambda>s.
       let s' = s\<lparr>slot_value := init_value element\<rparr> in
       obind (occupy cfg (slot_header s')) (\<lambda>(n, w).
         Value (id_new n p sid, set_slot h p (s'\<lparr>slot_header := w\<rparr>))))"

datatype 'e remove_result = RemoveResult (removed: 'e) (may_reuse: bool)

definition block_remove ::
  "build \<Rightarrow> nat \<Rightarrow> elem_id \<Rightarrow> timeout \<Rightarrow> 'e heap \<Rightarrow>
    ('e remove_result option block_result \<times> 'e heap) outcome" where
  "block_remove cfg spur i t h =
     (let p = slot_address i in
      obind (slot_at h p) (\<lambda>s.
        obind (header_remove cfg spur (ordinal i) t (slot_header s)) (\<lambda>(r, w).
          let h' = set_slot h p (s\<lparr>slot_header := w\<rparr>) in
          case r of
            Err e \<Rightarrow> Value (Err e, h')
          | Ok (RemoveMatched reuse) \<Rightarrow>
              obind (assume_init cfg (slot_value s)) (\<lambda>element.
                Value (Ok (Some (RemoveResult element reuse)), h'))
          | Ok DidntMatch \<Rightarrow> Value (Ok None, h'))))"

definition block_remove_locked ::
  "build \<Rightarrow> elem_id \<Rightarrow> 'e heap \<Rightarrow> ('e remove_result \<times> 'e heap) outcome" where
  "block_remove_locked cfg i h =
     (let p = slot_address i in
      obind (slot_at h p) (\<lambda>s.
        obind (assume_init cfg (slot_value s)) (\<lambda>element.
          obind (header_remove_locked cfg (ordinal i) (slot_header s)) (\<lambda>(reuse, unparked, w).
            Value (RemoveResult element reuse, set_slot h p (s\<lparr>slot_header := w\<rparr>))))))"

definition block_lock_read ::
  "build \<Rightarrow> nat \<Rightarrow> elem_id \<Rightarrow> timeout \<Rightarrow> 'e heap \<Rightarrow> (bool block_result \<times> 'e heap) outcome" where
  "block_lock_read cfg spur i t h =
     (let p = slot_address i in
      obind (slot_at h p) (\<lambda>s.
        obind (lock_read cfg spur (ordinal i) t (slot_header s)) (\<lambda>(r, w).
          Value (r, set_slot h p (s\<lparr>slot_header := w\<rparr>)))))"

definition block_unlock_read :: "build \<Rightarrow> nat \<Rightarrow> elem_id \<Rightarrow> 'e heap \<Rightarrow> 'e heap outcome" where
  "block_unlock_read cfg spur i h =
     (let p = slot_address i in
      obind (slot_at h p) (\<lambda>s.
        obind (unlock_read cfg spur (ordinal i) (slot_header s)) (\<lambda>(unparked, w).
          Value (set_slot h p (s\<lparr>slot_header := w\<rparr>)))))"

definition block_lock_write ::
  "build \<Rightarrow> nat \<Rightarrow> elem_id \<Rightarrow> timeout \<Rightarrow> 'e heap \<Rightarrow> (bool block_result \<times> 'e heap) outcome" where
  "block_lock_write cfg spur i t h =
     (let p = slot_address i in
      obind (slot_at h p) (\<lambda>s.
        obind (lock_write cfg spur (ordinal i) t (slot_header s)) (\<lambda>(r, w).
          Value (r, set_slot h p (s\<lparr>slot_header := w\<rparr>)))))"

definition block_unlock_write :: "build \<Rightarrow> elem_id \<Rightarrow> 'e heap \<Rightarrow> 'e heap outcome" where
  "block_unlock_write cfg i h =
     (let p = slot_address i in
      obind (slot_at h p) (\<lambda>s.
        obind (unlock_write cfg (ordinal i) (slot_header s)) (\<lambda>(unparked, w).
          Value (set_slot h p (s\<lparr>slot_header := w\<rparr>)))))"

definition block_get_unchecked :: "build \<Rightarrow> elem_id \<Rightarrow> 'e heap \<Rightarrow> address outcome" where
  "block_get_unchecked cfg i h =
     obind (slot_at h (slot_address i)) (\<lambda>s. contents_ptr cfg (slot_value s) (slot_address i))"

definition block_get_exclusive :: "build \<Rightarrow> elem_id \<Rightarrow> 'e heap \<Rightarrow> address option outcome" where
  "block_get_exclusive cfg i h =
     obind (slot_at h (slot_address i)) (\<lambda>s.
       if header_id (slot_header s) = ordinal i
       then omap Some (contents_ptr cfg (slot_value s) (slot_address i))
       else Value None)"

section \<open>Operations by slot number, for iteration\<close>

definition block_take ::
  "build \<Rightarrow> block \<Rightarrow> u32 \<Rightarrow> 'e heap \<Rightarrow> ((elem_id \<times> 'e) option \<times> 'e heap) outcome" where
  "block_take cfg b slot h =
     obind (block_slot_address cfg b slot) (\<lambda>p.
       obind (slot_at h p) (\<lambda>s.
         obind (header_reset cfg (slot_header s)) (\<lambda>(r, w).
           let h' = set_slot h p (s\<lparr>slot_header := w\<rparr>) in
           case r of
             Some n \<Rightarrow>
               obind (assume_init cfg (slot_value s)) (\<lambda>element.
                 Value (Some (id_new n p (block_store b), element), h'))
           | None \<Rightarrow> Value (None, h'))))"

definition block_slot_contents ::
  "build \<Rightarrow> block \<Rightarrow> u32 \<Rightarrow> 'e heap \<Rightarrow> (elem_id \<times> address) option outcome" where
  "block_slot_contents cfg b slot h =
     obind (block_slot_address cfg b slot) (\<lambda>p.
       obind (slot_at h p) (\<lambda>s.
         case id_if_occupied (slot_header s) of
           None \<Rightarrow> Value None
         | Some n \<Rightarrow>
             omap (\<lambda>q. Some (id_new n p (block_store b), q)) (contents_ptr cfg (slot_value s) p)))"

section \<open>Dropping\<close>

text \<open>
  Where a \<open>DebugCheckedMaybeUninit\<close> has its element: it is an \<open>Option\<close> with debug assertions and
  a \<open>MaybeUninit\<close>, which has the layout of the element, without them.
\<close>

definition element_offset :: "build \<Rightarrow> platform \<Rightarrow> u64" where
  "element_offset cfg A = (if debug_assertions cfg then option_offset A else 0)"

text \<open>
  \<open>drop_in_place\<close> through a pointer to the offset \<open>off\<close> of a \<open>DebugCheckedMaybeUninit\<close>. The result is
  the list of elements whose destructor has run. A type without a destructor is not looked at; the
  destructor of another type reads an element where the pointer points.
\<close>

definition drop_in_place :: "build \<Rightarrow> platform \<Rightarrow> u64 \<Rightarrow> 'e maybe_uninit \<Rightarrow> 'e list outcome" where
  "drop_in_place cfg A off m =
     (if \<not> element_needs_drop A then Value []
      else if off \<noteq> element_offset cfg A then Fault UndefinedBehaviour
      else case m of Some v \<Rightarrow> Value [v] | None \<Rightarrow> Fault UndefinedBehaviour)"

text \<open>
  \<open>Drop for Slot\<close> casts the pointer to the whole \<open>DebugCheckedMaybeUninit\<close> to a pointer to the
  element: the offset is 0.
\<close>

definition slot_drop :: "build \<Rightarrow> platform \<Rightarrow> bool \<Rightarrow> 'e slot \<Rightarrow> 'e list outcome" where
  "slot_drop cfg A panicking s =
     obind (if needs_drop (slot_header s) then drop_in_place cfg A 0 (slot_value s) else Value [])
       (\<lambda>dropped. omap (\<lambda>_. dropped) (header_drop cfg panicking (slot_header s)))"

primrec drop_slots ::
  "build \<Rightarrow> platform \<Rightarrow> bool \<Rightarrow> address list \<Rightarrow> 'e heap \<Rightarrow> 'e list outcome" where
  "drop_slots cfg A panicking [] h = Value []"
| "drop_slots cfg A panicking (p # ps) h =
     obind (slot_at h p) (\<lambda>s. obind (slot_drop cfg A panicking s) (\<lambda>d.
       omap ((@) d) (drop_slots cfg A panicking ps h)))"

fun block_drop :: "build \<Rightarrow> platform \<Rightarrow> bool \<Rightarrow> block \<Rightarrow> 'e heap \<Rightarrow> 'e list outcome" where
  "block_drop cfg A panicking (Block next sid n len) h =
     obind (case next of None \<Rightarrow> Value [] | Some b \<Rightarrow> block_drop cfg A panicking b h) (\<lambda>d.
       omap ((@) d) (drop_slots cfg A panicking (map (Address n) [0..<unat len]) h))"

section \<open>Powers of two\<close>

lemma unat_exp: "k < LENGTH('w) \<Longrightarrow> unat (2 ^ k :: 'w::len word) = 2 ^ k"
proof -
  assume k: "k < LENGTH('w)"
  have "unat (of_nat (2 ^ k) :: 'w word) = 2 ^ k mod 2 ^ LENGTH('w)" by (rule unat_of_nat)
  also have "\<dots> = 2 ^ k" using k by simp
  finally show ?thesis by simp
qed

lemma is_power_of_two_exp: "k < LENGTH('w) \<Longrightarrow> is_power_of_two (2 ^ k :: 'w::len word)"
proof -
  assume k: "k < LENGTH('w)"
  have "(2 ^ k :: 'w word) AND (2 ^ k - 1) = take_bit k (2 ^ k)"
    by (simp add: take_bit_eq_mask mask_eq_exp_minus_1)
  also have "unat \<dots> = 0"
    using k by (simp only: unsigned_take_bit_eq unat_exp) simp
  then have "take_bit k (2 ^ k :: 'w word) = 0" by (simp add: unat_eq_zero)
  finally have "(2 ^ k :: 'w word) AND (2 ^ k - 1) = 0" .
  moreover have "(2 ^ k :: 'w word) \<noteq> 0"
    using unat_exp [OF k] by (metis power_eq_0_iff unat_0 zero_neq_numeral)
  ultimately show ?thesis by (simp add: is_power_of_two_def)
qed

section \<open>The slot permutation\<close>

lemma scramble_slot_eval:
  assumes "k < 32"
  shows "scramble_slot cfg (2 ^ k) slot = Value (of_nat ((3 * unat slot) mod 2 ^ k))"
proof -
  have slot: "unat slot < 4294967296" by (rule unat_u32_less)
  have up: "unat (ucast slot :: u64) = unat slot"
    using slot by (simp add: unsigned_ucast_eq take_bit_eq_mod)
  have three: "unat (ucast SCRAMBLE_FACTOR :: u64) = 3" by (simp add: SCRAMBLE_FACTOR_def)
  have mul: "checked_mul cfg (ucast slot :: u64) (ucast SCRAMBLE_FACTOR) =
      Value (ucast slot * ucast SCRAMBLE_FACTOR)"
    using slot by (intro checked_mul_ok) (simp add: up three)
  have sub: "checked_sub cfg (2 ^ k :: u32) 1 = Value (2 ^ k - 1)"
    using assms by (intro checked_sub_ok) (simp add: unat_exp)
  let ?u = "ucast (ucast slot * ucast SCRAMBLE_FACTOR :: u64) :: u32"
  have "unat (ucast slot * ucast SCRAMBLE_FACTOR :: u64) = 3 * unat slot"
    using slot unat_mult_lem [of "ucast slot :: u64" "ucast SCRAMBLE_FACTOR"] by (simp add: up three)
  then have "unat ?u = (3 * unat slot) mod 2 ^ 32"
    by (simp add: unsigned_ucast_eq take_bit_eq_mod)
  then have "unat (take_bit k ?u) = (3 * unat slot) mod 2 ^ 32 mod 2 ^ k"
    by (simp only: unsigned_take_bit_eq take_bit_eq_mod [where 'a = nat])
  also have "\<dots> = (3 * unat slot) mod 2 ^ k"
    by (rule mod_mod_cancel) (use assms in \<open>intro le_imp_power_dvd; simp\<close>)
  finally have "take_bit k ?u = of_nat ((3 * unat slot) mod 2 ^ k)"
    by (metis of_nat_unat ucast_id)
  moreover have "?u AND (2 ^ k - 1) = take_bit k ?u"
    by (simp add: take_bit_eq_mask mask_eq_exp_minus_1)
  ultimately show ?thesis using mul sub by (simp add: scramble_slot_def)
qed

lemma triple_mod_inj:
  assumes "a < 2 ^ k" and "b < 2 ^ k" and eq: "(3 * a) mod 2 ^ k = (3 * b) mod (2 ^ k :: nat)"
  shows "a = b"
proof -
  have "int ((3 * a) mod 2 ^ k) = int ((3 * b) mod 2 ^ k)" using eq by simp
  then have dvd: "(2 ^ k :: int) dvd (int a - int b) * 3"
    by (simp add: zmod_int mod_eq_dvd_iff algebra_simps)
  have "coprime (2 ^ k :: int) 3" by (simp add: coprime_power_left_iff)
  with dvd have "(2 ^ k :: int) dvd int a - int b"
    by (simp only: coprime_dvd_mult_left_iff)
  then have "int a - int b = 0 \<or> (2 ^ k :: int) \<le> \<bar>int a - int b\<bar>"
    by (metis dvd_imp_le_int abs_of_nonneg zero_le_numeral zero_le_power)
  moreover have "int a < 2 ^ k" "int b < 2 ^ k" using assms(1,2) by simp_all
  ultimately show "a = b" by linarith
qed

text \<open>The physical index of the logical slot \<open>j\<close> of a block of length \<open>2 ^ k\<close>.\<close>

definition scrambled :: "nat \<Rightarrow> nat \<Rightarrow> nat" where
  "scrambled k j = (3 * j) mod 2 ^ k"

lemma scrambled_less [simp]: "scrambled k j < 2 ^ k"
  by (simp add: scrambled_def)

lemma scrambled_inj: "inj_on (scrambled k) {..<2 ^ k}"
  by (rule inj_onI) (auto simp: scrambled_def intro: triple_mod_inj)

lemma scrambled_image: "scrambled k ` {..<2 ^ k} = {..<2 ^ k}"
  by (rule endo_inj_surj [OF _ _ scrambled_inj]) auto

lemma unat_scrambled: "k < 32 \<Longrightarrow> unat (of_nat (scrambled k j) :: u32) = scrambled k j"
proof -
  assume "k < 32"
  then have le: "(2 ^ k :: nat) \<le> 2 ^ LENGTH(32)" by (intro power_increasing) simp_all
  have "scrambled k j < 2 ^ LENGTH(32)" by (rule less_le_trans [OF scrambled_less le])
  then show ?thesis by (simp only: unat_of_nat mod_less)
qed

lemma block_slot_address_eval:
  assumes "k < 32" and "block_len b = 2 ^ k"
  shows "block_slot_address cfg b slot = Value (Address (block_base b) (scrambled k (unat slot)))"
proof -
  have "scramble_slot cfg (block_len b) slot = Value (of_nat (scrambled k (unat slot)))"
    using assms by (simp add: scramble_slot_eval scrambled_def)
  then show ?thesis
    using assms by (simp add: block_slot_address_def unat_exp unat_scrambled)
qed

text \<open>
  C33. The pseudo-random placement of elements inside a block loses no slot: for every block
  length that \<open>Bucket::expand\<close> can reach (a power of two up to 2^31), \<open>scramble_slot\<close> never
  panics, in any build, and is a permutation of the slot numbers of the block.
\<close>

theorem scramble_slot_permutes:
  assumes "k < 32"
  shows "\<exists>f. (\<forall>slot. scramble_slot cfg (2 ^ k) slot = Value (f slot)) \<and>
    bij_betw f {slot. unat slot < 2 ^ k} {slot. unat slot < 2 ^ k}"
proof (intro exI conjI allI)
  let ?f = "\<lambda>slot :: u32. of_nat (scrambled k (unat slot)) :: u32"
  show "scramble_slot cfg (2 ^ k) slot = Value (?f slot)" for slot
    using assms by (simp add: scramble_slot_eval scrambled_def)
  note small = unat_scrambled [OF assms]
  have inj: "inj_on ?f {slot. unat slot < 2 ^ k}"
  proof (rule inj_onI)
    fix x y :: u32
    assume x: "x \<in> {slot. unat slot < 2 ^ k}" and y: "y \<in> {slot. unat slot < 2 ^ k}"
      and eq: "?f x = ?f y"
    have "unat (?f x) = unat (?f y)" by (rule arg_cong [OF eq])
    then have "scrambled k (unat x) = scrambled k (unat y)" by (simp only: small)
    then have "unat x = unat y" by (rule inj_onD [OF scrambled_inj]) (use x y in auto)
    then show "x = y" by (simp only: word_unat_eq_iff)
  qed
  moreover have "?f ` {slot. unat slot < 2 ^ k} \<subseteq> {slot. unat slot < 2 ^ k}"
    by (auto simp: small)
  ultimately show "bij_betw ?f {slot. unat slot < 2 ^ k} {slot. unat slot < 2 ^ k}"
    by (simp add: bij_betw_def endo_inj_surj)
qed

theorem scramble_slot_permutes_witness:
  "\<exists>f. (\<forall>slot. scramble_slot debug_build 8 slot = Value (f slot)) \<and>
    bij_betw f {slot. unat slot < 8} {slot. unat slot < 8}"
  using scramble_slot_permutes [of 3 debug_build] by simp

section \<open>The layout of a block\<close>

lemma next_multiple_of_spec:
  assumes m: "multiple \<noteq> 0" and fits: "unat number + unat multiple < 2 ^ 64"
  obtains r where "next_multiple_of cfg number multiple = Value r"
    and "unat number \<le> unat r" and "unat r < unat number + unat multiple"
    and "unat multiple dvd unat r"
proof -
  let ?n = "unat number" and ?m = "unat multiple"
  have pos: "0 < ?m" using m by (simp add: unat_gt_0)
  have e: "unat (number mod multiple) = ?n mod ?m" by (rule unat_mod_distrib)
  show ?thesis
  proof (cases "number mod multiple = 0")
    case True
    then have "?m dvd ?n" using e by (simp add: mod_eq_0_iff_dvd)
    with True m pos that [of number] show ?thesis by (simp add: next_multiple_of_def)
  next
    case False
    let ?p = "multiple - number mod multiple"
    have ex: "0 < ?n mod ?m" using False e by (metis gr0I unat_eq_zero)
    have le: "unat (number mod multiple) \<le> ?m" using e pos by (simp add: less_imp_le)
    then have sub: "checked_sub cfg multiple (number mod multiple) = Value ?p"
      by (rule checked_sub_ok)
    have p: "unat ?p = ?m - ?n mod ?m" using le e by (simp add: unat_sub word_le_nat_alt)
    have lt: "?n mod ?m < ?m" using pos by simp
    have "unat number + unat ?p < 2 ^ LENGTH(64)" using p ex lt fits by simp
    then have add: "checked_add cfg number ?p = Value (number + ?p)"
      and r: "unat (number + ?p) = ?n + (?m - ?n mod ?m)"
      using p unat_add_lem [of number ?p] by (simp_all add: checked_add_ok)
    have "?n + (?m - ?n mod ?m) = ?m * (?n div ?m + 1)"
      using lt mult_div_mod_eq [of ?m ?n] by (simp only: distrib_left mult_1_right)
    then have "?m dvd unat (number + ?p)" by (simp add: r)
    with m False sub add r ex lt that show ?thesis by (simp add: next_multiple_of_def Let_def)
  qed
qed

text \<open>The platform has the memory for a block of \<open>len\<close> slots, and \<open>usize\<close> can count its bytes.\<close>

definition block_align :: "platform \<Rightarrow> u64" where
  "block_align A = max (header_align A) (slot_align A)"

definition block_fits :: "platform \<Rightarrow> nat \<Rightarrow> bool" where
  "block_fits A n \<longleftrightarrow>
     slot_align A \<noteq> 0 \<and> is_power_of_two (block_align A) \<and>
     unat (header_size A) + unat (slot_align A) + unat (slot_size A) * n +
       2 * unat (block_align A) < 2 ^ 63 \<and>
     (\<forall>bytes align. alloc_succeeds A bytes align)"

lemma block_fits_mono: "block_fits A n \<Longrightarrow> m \<le> n \<Longrightarrow> block_fits A m"
  unfolding block_fits_def
  by (meson add_le_mono le_less_trans le_refl mult_le_mono2)

lemma unat_ucast_u64: "unat (ucast (n :: u32) :: u64) = unat n"
  using unat_u32_less [of n] by (simp add: unsigned_ucast_eq take_bit_eq_mod)

lemma block_layout_spec:
  assumes "block_fits A (unat len)"
  obtains bytes off where "block_layout cfg A len = Value (bytes, block_align A, off)"
    and "layout_from_size_align bytes (block_align A) = Ok (bytes, block_align A)"
    and "unat (header_size A) \<le> unat off" and "unat (slot_align A) dvd unat off"
    and "unat off + unat (slot_size A) * unat len \<le> unat bytes"
    and "unat (block_align A) dvd unat bytes"
proof -
  let ?S = "unat (slot_size A) * unat len"
  have sa: "slot_align A \<noteq> 0" and pow: "is_power_of_two (block_align A)"
    and fits: "unat (header_size A) + unat (slot_align A) + ?S + 2 * unat (block_align A) < 2 ^ 63"
    using assms by (simp_all add: block_fits_def)
  have ba: "block_align A \<noteq> 0" using pow by (simp add: is_power_of_two_def)
  have mul: "checked_mul cfg (slot_size A) (ucast len) = Value (slot_size A * ucast len)"
    and size: "unat (slot_size A * ucast len) = ?S"
    using fits unat_mult_lem [of "slot_size A" "ucast len"]
    by (simp_all add: checked_mul_ok unat_ucast_u64)
  have "unat (header_size A) + unat (slot_align A) < 2 ^ 64" using fits by simp
  with sa obtain off where off: "next_multiple_of cfg (header_size A) (slot_align A) = Value off"
      "unat (header_size A) \<le> unat off" "unat off < unat (header_size A) + unat (slot_align A)"
      "unat (slot_align A) dvd unat off"
    by (rule next_multiple_of_spec)
  let ?e = "off + slot_size A * ucast len"
  have "unat off + ?S < 2 ^ LENGTH(64)" using off fits by simp
  then have add: "checked_add cfg off (slot_size A * ucast len) = Value ?e"
    and e: "unat ?e = unat off + ?S"
    using unat_add_lem [of off "slot_size A * ucast len"] by (simp_all add: checked_add_ok size)
  have "unat ?e + unat (block_align A) < 2 ^ 64" using e off fits by simp
  with ba obtain bytes where bytes: "next_multiple_of cfg ?e (block_align A) = Value bytes"
      "unat ?e \<le> unat bytes" "unat bytes < unat ?e + unat (block_align A)"
      "unat (block_align A) dvd unat bytes"
    by (rule next_multiple_of_spec)
  have "block_layout cfg A len = Value (bytes, block_align A, off)"
    using mul off(1) add bytes(1) by (simp add: block_layout_def block_align_def Let_def)
  moreover have "layout_from_size_align bytes (block_align A) = Ok (bytes, block_align A)"
    using pow bytes(3) e off fits by (simp add: layout_from_size_align_def)
  ultimately show ?thesis using off bytes e that by simp
qed

text \<open>
  C34. \<open>Block::new\<close> lays a block out correctly: as long as the block's bytes can be counted in
  half the address space, no build panics or overflows while computing the layout, the layout is
  accepted, and the slots it then writes lie behind the header and inside the allocation, each
  at a multiple of the slot alignment, without overlapping.
\<close>

theorem block_layout_sound:
  assumes "block_fits A (unat len)" and "unat (slot_align A) dvd unat (slot_size A)"
  shows "\<exists>bytes align off. block_layout cfg A len = Value (bytes, align, off) \<and>
    layout_from_size_align bytes align = Ok (bytes, align) \<and>
    unat (header_size A) \<le> unat off \<and> unat align dvd unat bytes \<and>
    (\<forall>i<unat len. unat off + unat (slot_size A) * i + unat (slot_size A) \<le> unat bytes \<and>
      unat (slot_align A) dvd unat off + unat (slot_size A) * i \<and>
      (\<forall>j<i. unat off + unat (slot_size A) * j + unat (slot_size A) \<le>
        unat off + unat (slot_size A) * i))"
proof -
  from assms(1) obtain bytes off where *: "block_layout cfg A len = Value (bytes, block_align A, off)"
      "layout_from_size_align bytes (block_align A) = Ok (bytes, block_align A)"
      "unat (header_size A) \<le> unat off" "unat (slot_align A) dvd unat off"
      "unat off + unat (slot_size A) * unat len \<le> unat bytes"
      "unat (block_align A) dvd unat bytes"
    by (rule block_layout_spec)
  have step: "unat (slot_size A) * j + unat (slot_size A) \<le> unat (slot_size A) * i" if "j < i" for i j
    using mult_le_mono2 [of "Suc j" i "unat (slot_size A)"] that by simp
  have bounds: "unat off + unat (slot_size A) * i + unat (slot_size A) \<le> unat bytes"
    if "i < unat len" for i
    using step [OF that] *(5) by simp
  have aligned: "unat (slot_align A) dvd unat off + unat (slot_size A) * i" for i
    using *(4) assms(2) by simp
  have disjoint: "unat off + unat (slot_size A) * j + unat (slot_size A) \<le>
      unat off + unat (slot_size A) * i" if "j < i" for i j
    using step [OF that] by simp
  show ?thesis
    by (rule exI [of _ bytes], rule exI [of _ "block_align A"], rule exI [of _ off],
        intro conjI allI impI)
      (rule *(1,2,3,6) bounds aligned disjoint | assumption)+
qed

definition small_platform :: platform where
  "small_platform = \<lparr>header_size = 16, header_align = 8, slot_size = 16, slot_align = 8,
     element_needs_drop = True, option_offset = 0, alloc_succeeds = (\<lambda>_ _. True)\<rparr>"

lemma small_platform_fits: "n \<le> 2 ^ 32 \<Longrightarrow> block_fits small_platform n"
proof -
  have "is_power_of_two (block_align small_platform)"
    using is_power_of_two_exp [of 3, where 'w = 64] by (simp add: block_align_def small_platform_def)
  then show "n \<le> 2 ^ 32 \<Longrightarrow> block_fits small_platform n"
    by (simp add: block_fits_def) (simp add: block_align_def small_platform_def)
qed

theorem block_layout_sound_witness:
  "\<exists>bytes align off. block_layout debug_build small_platform 4 = Value (bytes, align, off) \<and>
    layout_from_size_align bytes align = Ok (bytes, align) \<and> 16 \<le> unat off"
proof -
  have "unat (slot_align small_platform) dvd unat (slot_size small_platform)"
    by (simp add: small_platform_def)
  with block_layout_sound [of small_platform 4 debug_build] small_platform_fits [of 4]
  show ?thesis by (auto simp: small_platform_def)
qed

section \<open>A new block\<close>

lemma write_slots_spec:
  assumes "\<And>i. i \<in> set is \<Longrightarrow> unat (slot_size A) * i < 2 ^ 64" and "\<And>i. i \<in> set is \<Longrightarrow> i < 2 ^ 64"
  shows "\<exists>h'. write_slots cfg A n is h = Value h' \<and> allocations h' = allocations h \<and>
    cells h' = (\<lambda>p. if p \<in> Address n ` set is then Some fresh_slot else cells h p)"
  using assms
proof (induction "is" arbitrary: h)
  case (Cons i "is")
  have "unat (of_nat i :: u64) = i" using Cons.prems(2) [of i] by (simp add: unat_of_nat)
  then have "checked_mul cfg (slot_size A) (of_nat i) = Value (slot_size A * of_nat i)"
    using Cons.prems(1) [of i] by (intro checked_mul_ok) simp
  moreover have "\<exists>h'. write_slots cfg A n is (set_slot h (Address n i) fresh_slot) = Value h' \<and>
      allocations h' = allocations h \<and>
      cells h' = (\<lambda>p. if p \<in> Address n ` set is then Some fresh_slot
        else cells (set_slot h (Address n i) fresh_slot) p)"
    using Cons.IH [of "set_slot h (Address n i) fresh_slot"] Cons.prems by simp
  ultimately show ?case by (auto simp: slot_new_eq fun_eq_iff)
qed auto

lemma block_new_spec:
  assumes "k < 32" and "block_fits A (2 ^ k)"
  obtains h' where "block_new cfg A (2 ^ k) next sid h =
      Value (Block next sid (allocations h) (2 ^ k), h')"
    and "allocations h' = Suc (allocations h)"
    and "cells h' = (\<lambda>p. if p \<in> Address (allocations h) ` {..<2 ^ k} then Some fresh_slot
      else cells h p)"
proof -
  have len: "unat (2 ^ k :: u32) = 2 ^ k" using assms(1) by (simp add: unat_exp)
  then have "block_fits A (unat (2 ^ k :: u32))" using assms(2) by simp
  then obtain bytes off where lay: "block_layout cfg A (2 ^ k) = Value (bytes, block_align A, off)"
      "layout_from_size_align bytes (block_align A) = Ok (bytes, block_align A)"
    by (rule block_layout_spec)
  have bound: "unat (slot_size A) * i < 2 ^ 64" if "i < 2 ^ k" for i
  proof -
    have "unat (slot_size A) * i \<le> unat (slot_size A) * 2 ^ k"
      using that by (intro mult_le_mono2) simp
    moreover have "unat (slot_size A) * 2 ^ k < 2 ^ 63" using assms(2) by (simp add: block_fits_def)
    ultimately have "unat (slot_size A) * i < 2 ^ 63" by (rule le_less_trans)
    also have "(2 ^ 63 :: nat) < 2 ^ 64" by simp
    finally show ?thesis .
  qed
  have "(2 ^ k :: nat) \<le> 2 ^ 64" using assms(1) by (intro power_increasing) simp_all
  then have "\<exists>h'. write_slots cfg A (allocations h) [0..<2 ^ k]
        (h\<lparr>allocations := allocations h + 1\<rparr>) = Value h' \<and>
      allocations h' = allocations (h\<lparr>allocations := allocations h + 1\<rparr>) \<and>
      cells h' = (\<lambda>p. if p \<in> Address (allocations h) ` set [0..<2 ^ k] then Some fresh_slot
        else cells (h\<lparr>allocations := allocations h + 1\<rparr>) p)"
    using bound by (intro write_slots_spec) auto
  then obtain h' where "write_slots cfg A (allocations h) [0..<2 ^ k]
        (h\<lparr>allocations := allocations h + 1\<rparr>) = Value h'" "allocations h' = Suc (allocations h)"
      "cells h' = (\<lambda>p. if p \<in> Address (allocations h) ` {..<2 ^ k} then Some fresh_slot
        else cells h p)"
    by (auto simp: atLeast0LessThan fun_eq_iff)
  moreover have "(2 ^ k :: u32) \<noteq> 0" using len by (metis power_eq_0_iff unat_0 zero_neq_numeral)
  ultimately show ?thesis
    using lay len assms that
    by (simp add: block_new_def is_power_of_two_exp debug_assert_holds block_fits_def)
qed

section \<open>Operations on a slot given by its fields\<close>

named_theorems slot_eval \<open>the block operations on a slot with a packed header\<close>

lemma block_insert_eval [slot_eval]:
  assumes "cells h p = Some s" and "slot_header s = pack False 0 i" and "i \<noteq> RESERVED_ID"
  shows "block_insert cfg p e sid h =
    Value (id_new i p sid, set_slot h p \<lparr>slot_header = pack True 0 i, slot_value = Some e\<rparr>)"
  using assms by (cases s) (simp add: block_insert_def occupy_eval init_value_def Let_def)

lemma block_remove_eval [slot_eval]:
  assumes "cells h (slot_address i) = Some s" and "slot_header s = pack n r j"
    and "slot_value s = Some e" and "ordinal i \<noteq> RESERVED_ID" and "r < 2147483648"
    and "j = ordinal i \<longrightarrow> n \<or> 0 < r"
  shows "block_remove cfg spur i t h =
    (if j \<noteq> ordinal i then Value (Ok None, h)
     else if r = 0 then
       Value (Ok (Some (RemoveResult e (j + 1 \<noteq> RESERVED_ID))),
         set_slot h (slot_address i) (s\<lparr>slot_header := pack False 0 (j + 1)\<rparr>))
     else case t of DontBlock \<Rightarrow> Value (Err TimedOut, h)
       | BlockUntil d \<Rightarrow> Value (Err TimedOut,
           set_slot h (slot_address i) (s\<lparr>slot_header := pack False r j\<rparr>))
       | BlockIndefinitely \<Rightarrow> Hang)"
proof -
  have "s\<lparr>slot_header := pack n r j\<rparr> = s" using assms(2) by (cases s) simp
  then have "set_slot h (slot_address i) (s\<lparr>slot_header := pack n r j\<rparr>) = h"
    using assms(1) by (cases h) (simp add: set_slot_def fun_upd_idem)
  then show ?thesis
    using assms by (auto simp: block_remove_def header_remove_eval Let_def split: timeout.split)
qed

section \<open>When dropping is defined\<close>

text \<open>
  The cast in \<open>Drop for Slot\<close> is harmless if the element type has no destructor or the element is
  at the start of its \<open>DebugCheckedMaybeUninit\<close>; \<open>destroyed\<close> are the elements whose destructor runs
  when some are dropped.
\<close>

definition drop_defined :: "build \<Rightarrow> platform \<Rightarrow> bool" where
  "drop_defined cfg A \<longleftrightarrow> (element_needs_drop A \<longrightarrow> element_offset cfg A = 0)"

definition destroyed :: "platform \<Rightarrow> 'e list \<Rightarrow> 'e list" where
  "destroyed A xs = (if element_needs_drop A then xs else [])"

lemma drop_definedI:
  "\<not> element_needs_drop A \<Longrightarrow> drop_defined cfg A" "option_offset A = 0 \<Longrightarrow> drop_defined cfg A"
  "\<not> debug_assertions cfg \<Longrightarrow> drop_defined cfg A"
  by (simp_all add: drop_defined_def element_offset_def)

lemma destroyed_simps [simp]: "destroyed A [] = []" "destroyed A (xs @ ys) = destroyed A xs @ destroyed A ys"
  by (simp_all add: destroyed_def)

lemma slot_drop_unlocked:
  assumes "n \<longrightarrow> m \<noteq> None"
  shows "slot_drop cfg A panicking \<lparr>slot_header = pack n 0 i, slot_value = m\<rparr> =
    (if \<not> n then Value [] else if drop_defined cfg A then Value (destroyed A [the m])
     else Fault UndefinedBehaviour)"
  using assms
  by (auto simp: slot_drop_def drop_in_place_def needs_drop_def bits_pack header_drop_eval drop_defined_def
      destroyed_def)

text \<open>An element type without a destructor, such as an integer.\<close>

definition plain_platform :: platform where
  "plain_platform = small_platform\<lparr>element_needs_drop := False\<rparr>"

lemma plain_platform_fits: "n \<le> 2 ^ 32 \<Longrightarrow> block_fits plain_platform n"
  using small_platform_fits [of n] by (simp add: plain_platform_def block_fits_def block_align_def)

end
