(* ===== verification/RwBucket.thy ===== *)
theory RwBucket
  imports RwBlock
begin

text \<open>
  Buckets (\<open>src/src/bucket.rs\<close>): a chain of blocks of lengths 1, 2, 4, ... with the newest at
  the head, and the number of the next slot of the head block that was never handed out. The
  bucket's own read-write lock makes \<open>next_insert_location_slow\<close> and the others single steps;
  several threads may run the fast path under a read lock, where the only shared access is one
  atomic \<open>fetch_add\<close>.
\<close>

section \<open>The bucket\<close>

definition INITIAL_BLOCK_SIZE :: u32 where
  "INITIAL_BLOCK_SIZE = 1"

definition RESIZE_FACTOR :: u32 where
  "RESIZE_FACTOR = 2"

record bucket =
  head :: "block option"
  next_unused_slot :: u32
  bucket_store :: store_id

definition bucket_new :: "store_id \<Rightarrow> bucket" where
  "bucket_new sid = \<lparr>head = None, next_unused_slot = 0, bucket_store = sid\<rparr>"

definition head_len :: "bucket \<Rightarrow> u32" where
  "head_len b = (case head b of None \<Rightarrow> 0 | Some blk \<Rightarrow> block_len blk)"

text \<open>\<open>BucketInner::next_insert_location\<close>; \<open>fetch_add\<close> wraps.\<close>

definition inner_next_insert_location ::
  "build \<Rightarrow> bucket \<Rightarrow> (address option \<times> bucket) outcome" where
  "inner_next_insert_location cfg b =
     (case head b of
        None \<Rightarrow> Value (None, b)
      | Some blk \<Rightarrow>
          let (slot, next_slot) = fetch_add 1 (next_unused_slot b);
              b' = b\<lparr>next_unused_slot := next_slot\<rparr> in
          if slot < block_len blk
          then omap (\<lambda>p. (Some p, b')) (block_slot_address cfg blk slot)
          else Value (None, b'))"

definition bucket_expand ::
  "build \<Rightarrow> platform \<Rightarrow> bucket \<Rightarrow> 'e heap \<Rightarrow> (bucket \<times> 'e heap) outcome" where
  "bucket_expand cfg A b h =
     obind (case head b of
              Some blk \<Rightarrow> checked_mul cfg (block_len blk) RESIZE_FACTOR
            | None \<Rightarrow> Value INITIAL_BLOCK_SIZE)
       (\<lambda>block_size.
         obind (block_new cfg A block_size (head b) (bucket_store b) h) (\<lambda>(new_head, h').
           Value (b\<lparr>head := Some new_head, next_unused_slot := store_directly 0 (next_unused_slot b)\<rparr>, h')))"

definition next_insert_location_slow ::
  "build \<Rightarrow> platform \<Rightarrow> bucket \<Rightarrow> 'e heap \<Rightarrow> (address \<times> bucket \<times> 'e heap) outcome" where
  "next_insert_location_slow cfg A b h =
     obind (inner_next_insert_location cfg b) (\<lambda>(location, b1).
       case location of
         Some p \<Rightarrow> Value (p, b1, h)
       | None \<Rightarrow>
           obind (bucket_expand cfg A b1 h) (\<lambda>(b2, h2).
             obind (inner_next_insert_location cfg b2) (\<lambda>(location, b3).
               omap (\<lambda>p. (p, b3, h2)) (option_unwrap location))))"

definition next_insert_location ::
  "build \<Rightarrow> platform \<Rightarrow> bucket \<Rightarrow> 'e heap \<Rightarrow> (address \<times> bucket \<times> 'e heap) outcome" where
  "next_insert_location cfg A b h =
     obind (inner_next_insert_location cfg b) (\<lambda>(location, b1).
       case location of
         Some p \<Rightarrow> Value (p, b1, h)
       | None \<Rightarrow> next_insert_location_slow cfg A b1 h)"

text \<open>The loop of \<open>head_size_to_total_size\<close>; \<open>None\<close> stands for not returning.\<close>

partial_function (option) total_size_loop ::
  "build \<Rightarrow> u32 \<Rightarrow> u32 \<Rightarrow> u32 \<Rightarrow> u32 outcome option" where
  "total_size_loop cfg head_size total_size considered =
     (if considered \<le> head_size then
        (case checked_add cfg total_size considered of
           Value total' \<Rightarrow>
             (case checked_mul cfg considered RESIZE_FACTOR of
                Value considered' \<Rightarrow> total_size_loop cfg head_size total' considered'
              | r \<Rightarrow> Some r)
         | r \<Rightarrow> Some r)
      else Some (Value total_size))"

definition head_size_to_total_size :: "build \<Rightarrow> u32 \<Rightarrow> u32 outcome" where
  "head_size_to_total_size cfg head_size =
     returns (total_size_loop cfg head_size 0 INITIAL_BLOCK_SIZE)"

text \<open>The result is the touched and the allocated capacity.\<close>

definition bucket_capacity :: "build \<Rightarrow> bucket \<Rightarrow> (u32 \<times> u32) outcome" where
  "bucket_capacity cfg b =
     (let head_size = head_len b; used = load (next_unused_slot b) in
      obind (head_size_to_total_size cfg head_size) (\<lambda>allocated.
      obind (head_size_to_total_size cfg head_size) (\<lambda>total_size.
      obind (checked_sub cfg head_size used) (\<lambda>unused.
      obind (checked_sub cfg total_size unused) (\<lambda>touched.
        Value (touched, allocated))))))"

section \<open>The total size of a chain\<close>

lemma total_size_loop_run:
  assumes "j \<le> Suc k" and "k < 31"
  shows "total_size_loop cfg (2 ^ k) (2 ^ j - 1) (2 ^ j) = Some (Value (2 ^ Suc k - 1))"
  using assms(1)
proof (induction rule: inc_induct)
  case base
  have "unat (2 ^ k :: u32) < unat (2 ^ Suc k :: u32)"
    using assms(2) by (simp only: unat_exp len_num0 len_num1 len_bit0 len_bit1) (simp add: unat_exp)
  then have "\<not> (2 ^ Suc k :: u32) \<le> 2 ^ k" by (simp only: word_le_nat_alt not_le)
  then show ?case by (subst total_size_loop.simps) simp
next
  case (step n)
  have n: "n < 31" "unat (2 ^ n :: u32) = 2 ^ n" "unat (2 ^ k :: u32) = 2 ^ k" "n \<le> k"
    using step assms(2) by (simp_all add: unat_exp)
  have le: "(2 ^ n :: u32) \<le> 2 ^ k" using n by (simp add: word_le_nat_alt)
  have one: "unat (2 ^ n - 1 :: u32) = 2 ^ n - 1"
    using n(2) by (simp add: unat_sub word_le_nat_alt)
  have small: "(2 ^ n :: nat) \<le> 2 ^ 30" using n by (intro power_increasing) auto
  have "checked_add cfg (2 ^ n - 1) (2 ^ n :: u32) = Value (2 ^ n - 1 + 2 ^ n)"
    using small by (intro checked_add_ok) (simp add: one n)
  moreover have "checked_mul cfg (2 ^ n :: u32) RESIZE_FACTOR = Value (2 ^ Suc n)"
    using small by (subst checked_mul_ok) (simp_all add: n RESIZE_FACTOR_def)
  moreover have "(2 ^ n - 1 + 2 ^ n :: u32) = 2 ^ Suc n - 1" by simp
  ultimately show ?case
    using step.IH le by (subst total_size_loop.simps) simp
qed

lemma total_size_loop_zero: "total_size_loop cfg head_size total_size 0 = None"
proof -
  have "considered \<noteq> 0" if "total_size_loop cfg hs t considered = Some r" for hs t considered r
  proof (rule total_size_loop.raw_induct [OF _ that], goal_cases)
    case (1 loop cfg hs t considered r)
    show ?case
    proof
      assume "considered = 0"
      with 1(2) have "loop cfg hs t 0 = Some r"
        using unat_u32_less [of t]
        by (auto simp: checked_add_def checked_mul_def split: if_splits)
      with 1(1) show False by blast
    qed
  qed
  then show ?thesis by (cases "total_size_loop cfg head_size total_size 0") auto
qed

lemma total_size_loop_half:
  assumes "j \<le> 31"
  shows "total_size_loop cfg (2 ^ 31) (2 ^ j - 1) (2 ^ j) =
    total_size_loop cfg (2 ^ 31) (2 ^ 31 - 1) (2 ^ 31)"
  using assms
proof (induction rule: inc_induct)
  case (step n)
  have n: "unat (2 ^ n :: u32) = 2 ^ n" using step by (simp add: unat_exp)
  have small: "(2 ^ n :: nat) \<le> 2 ^ 30" using step by (intro power_increasing) auto
  have "unat (2 ^ 31 :: u32) = 2 ^ 31" by (simp add: unat_exp)
  then have le: "(2 ^ n :: u32) \<le> 2 ^ 31" using n small by (simp add: word_le_nat_alt)
  have one: "unat (2 ^ n - 1 :: u32) = 2 ^ n - 1"
    using n by (simp add: unat_sub word_le_nat_alt)
  have "checked_add cfg (2 ^ n - 1) (2 ^ n :: u32) = Value (2 ^ n - 1 + 2 ^ n)"
    using small by (intro checked_add_ok) (simp add: one n)
  moreover have "checked_mul cfg (2 ^ n :: u32) RESIZE_FACTOR = Value (2 ^ Suc n)"
    using small by (subst checked_mul_ok) (simp_all add: n RESIZE_FACTOR_def)
  moreover have "(2 ^ n - 1 + 2 ^ n :: u32) = 2 ^ Suc n - 1" by simp
  ultimately show ?case
    using step.IH le by (subst total_size_loop.simps) simp
qed simp

lemma head_size_to_total_size_exp:
  assumes "k < 31"
  shows "head_size_to_total_size cfg (2 ^ k) = Value (2 ^ Suc k - 1)"
  using total_size_loop_run [of 0 k cfg] assms
  by (simp add: head_size_to_total_size_def INITIAL_BLOCK_SIZE_def)

lemma head_size_to_total_size_0: "head_size_to_total_size cfg 0 = Value 0"
  by (simp add: head_size_to_total_size_def INITIAL_BLOCK_SIZE_def total_size_loop.simps)

text \<open>
  C31. \<open>head_size_to_total_size\<close>, on which \<open>capacity\<close> and the iterators' \<open>size_hint\<close> rest, sums the
  lengths of a chain: 0 without a block and 2^(k+1) - 1 when the head has 2^k slots, in every
  build, up to k = 30. For the largest block that \<open>expand\<close> can create, 2^31 slots, its loop
  variable overflows: the call panics when overflow is checked, and never returns when it is not.
\<close>

theorem total_size_sums_chain:
  "head_size_to_total_size cfg 0 = Value 0 \<and>
   (k < 31 \<longrightarrow> head_size_to_total_size cfg (2 ^ k) = Value (\<Sum>j\<le>k. 2 ^ j)) \<and>
   head_size_to_total_size cfg (2 ^ 31) =
     (if overflow_checks cfg then Fault ArithmeticOverflow else Hang)"
proof (intro conjI impI)
  show "head_size_to_total_size cfg 0 = Value 0" by (rule head_size_to_total_size_0)
  assume "k < 31"
  then have "head_size_to_total_size cfg (2 ^ k) = Value (2 ^ Suc k - 1)"
    by (rule head_size_to_total_size_exp)
  moreover have "(\<Sum>j\<le>k. 2 ^ j) = (2 ^ Suc k - 1 :: u32)"
    by (induction k) simp_all
  ultimately show "head_size_to_total_size cfg (2 ^ k) = Value (\<Sum>j\<le>k. 2 ^ j)" by simp
next
  have start: "total_size_loop cfg (2 ^ 31) 0 INITIAL_BLOCK_SIZE =
      total_size_loop cfg (2 ^ 31) (2 ^ 31 - 1) (2 ^ 31)"
    using total_size_loop_half [of 0 cfg] by (simp add: INITIAL_BLOCK_SIZE_def)
  have zero: "(4294967296 :: u32) = 0" by (simp add: word_unat_eq_iff)
  have "total_size_loop cfg (2 ^ 31) (2 ^ 31 - 1) (2 ^ 31) =
      (if overflow_checks cfg then Some (Fault ArithmeticOverflow) else None)"
    by (subst total_size_loop.simps)
      (simp add: zero checked_add_def checked_mul_def RESIZE_FACTOR_def total_size_loop_zero)
  with start show "head_size_to_total_size cfg (2 ^ 31) =
      (if overflow_checks cfg then Fault ArithmeticOverflow else Hang)"
    by (simp add: head_size_to_total_size_def)
qed

theorem total_size_sums_chain_witness:
  "head_size_to_total_size debug_build 8 = Value 15"
  using total_size_sums_chain [of debug_build 3] by (simp add: eval_nat_numeral)

section \<open>Well-formed buckets\<close>

text \<open>
  \<open>chain_ok sid k\<close>: a chain of \<open>k\<close> blocks, of lengths 2^(k-1), ..., 2, 1. The slots of a bucket
  are listed in the order the iterators visit them: from the newest block to the oldest, in each
  from the last logical slot to the first.
\<close>

primrec chain_ok :: "store_id \<Rightarrow> nat \<Rightarrow> block option \<Rightarrow> bool" where
  "chain_ok sid 0 blk = (blk = None)"
| "chain_ok sid (Suc k) blk =
     (case blk of None \<Rightarrow> False
      | Some b \<Rightarrow> block_len b = 2 ^ k \<and> block_store b = sid \<and> chain_ok sid k (block_next b))"

definition block_slots :: "block \<Rightarrow> nat list \<Rightarrow> address list" where
  "block_slots b js = map (\<lambda>j. Address (block_base b) ((3 * j) mod unat (block_len b))) js"

fun chain_slots :: "nat \<Rightarrow> block option \<Rightarrow> address list" where
  "chain_slots (Suc k) (Some b) = block_slots b (rev [0..<2 ^ k]) @ chain_slots k (block_next b)"
| "chain_slots _ _ = []"

fun chain_bases :: "nat \<Rightarrow> block option \<Rightarrow> nat list" where
  "chain_bases (Suc k) (Some b) = block_base b # chain_bases k (block_next b)"
| "chain_bases _ _ = []"

fun block_depth :: "block \<Rightarrow> nat" where
  "block_depth (Block next sid n len) = Suc (case next of None \<Rightarrow> 0 | Some b \<Rightarrow> block_depth b)"

definition depth :: "bucket \<Rightarrow> nat" where
  "depth b = (case head b of None \<Rightarrow> 0 | Some blk \<Rightarrow> block_depth blk)"

text \<open>The slots handed out so far, and the rest of the head block.\<close>

definition used :: "bucket \<Rightarrow> nat" where
  "used b = min (unat (next_unused_slot b)) (unat (head_len b))"

definition touched_slots :: "bucket \<Rightarrow> address list" where
  "touched_slots b =
     (case head b of None \<Rightarrow> []
      | Some blk \<Rightarrow> block_slots blk (rev [0..<used b]) @ chain_slots (depth b - 1) (block_next blk))"

definition untouched_slots :: "bucket \<Rightarrow> address list" where
  "untouched_slots b =
     (case head b of None \<Rightarrow> []
      | Some blk \<Rightarrow> block_slots blk (rev [used b..<unat (head_len b)]))"

definition bases :: "bucket \<Rightarrow> nat list" where
  "bases b = chain_bases (depth b) (head b)"

definition bucket_ok :: "store_id \<Rightarrow> bucket \<Rightarrow> bool" where
  "bucket_ok sid b \<longleftrightarrow>
     bucket_store b = sid \<and> depth b \<le> 32 \<and> chain_ok sid (depth b) (head b) \<and>
     distinct (bases b) \<and> (head b = None \<longrightarrow> next_unused_slot b = 0)"

text \<open>No thread is between a failed fast path and the slow path.\<close>

definition settled :: "bucket \<Rightarrow> bool" where
  "settled b \<longleftrightarrow> next_unused_slot b \<le> head_len b"

lemma chain_ok_depth: "chain_ok sid k blk \<Longrightarrow> (case blk of None \<Rightarrow> 0 | Some b \<Rightarrow> block_depth b) = k"
proof (induction k arbitrary: blk)
  case (Suc k)
  then show ?case by (cases blk; cases "the blk") auto
qed simp

lemma chain_ok_None [simp]: "chain_ok sid k None \<longleftrightarrow> k = 0"
  by (cases k) simp_all

lemma chain_slots_base: "p \<in> set (chain_slots k blk) \<Longrightarrow> allocation p \<in> set (chain_bases k blk)"
  by (induction k blk rule: chain_slots.induct) (auto simp: block_slots_def)

lemma block_slots_distinct:
  assumes "block_len b = 2 ^ k" and "k < 32" and "distinct js" and "\<forall>j\<in>set js. j < 2 ^ k"
  shows "distinct (block_slots b js)"
  unfolding block_slots_def distinct_map
proof
  show "inj_on (\<lambda>j. Address (block_base b) (3 * j mod unat (block_len b))) (set js)"
    using assms by (intro inj_onI) (auto simp: unat_exp intro: triple_mod_inj)
qed (fact assms(3))

lemma block_slots_allocation: "p \<in> set (block_slots b js) \<Longrightarrow> allocation p = block_base b"
  by (auto simp: block_slots_def)

lemma chain_slots_distinct:
  "chain_ok sid k blk \<Longrightarrow> k \<le> 32 \<Longrightarrow> distinct (chain_bases k blk) \<Longrightarrow> distinct (chain_slots k blk)"
proof (induction k blk rule: chain_slots.induct)
  case (1 k b)
  have "distinct (block_slots b (rev [0..<2 ^ k]))"
    using 1 by (intro block_slots_distinct [of b k]) auto
  moreover have "p \<notin> set (chain_slots k (block_next b))"
    if "p \<in> set (block_slots b (rev [0..<2 ^ k]))" for p
    using block_slots_allocation [OF that] chain_slots_base [of p k "block_next b"] 1 by auto
  ultimately show ?case using 1 by auto
qed auto

lemma length_chain_slots: "chain_ok sid k blk \<Longrightarrow> length (chain_slots k blk) = 2 ^ k - 1"
  by (induction k blk rule: chain_slots.induct) (auto simp: block_slots_def)

text \<open>The shape of a well-formed bucket: empty, or a head block of length 2^k on a good chain.\<close>

lemma bucket_ok_cases:
  assumes "bucket_ok sid b"
  obtains (empty) "b = bucket_new sid"
  | (blocks) blk k where "head b = Some blk" "depth b = Suc k" "k < 32" "block_len blk = 2 ^ k"
      "block_store blk = sid" "chain_ok sid k (block_next blk)" "head_len b = 2 ^ k"
      "unat (head_len b) = 2 ^ k"
proof (cases "head b")
  case None
  with assms have "b = bucket_new sid" by (simp add: bucket_ok_def bucket_new_def)
  then show ?thesis by (rule that(1))
next
  case (Some blk)
  then obtain k where k: "depth b = Suc k" by (cases blk) (auto simp: depth_def)
  with assms Some have "k < 32" "block_len blk = 2 ^ k" "block_store blk = sid"
    "chain_ok sid k (block_next blk)" by (auto simp: bucket_ok_def)
  with Some k that(2) show ?thesis by (simp add: head_len_def unat_exp)
qed

lemma bucket_new_ok:
  "bucket_ok sid (bucket_new sid)" "settled (bucket_new sid)"
  "touched_slots (bucket_new sid) = []" "untouched_slots (bucket_new sid) = []"
  "bases (bucket_new sid) = []" "depth (bucket_new sid) = 0" "head_len (bucket_new sid) = 0"
  "used (bucket_new sid) = 0"
  by (simp_all add: bucket_ok_def bucket_new_def settled_def touched_slots_def untouched_slots_def
      bases_def depth_def head_len_def used_def)

lemma slots_split:
  assumes "bucket_ok sid b"
  shows "untouched_slots b @ touched_slots b = chain_slots (depth b) (head b)"
  using assms
proof (cases rule: bucket_ok_cases)
  case (blocks blk k)
  have "rev [used b..<2 ^ k] @ rev [0..<used b] = rev [0..<2 ^ k]"
    using blocks upt_add_eq_append [of 0 "used b" "2 ^ k - used b"]
    by (simp add: used_def flip: rev_append)
  then have "block_slots blk (rev [used b..<2 ^ k]) @ block_slots blk (rev [0..<used b]) =
      block_slots blk (rev [0..<2 ^ k])"
    by (metis block_slots_def map_append)
  then show ?thesis using blocks by (simp add: untouched_slots_def touched_slots_def)
qed (simp add: bucket_new_ok)

lemma slots_distinct:
  assumes "bucket_ok sid b"
  shows "distinct (untouched_slots b @ touched_slots b)"
  unfolding slots_split [OF assms]
  by (rule chain_slots_distinct [where sid = sid])
    (use assms in \<open>simp_all add: bucket_ok_def bases_def\<close>)

lemma slots_base:
  assumes "bucket_ok sid b" and "p \<in> set (untouched_slots b) \<union> set (touched_slots b)"
  shows "allocation p \<in> set (bases b)"
  using assms(2) chain_slots_base unfolding bases_def
  by (metis slots_split [OF assms(1)] set_append)

lemma length_slots:
  assumes "bucket_ok sid b"
  shows "length (touched_slots b) = used b + (2 ^ (depth b - 1) - 1)"
    and "length (untouched_slots b @ touched_slots b) = 2 ^ depth b - 1"
proof -
  show "length (untouched_slots b @ touched_slots b) = 2 ^ depth b - 1"
    unfolding slots_split [OF assms] using assms
    by (intro length_chain_slots [where sid = sid]) (simp add: bucket_ok_def)
  from assms show "length (touched_slots b) = used b + (2 ^ (depth b - 1) - 1)"
  proof (cases rule: bucket_ok_cases)
    case (blocks blk k)
    then show ?thesis by (simp add: touched_slots_def block_slots_def length_chain_slots)
  qed (simp add: bucket_new_ok)
qed

section \<open>Handing out slots\<close>

lemma unat_next: "unat (n :: u32) < 4294967295 \<Longrightarrow> unat (n + 1) = Suc (unat n)"
  using unat_Suc_word [of n] by simp

lemma inner_next_hit:
  assumes ok: "bucket_ok sid b" and less: "next_unused_slot b < head_len b"
  obtains p where "inner_next_insert_location cfg b =
      Value (Some p, b\<lparr>next_unused_slot := next_unused_slot b + 1\<rparr>)"
    and "bucket_ok sid (b\<lparr>next_unused_slot := next_unused_slot b + 1\<rparr>)"
    and "settled (b\<lparr>next_unused_slot := next_unused_slot b + 1\<rparr>)"
    and "touched_slots (b\<lparr>next_unused_slot := next_unused_slot b + 1\<rparr>) = p # touched_slots b"
    and "untouched_slots b = untouched_slots (b\<lparr>next_unused_slot := next_unused_slot b + 1\<rparr>) @ [p]"
    and "bases (b\<lparr>next_unused_slot := next_unused_slot b + 1\<rparr>) = bases b"
  using ok
proof (cases rule: bucket_ok_cases)
  case empty
  with less show ?thesis by (simp add: bucket_new_ok)
next
  case (blocks blk k)
  let ?b = "b\<lparr>next_unused_slot := next_unused_slot b + 1\<rparr>" and ?n = "unat (next_unused_slot b)"
  let ?p = "Address (block_base blk) (scrambled k ?n)"
  have n: "?n < 2 ^ k" using less blocks by (simp add: word_less_nat_alt)
  moreover have "(2 ^ k :: nat) \<le> 2 ^ 31" using blocks by (intro power_increasing) simp_all
  ultimately have suc: "unat (next_unused_slot b + 1) = Suc ?n" by (intro unat_next) simp
  have same: "head ?b = head b" "head_len ?b = head_len b" "depth ?b = depth b" "bases ?b = bases b"
    by (simp_all add: head_len_def depth_def bases_def)
  have used: "used b = ?n" "used ?b = Suc ?n"
    using n suc blocks same by (simp_all add: used_def)
  have p: "Address (block_base blk) (3 * ?n mod unat (block_len blk)) = ?p"
    using blocks by (simp add: scrambled_def unat_exp)
  have slot: "block_slots blk [?n] = [?p]" by (simp add: block_slots_def p)
  have "block_slot_address cfg blk (next_unused_slot b) = Value ?p"
    using blocks by (intro block_slot_address_eval) simp_all
  then have "inner_next_insert_location cfg b = Value (Some ?p, ?b)"
    using blocks less by (simp add: inner_next_insert_location_def Let_def)
  moreover have "bucket_ok sid ?b" using ok same blocks by (simp add: bucket_ok_def)
  moreover have "settled ?b"
    using n suc same blocks by (simp add: settled_def word_le_nat_alt)
  moreover have "touched_slots ?b = ?p # touched_slots b"
    using slot blocks same used by (simp add: touched_slots_def block_slots_def)
  moreover have "untouched_slots b = untouched_slots ?b @ [?p]"
    using slot blocks same used n by (simp add: untouched_slots_def block_slots_def upt_conv_Cons)
  ultimately show ?thesis using same(4) that by blast
qed

lemma inner_next_miss:
  assumes ok: "bucket_ok sid b" and full: "\<not> next_unused_slot b < head_len b"
    and bound: "unat (next_unused_slot b) < 4294967295"
  obtains b' where "inner_next_insert_location cfg b = Value (None, b')"
    and "bucket_ok sid b'" and "touched_slots b' = touched_slots b" and "untouched_slots b' = []"
    and "untouched_slots b = []" and "bases b' = bases b" and "head b' = head b"
    and "unat (next_unused_slot b') \<le> Suc (unat (next_unused_slot b))"
    and "\<not> next_unused_slot b' < head_len b'"
  using ok
proof (cases rule: bucket_ok_cases)
  case empty
  then have "inner_next_insert_location cfg b = Value (None, b)"
    by (simp add: inner_next_insert_location_def bucket_new_def)
  with empty full show ?thesis by (intro that [of b]) (simp_all add: bucket_new_ok)
next
  case (blocks blk k)
  let ?b = "b\<lparr>next_unused_slot := next_unused_slot b + 1\<rparr>"
  have suc: "unat (next_unused_slot b + 1) = Suc (unat (next_unused_slot b))"
    using bound by (rule unat_next)
  have le: "2 ^ k \<le> unat (next_unused_slot b)"
    using full blocks by (simp add: word_less_nat_alt not_less)
  have same: "head ?b = head b" "head_len ?b = head_len b" "depth ?b = depth b" "bases ?b = bases b"
    by (simp_all add: head_len_def depth_def bases_def)
  have used: "used b = 2 ^ k" "used ?b = 2 ^ k"
    using le suc blocks same by (simp_all add: used_def)
  have "inner_next_insert_location cfg b = Value (None, ?b)"
    using blocks full by (simp add: inner_next_insert_location_def Let_def)
  moreover have "bucket_ok sid ?b" using ok same blocks by (simp add: bucket_ok_def)
  moreover have "touched_slots ?b = touched_slots b" "untouched_slots ?b = []" "untouched_slots b = []"
    using blocks same used by (simp_all add: touched_slots_def untouched_slots_def block_slots_def)
  moreover have "\<not> next_unused_slot ?b < head_len ?b"
    using le suc same blocks by (simp add: word_less_nat_alt)
  ultimately show ?thesis using same suc by (intro that [of ?b]) simp_all
qed

lemma bucket_expand_spec:
  assumes ok: "bucket_ok sid b" and full: "\<not> next_unused_slot b < head_len b"
    and room: "depth b < 32" "block_fits A (2 ^ depth b)"
    and old: "\<forall>n \<in> set (bases b). n < allocations h"
  obtains b' h' where "bucket_expand cfg A b h = Value (b', h')"
    and "bucket_ok sid b'" and "touched_slots b' = touched_slots b"
    and "bases b' = allocations h # bases b" and "allocations h' = Suc (allocations h)"
    and "next_unused_slot b' = 0" and "0 < head_len b'"
    and "cells h' = (\<lambda>p. if p \<in> set (untouched_slots b') then Some fresh_slot else cells h p)"
    and "\<forall>p \<in> set (untouched_slots b'). allocation p = allocations h"
proof -
  define k where "k = depth b"
  have len: "(case head b of Some blk \<Rightarrow> checked_mul cfg (block_len blk) RESIZE_FACTOR
      | None \<Rightarrow> Value INITIAL_BLOCK_SIZE) = Value (2 ^ k)"
    using ok
  proof (cases rule: bucket_ok_cases)
    case empty
    then show ?thesis
      by (simp add: k_def bucket_new_ok(6)) (simp add: bucket_new_def INITIAL_BLOCK_SIZE_def)
  next
    case (blocks blk j)
    then have "j < 31" using room by simp
    then have "(2 ^ j :: nat) \<le> 2 ^ 30" by (intro power_increasing) simp_all
    with \<open>j < 31\<close> have "checked_mul cfg (2 ^ j) RESIZE_FACTOR = Value (2 ^ j * RESIZE_FACTOR)"
      by (intro checked_mul_ok) (simp add: unat_exp RESIZE_FACTOR_def)
    with blocks show ?thesis by (simp add: k_def RESIZE_FACTOR_def)
  qed
  obtain h' where new: "block_new cfg A (2 ^ k) (head b) (bucket_store b) h =
      Value (Block (head b) (bucket_store b) (allocations h) (2 ^ k), h')"
    and alloc: "allocations h' = Suc (allocations h)"
    and cells: "cells h' = (\<lambda>p. if p \<in> Address (allocations h) ` {..<2 ^ k} then Some fresh_slot
      else cells h p)"
    using room unfolding k_def by (rule block_new_spec)
  let ?blk = "Block (head b) (bucket_store b) (allocations h) (2 ^ k)"
  let ?b = "b\<lparr>head := Some ?blk, next_unused_slot := 0\<rparr>"
  have k: "k < 32" "chain_ok sid k (head b)" "distinct (bases b)" "bucket_store b = sid"
    using ok room by (simp_all add: bucket_ok_def k_def)
  have depth: "depth ?b = Suc k" by (simp add: depth_def k_def)
  have bases: "bases ?b = allocations h # bases b"
    unfolding bases_def depth by (simp add: k_def)
  have hl: "head_len ?b = 2 ^ k" "unat (head_len ?b) = 2 ^ k" "used ?b = 0"
    using k by (simp_all add: head_len_def unat_exp used_def)
  have "0 < unat (head_len ?b)" unfolding hl(2) by simp
  then have pos: "0 < head_len ?b" by (simp add: word_less_nat_alt)
  have "bucket_ok sid ?b"
    using k old by (auto simp: bucket_ok_def depth bases)
  moreover have "touched_slots ?b = touched_slots b"
  proof -
    have "untouched_slots b = []"
      using ok
    proof (cases rule: bucket_ok_cases)
      case (blocks blk j)
      then show ?thesis
        using full by (simp add: untouched_slots_def block_slots_def used_def word_less_nat_alt)
    qed (simp add: bucket_new_ok)
    then have "touched_slots b = chain_slots k (head b)"
      using slots_split [OF ok] by (simp add: k_def)
    then show ?thesis by (simp add: touched_slots_def hl depth block_slots_def)
  qed
  moreover have untouched: "set (untouched_slots ?b) = Address (allocations h) ` {..<2 ^ k}"
  proof -
    have "set (untouched_slots ?b) = (\<lambda>j. Address (allocations h) (scrambled k j)) ` {..<2 ^ k}"
      using k(1) by (simp add: untouched_slots_def hl block_slots_def scrambled_def unat_exp atLeast0LessThan)
    also have "\<dots> = Address (allocations h) ` (scrambled k ` {..<2 ^ k})" by auto
    finally show ?thesis by (simp only: scrambled_image)
  qed
  moreover have "bucket_expand cfg A b h = Value (?b, h')"
    by (simp add: bucket_expand_def len new)
  ultimately show ?thesis
    using bases alloc pos cells by (intro that [of ?b h']) (auto simp: untouched)
qed

text \<open>There is a free slot in the head block, or memory for the next block.\<close>

definition room :: "platform \<Rightarrow> bucket \<Rightarrow> bool" where
  "room A b \<longleftrightarrow>
     next_unused_slot b < head_len b \<or> depth b < 32 \<and> block_fits A (2 ^ depth b)"

definition untouched_fresh :: "'e heap \<Rightarrow> bucket \<Rightarrow> bool" where
  "untouched_fresh h b \<longleftrightarrow> (\<forall>p \<in> set (untouched_slots b). cells h p = Some fresh_slot)"

definition bases_allocated :: "'e heap \<Rightarrow> bucket \<Rightarrow> bool" where
  "bases_allocated h b \<longleftrightarrow> (\<forall>n \<in> set (bases b). n < allocations h)"

text \<open>What handing out one slot \<open>p\<close> does to a bucket and to memory.\<close>

definition hands_out ::
  "store_id \<Rightarrow> address \<Rightarrow> bucket \<Rightarrow> 'e heap \<Rightarrow> bucket \<Rightarrow> 'e heap \<Rightarrow> bool" where
  "hands_out sid p b h b' h' \<longleftrightarrow>
     bucket_ok sid b' \<and> settled b' \<and> touched_slots b' = p # touched_slots b \<and>
     bases_allocated h' b' \<and> allocations h \<le> allocations h' \<and>
     set (bases b') - set (bases b) \<subseteq> {allocations h..} \<and>
     set (untouched_slots b) \<subseteq> insert p (set (untouched_slots b')) \<and>
     untouched_fresh h' b' \<and> cells h' p = Some fresh_slot \<and>
     (\<forall>q. allocation q < allocations h \<longrightarrow> cells h' q = cells h q) \<and>
     dom (cells h') \<union> set (untouched_slots b) \<union> set (touched_slots b) =
       dom (cells h) \<union> set (untouched_slots b') \<union> set (touched_slots b')"

lemma hands_out_hit:
  assumes ok: "bucket_ok sid b" and less: "next_unused_slot b < head_len b"
    and fresh: "untouched_fresh h b" and alloc: "bases_allocated h b"
  obtains p b' where "inner_next_insert_location cfg b = Value (Some p, b')"
    and "hands_out sid p b h b' h" and "untouched_slots b = untouched_slots b' @ [p]"
proof -
  obtain p where *: "inner_next_insert_location cfg b =
      Value (Some p, b\<lparr>next_unused_slot := next_unused_slot b + 1\<rparr>)"
    "bucket_ok sid (b\<lparr>next_unused_slot := next_unused_slot b + 1\<rparr>)"
    "settled (b\<lparr>next_unused_slot := next_unused_slot b + 1\<rparr>)"
    "touched_slots (b\<lparr>next_unused_slot := next_unused_slot b + 1\<rparr>) = p # touched_slots b"
    "untouched_slots b = untouched_slots (b\<lparr>next_unused_slot := next_unused_slot b + 1\<rparr>) @ [p]"
    "bases (b\<lparr>next_unused_slot := next_unused_slot b + 1\<rparr>) = bases b"
    using ok less by (rule inner_next_hit)
  then have "hands_out sid p b h (b\<lparr>next_unused_slot := next_unused_slot b + 1\<rparr>) h"
    using fresh alloc by (auto simp: hands_out_def untouched_fresh_def bases_allocated_def)
  from *(1) this *(5) show ?thesis by (rule that)
qed

lemma next_insert_location_slow_spec:
  assumes ok: "bucket_ok sid b" and room: "room A b" and alloc: "bases_allocated h b"
    and fresh: "untouched_fresh h b" and bound: "unat (next_unused_slot b) < 4294967295"
  obtains p b' h' where "next_insert_location_slow cfg A b h = Value (p, b', h')"
    and "hands_out sid p b h b' h'"
proof (cases "next_unused_slot b < head_len b")
  case True
  with ok obtain p b' where "inner_next_insert_location cfg b = Value (Some p, b')"
      "hands_out sid p b h b' h"
    using fresh alloc by (rule hands_out_hit)
  with that [of p b' h] show ?thesis by (simp add: next_insert_location_slow_def)
next
  case False
  with ok bound obtain b1 where b1: "inner_next_insert_location cfg b = Value (None, b1)"
      "bucket_ok sid b1" "touched_slots b1 = touched_slots b" "untouched_slots b = []"
      "untouched_slots b1 = []" "bases b1 = bases b" "head b1 = head b"
      "\<not> next_unused_slot b1 < head_len b1"
    by (metis inner_next_miss)
  have "depth b1 = depth b" by (simp add: depth_def b1)
  then have "depth b1 < 32" "block_fits A (2 ^ depth b1)" "\<forall>n \<in> set (bases b1). n < allocations h"
    using room False alloc by (simp_all add: room_def bases_allocated_def b1)
  with b1(2,8) obtain b2 h2 where b2: "bucket_expand cfg A b1 h = Value (b2, h2)"
      "bucket_ok sid b2" "touched_slots b2 = touched_slots b1"
      "bases b2 = allocations h # bases b1" "allocations h2 = Suc (allocations h)"
      "next_unused_slot b2 = 0" "0 < head_len b2"
      "cells h2 = (\<lambda>p. if p \<in> set (untouched_slots b2) then Some fresh_slot else cells h p)"
      "\<forall>p \<in> set (untouched_slots b2). allocation p = allocations h"
    by (rule bucket_expand_spec)
  note b2 = b2(1,2) b2(3,4) [unfolded b1] b2(5,8,9) b2(7) [folded b2(6)]
  have "untouched_fresh h2 b2" "bases_allocated h2 b2"
    using alloc by (auto simp: b2 untouched_fresh_def bases_allocated_def less_Suc_eq)
  with b2(2,8) obtain p b3 where b3: "inner_next_insert_location cfg b2 = Value (Some p, b3)"
      and out: "hands_out sid p b2 h2 b3 h2" and split: "untouched_slots b2 = untouched_slots b3 @ [p]"
    by (rule hands_out_hit)
  have "hands_out sid p b h b3 h2"
    unfolding hands_out_def
  proof (intro conjI)
    show "\<forall>q. allocation q < allocations h \<longrightarrow> cells h2 q = cells h q"
      using b2(7) by (auto simp: b2(6))
    show "set (untouched_slots b) \<subseteq> insert p (set (untouched_slots b3))" by (simp add: b1)
    show "set (bases b3) - set (bases b) \<subseteq> {allocations h..}"
      using out by (auto simp: hands_out_def b2)
    have "dom (cells h2) = dom (cells h) \<union> set (untouched_slots b2)"
      by (auto simp: b2(6) split: if_splits)
    moreover have "touched_slots b3 = p # touched_slots b"
      using out by (simp add: hands_out_def b2)
    ultimately show "dom (cells h2) \<union> set (untouched_slots b) \<union> set (touched_slots b) =
        dom (cells h) \<union> set (untouched_slots b3) \<union> set (touched_slots b3)"
      using b1(4) split by auto
  qed (use out in \<open>simp_all add: hands_out_def b2\<close>)
  moreover have "next_insert_location_slow cfg A b h = Value (p, b3, h2)"
    by (simp add: next_insert_location_slow_def b1(1) b2(1) b3 option_unwrap_def)
  ultimately show ?thesis using that by blast
qed

lemma head_len_le:
  assumes "bucket_ok sid b"
  shows "unat (head_len b) \<le> 2147483648"
  using assms
proof (cases rule: bucket_ok_cases)
  case (blocks blk k)
  then have "(2 ^ k :: nat) \<le> 2 ^ 31" by (intro power_increasing) simp_all
  with blocks show ?thesis by simp
qed (simp add: bucket_new_ok)

lemma next_insert_location_spec:
  assumes ok: "bucket_ok sid b" and settled: "settled b" and room: "room A b"
    and alloc: "bases_allocated h b" and fresh: "untouched_fresh h b"
  obtains p b' h' where "next_insert_location cfg A b h = Value (p, b', h')"
    and "hands_out sid p b h b' h'"
proof (cases "next_unused_slot b < head_len b")
  case True
  with ok obtain p b' where "inner_next_insert_location cfg b = Value (Some p, b')"
      "hands_out sid p b h b' h"
    using fresh alloc by (rule hands_out_hit)
  with that [of p b' h] show ?thesis by (simp add: next_insert_location_def)
next
  case False
  have "unat (head_len b) \<le> 2147483648" using ok by (rule head_len_le)
  then have bound: "unat (next_unused_slot b) \<le> 2147483648"
    using settled by (simp add: settled_def word_le_nat_alt)
  then have "unat (next_unused_slot b) < 4294967295" by simp
  with ok False obtain b1 where b1: "inner_next_insert_location cfg b = Value (None, b1)"
      "bucket_ok sid b1" "touched_slots b1 = touched_slots b" "untouched_slots b1 = []"
      "untouched_slots b = []" "bases b1 = bases b" "head b1 = head b"
      "unat (next_unused_slot b1) \<le> Suc (unat (next_unused_slot b))"
      "\<not> next_unused_slot b1 < head_len b1"
    by (rule inner_next_miss)
  have "depth b1 = depth b" by (simp add: depth_def b1)
  then have "room A b1" "bases_allocated h b1" "untouched_fresh h b1"
      "unat (next_unused_slot b1) < 4294967295"
    using room False alloc b1 bound by (simp_all add: room_def bases_allocated_def untouched_fresh_def)
  with b1(2) obtain p b' h' where slow: "next_insert_location_slow cfg A b1 h = Value (p, b', h')"
      and out: "hands_out sid p b1 h b' h'"
    by (rule next_insert_location_slow_spec)
  have "hands_out sid p b h b' h'" using out by (simp add: hands_out_def b1)
  with that show ?thesis by (simp add: next_insert_location_def b1(1) slow)
qed

section \<open>Capacity\<close>

lemma bucket_capacity_spec:
  assumes ok: "bucket_ok sid b" and "settled b" and "depth b < 32"
  obtains touched allocated where "bucket_capacity cfg b = Value (touched, allocated)"
    and "unat touched = length (touched_slots b)"
    and "unat allocated = length (untouched_slots b @ touched_slots b)"
  using ok
proof (cases rule: bucket_ok_cases)
  case empty
  then have "bucket_capacity cfg b = Value (0, 0)"
    by (simp add: bucket_capacity_def bucket_new_ok head_size_to_total_size_0 checked_sub_def)
      (simp add: bucket_new_def)
  with empty show ?thesis by (intro that [of 0 0]) (simp_all add: bucket_new_ok)
next
  case (blocks blk k)
  let ?n = "next_unused_slot b"
  have k: "k < 31" using blocks assms(3) by simp
  then have "unat (2 ^ Suc k :: u32) = 2 ^ Suc k" by (intro unat_exp) simp
  then have total: "unat (2 ^ Suc k - 1 :: u32) = 2 ^ Suc k - 1"
    by (subst unat_sub) (simp_all add: word_le_nat_alt)
  have n: "unat ?n \<le> 2 ^ k"
    using assms(2) blocks by (simp add: settled_def word_le_nat_alt)
  then have unused: "unat (head_len b - ?n) = 2 ^ k - unat ?n"
    and sub1: "checked_sub cfg (head_len b) ?n = Value (head_len b - ?n)"
    using blocks by (simp_all add: unat_sub word_le_nat_alt checked_sub_ok)
  have le: "unat (head_len b - ?n) \<le> unat (2 ^ Suc k - 1 :: u32)"
    unfolding unused total by simp
  then have sub2: "checked_sub cfg (2 ^ Suc k - 1) (head_len b - ?n) =
      Value (2 ^ Suc k - 1 - (head_len b - ?n))"
    by (rule checked_sub_ok)
  have diff: "unat (2 ^ Suc k - 1 - (head_len b - ?n)) = 2 ^ Suc k - 1 - (2 ^ k - unat ?n)"
    using le by (subst unat_sub) (simp_all only: word_le_nat_alt unused total)
  have tot: "head_size_to_total_size cfg (head_len b) = Value (2 ^ Suc k - 1)"
    using head_size_to_total_size_exp [OF k] blocks by simp
  have cap: "bucket_capacity cfg b = Value (2 ^ Suc k - 1 - (head_len b - ?n), 2 ^ Suc k - 1)"
    by (simp only: bucket_capacity_def Let_def load_def tot sub1 sub2 obind.simps)
  have used: "used b = unat ?n" using n blocks by (simp add: used_def)
  have "2 ^ Suc k - 1 - (2 ^ k - unat ?n) = unat ?n + (2 ^ k - 1)" using n by simp
  then show ?thesis
    using that [OF cap] length_slots [OF ok] total diff used blocks by simp
qed

section \<open>Concurrent insertion into one bucket\<close>

text \<open>
  Threads that want a slot: each runs the fast path under a read lock of the bucket, where the
  only shared write is one atomic \<open>fetch_add\<close>, and, when that fails, releases the lock and runs
  the slow path under the write lock. \<open>pending\<close> counts the threads between the two,
  \<open>given\<close> lists the slots handed out; at most \<open>T\<close> threads are pending at once.
\<close>

record 'e race =
  race_bucket :: bucket
  race_heap :: "'e heap"
  pending :: nat
  given :: "address list"

definition race_init :: "store_id \<Rightarrow> 'e race" where
  "race_init sid = \<lparr>race_bucket = bucket_new sid,
     race_heap = \<lparr>cells = (\<lambda>_. None), allocations = 0\<rparr>, pending = 0, given = []\<rparr>"

inductive race_step :: "build \<Rightarrow> platform \<Rightarrow> nat \<Rightarrow> 'e race \<Rightarrow> 'e race \<Rightarrow> bool"
  for cfg :: build and A :: platform and T :: nat where
  fast_hit: "inner_next_insert_location cfg (race_bucket s) = Value (Some p, b') \<Longrightarrow>
    race_step cfg A T s (s\<lparr>race_bucket := b', given := p # given s\<rparr>)"
| fast_miss: "inner_next_insert_location cfg (race_bucket s) = Value (None, b') \<Longrightarrow>
    pending s < T \<Longrightarrow>
    race_step cfg A T s (s\<lparr>race_bucket := b', pending := Suc (pending s)\<rparr>)"
| slow: "next_insert_location_slow cfg A (race_bucket s) (race_heap s) = Value (p, b', h') \<Longrightarrow>
    0 < pending s \<Longrightarrow>
    race_step cfg A T s (s\<lparr>race_bucket := b', race_heap := h', pending := pending s - 1,
      given := p # given s\<rparr>)"

inductive race_reachable :: "build \<Rightarrow> platform \<Rightarrow> nat \<Rightarrow> store_id \<Rightarrow> 'e race \<Rightarrow> bool"
  for cfg :: build and A :: platform and T :: nat and sid :: store_id where
  start: "race_reachable cfg A T sid (race_init sid)"
| step: "race_reachable cfg A T sid s \<Longrightarrow> race_step cfg A T s s' \<Longrightarrow>
    race_reachable cfg A T sid s'"

definition race_inv :: "nat \<Rightarrow> store_id \<Rightarrow> 'e race \<Rightarrow> bool" where
  "race_inv T sid s \<longleftrightarrow>
     bucket_ok sid (race_bucket s) \<and> bases_allocated (race_heap s) (race_bucket s) \<and>
     untouched_fresh (race_heap s) (race_bucket s) \<and> given s = touched_slots (race_bucket s) \<and>
     set (given s) \<subseteq> dom (cells (race_heap s)) \<and> pending s \<le> T \<and>
     unat (next_unused_slot (race_bucket s)) \<le> unat (head_len (race_bucket s)) + pending s"

lemma race_inv_init: "race_inv T sid (race_init sid)"
  by (simp add: race_inv_def race_init_def bucket_new_ok bases_allocated_def untouched_fresh_def)
    (simp add: bucket_new_def)

text \<open>A step hands out a slot, or counts a thread whose fast path failed.\<close>

lemma race_step_effect:
  assumes step: "race_step cfg A T s s'" and inv: "race_inv T sid s" and T: "T < 2147483647"
    and memory: "\<And>k. k < 32 \<Longrightarrow> block_fits A (2 ^ k)" and depth: "depth (race_bucket s) < 32"
  obtains (gives) p where "given s' = p # given s" "pending s' \<le> pending s"
      "hands_out sid p (race_bucket s) (race_heap s) (race_bucket s') (race_heap s')"
  | (misses) "given s' = given s" "race_heap s' = race_heap s" "race_inv T sid s'"
      "bases (race_bucket s') = bases (race_bucket s)"
proof -
  have ok: "bucket_ok sid (race_bucket s)"
    and fresh: "untouched_fresh (race_heap s) (race_bucket s)"
    and alloc: "bases_allocated (race_heap s) (race_bucket s)"
    using inv by (simp_all add: race_inv_def)
  have bound: "unat (next_unused_slot (race_bucket s)) < 4294967295"
    using head_len_le [OF ok] inv T by (simp add: race_inv_def)
  from step show ?thesis
  proof (cases rule: race_step.cases)
    case (fast_hit p b')
    have less: "next_unused_slot (race_bucket s) < head_len (race_bucket s)"
    proof (rule ccontr)
      assume "\<not> ?thesis"
      with ok bound obtain b'' where "inner_next_insert_location cfg (race_bucket s) = Value (None, b'')"
        by (metis inner_next_miss)
      with fast_hit show False by simp
    qed
    with ok obtain q b'' where "inner_next_insert_location cfg (race_bucket s) = Value (Some q, b'')"
        "hands_out sid q (race_bucket s) (race_heap s) b'' (race_heap s)"
      using fresh alloc by (rule hands_out_hit)
    with fast_hit show ?thesis by (intro gives [of p]) auto
  next
    case (fast_miss b')
    have full: "\<not> next_unused_slot (race_bucket s) < head_len (race_bucket s)"
    proof
      assume "next_unused_slot (race_bucket s) < head_len (race_bucket s)"
      with ok obtain q b'' where "inner_next_insert_location cfg (race_bucket s) = Value (Some q, b'')"
        using fresh alloc by (rule hands_out_hit)
      with fast_miss show False by simp
    qed
    obtain b'' where "inner_next_insert_location cfg (race_bucket s) = Value (None, b'')"
        "bucket_ok sid b''" "touched_slots b'' = touched_slots (race_bucket s)"
        "untouched_slots b'' = []" "untouched_slots (race_bucket s) = []"
        "bases b'' = bases (race_bucket s)" "head b'' = head (race_bucket s)"
        "unat (next_unused_slot b'') \<le> Suc (unat (next_unused_slot (race_bucket s)))"
      using ok full bound by (rule inner_next_miss)
    with fast_miss inv show ?thesis
      by (intro misses) (auto simp: race_inv_def bases_allocated_def untouched_fresh_def head_len_def)
  next
    case (slow p b' h')
    have "room A (race_bucket s)" using depth memory by (simp add: room_def)
    with ok obtain q b'' h'' where
        "next_insert_location_slow cfg A (race_bucket s) (race_heap s) = Value (q, b'', h'')"
        "hands_out sid q (race_bucket s) (race_heap s) b'' h''"
      using alloc fresh bound by (rule next_insert_location_slow_spec)
    with slow show ?thesis by (intro gives [of p]) auto
  qed
qed

lemma race_inv_gives:
  assumes inv: "race_inv T sid s" and given: "given s' = p # given s" "pending s' \<le> pending s"
    and out: "hands_out sid p (race_bucket s) (race_heap s) (race_bucket s') (race_heap s')"
  shows "race_inv T sid s'"
proof -
  have ok: "bucket_ok sid (race_bucket s)"
    and alloc: "bases_allocated (race_heap s) (race_bucket s)"
    using inv by (simp_all add: race_inv_def)
  have "cells (race_heap s') q = cells (race_heap s) q" if q: "q \<in> set (given s)" for q
  proof -
    have "q \<in> set (untouched_slots (race_bucket s)) \<union> set (touched_slots (race_bucket s))"
      using inv q by (simp add: race_inv_def)
    then have "allocation q \<in> set (bases (race_bucket s))" by (rule slots_base [OF ok])
    with alloc out show ?thesis by (auto simp: bases_allocated_def hands_out_def)
  qed
  then have "set (given s) \<subseteq> dom (cells (race_heap s'))" using inv by (auto simp: race_inv_def dom_def)
  moreover have "p \<in> dom (cells (race_heap s'))" using out by (auto simp: hands_out_def)
  ultimately show ?thesis
    using out given inv by (auto simp: race_inv_def hands_out_def settled_def word_le_nat_alt)
qed

lemma race_inv_step:
  assumes step: "race_step cfg A T s s'" and inv: "race_inv T sid s" and T: "T < 2147483647"
    and memory: "\<And>k. k < 32 \<Longrightarrow> block_fits A (2 ^ k)" and depth: "depth (race_bucket s) < 32"
  shows "race_inv T sid s'"
  using assms by (cases rule: race_step_effect) (auto intro: race_inv_gives [OF inv])

text \<open>A bucket is not concerned by what another bucket does to memory.\<close>

lemma race_inv_heap:
  assumes inv: "race_inv T sid s" and grow: "allocations (race_heap s) \<le> allocations h"
    and old: "\<And>q. allocation q < allocations (race_heap s) \<Longrightarrow> cells h q = cells (race_heap s) q"
  shows "race_inv T sid (s\<lparr>race_heap := h\<rparr>)"
proof -
  have "cells h q = cells (race_heap s) q"
    if "q \<in> set (untouched_slots (race_bucket s)) \<union> set (touched_slots (race_bucket s))" for q
  proof -
    have "allocation q \<in> set (bases (race_bucket s))"
      using slots_base [OF _ that] inv by (auto simp: race_inv_def)
    with inv show ?thesis by (intro old) (auto simp: race_inv_def bases_allocated_def)
  qed
  then show ?thesis
    using inv grow
    by (fastforce simp: race_inv_def bases_allocated_def untouched_fresh_def dom_def intro: less_le_trans)
qed

lemma depth_bound:
  assumes "bucket_ok sid b" and "length (touched_slots b) < 2147483647"
  shows "depth b < 32"
proof (rule ccontr)
  assume "\<not> depth b < 32"
  then have "(2 ^ 31 :: nat) \<le> 2 ^ (depth b - 1)" by (intro power_increasing) simp_all
  with assms(2) length_slots(1) [OF assms(1)] show False by simp
qed

lemma given_grows: "race_step cfg A T s s' \<Longrightarrow> length (given s) \<le> length (given s')"
  by (cases rule: race_step.cases) auto

lemma race_reachable_inv:
  assumes "race_reachable cfg A T sid s" and "T < 2147483647"
    and "\<And>k. k < 32 \<Longrightarrow> block_fits A (2 ^ k)" and "length (given s) < 2147483647"
  shows "race_inv T sid s"
  using assms(1,4)
proof (induction rule: race_reachable.induct)
  case start
  show ?case by (rule race_inv_init)
next
  case (step s s')
  have less: "length (given s) < 2147483647"
    using given_grows [OF step.hyps(2)] step.prems by simp
  then have inv: "race_inv T sid s" by (rule step.IH)
  then have "depth (race_bucket s) < 32"
    using less by (intro depth_bound [of sid]) (simp_all add: race_inv_def)
  with step.hyps(2) inv assms(2,3) show ?case by (rule race_inv_step)
qed

lemma race_reachable_safe:
  assumes "race_reachable cfg A T sid s" and "T < 2147483647"
    and "\<And>k. k < 32 \<Longrightarrow> block_fits A (2 ^ k)" and "length (given s) < 2147483647"
  shows "distinct (given s) \<and> set (given s) \<subseteq> dom (cells (race_heap s)) \<and>
    (\<exists>p b' h'. next_insert_location_slow cfg A (race_bucket s) (race_heap s) = Value (p, b', h') \<and>
      p \<notin> set (given s))"
proof -
  have inv: "race_inv T sid s" using assms by (rule race_reachable_inv)
  then have ok: "bucket_ok sid (race_bucket s)" and given: "given s = touched_slots (race_bucket s)"
    by (simp_all add: race_inv_def)
  have "room A (race_bucket s)"
    using depth_bound [OF ok] assms(3,4) by (simp add: room_def given)
  moreover have "unat (next_unused_slot (race_bucket s)) < 4294967295"
    using head_len_le [OF ok] inv assms(2) by (simp add: race_inv_def)
  ultimately obtain p b' h' where
      slow: "next_insert_location_slow cfg A (race_bucket s) (race_heap s) = Value (p, b', h')"
      and out: "hands_out sid p (race_bucket s) (race_heap s) b' h'"
    using inv by (auto simp: race_inv_def intro: next_insert_location_slow_spec [OF ok])
  then have "p \<notin> set (given s)"
    using slots_distinct [of sid b'] by (simp add: hands_out_def given)
  moreover have "distinct (given s)" using slots_distinct [OF ok] by (simp add: given)
  ultimately show ?thesis using slow inv by (auto simp: race_inv_def)
qed

end
