(* ===== verification/RwQueue.thy ===== *)
theory RwQueue
  imports Main
begin

text \<open>
  The interface of the concurrent queue (\<open>src/src/util/sync/concurrent_queue.rs\<close>) that the store
  keeps its reusable slots in. In the ordinary build \<open>push\<close> and \<open>pop\<close> are calls of the
  \<open>SegQueue\<close> of crossbeam; under \<open>cfg(loom)\<close> the source implements them on a \<open>Vec\<close>. A
  \<open>cqueue\<close> is such an implementation, with an observer that lists the elements in the order in
  which they will be popped.
\<close>

record ('a, 'q) cqueue =
  q_new :: 'q
  q_push :: "'a \<Rightarrow> 'q \<Rightarrow> 'q"
  q_pop :: "'q \<Rightarrow> ('a \<times> 'q) option"
  q_items :: "'q \<Rightarrow> 'a list"

locale fifo =
  fixes Q :: "('a, 'q) cqueue"
  assumes new_empty: "q_items Q (q_new Q) = []"
    and push_last: "q_items Q (q_push Q x q) = q_items Q q @ [x]"
    and pop_empty: "q_pop Q q = None \<longleftrightarrow> q_items Q q = []"
    and pop_first: "q_pop Q q = Some (x, q') \<Longrightarrow> q_items Q q = x # q_items Q q'"
begin

lemma pop_cases:
  obtains "q_pop Q q = None" and "q_items Q q = []"
  | x q' where "q_pop Q q = Some (x, q')" and "q_items Q q = x # q_items Q q'"
  using pop_empty pop_first by (cases "q_pop Q q") auto

lemma pop_push: "\<exists>x q'. q_pop Q (q_push Q y q) = Some (x, q')"
  using pop_empty [of "q_push Q y q"] push_last [of y q] by (cases "q_pop Q (q_push Q y q)") auto

end

text \<open>The implementation under \<open>cfg(loom)\<close>: \<open>push\<close> inserts at index 0, \<open>pop\<close> takes the last element.\<close>

definition vec_push :: "'a \<Rightarrow> 'a list \<Rightarrow> 'a list" where
  "vec_push x v = x # v"

definition vec_pop :: "'a list \<Rightarrow> ('a \<times> 'a list) option" where
  "vec_pop v = (if v = [] then None else Some (last v, butlast v))"

definition vec_queue :: "('a, 'a list) cqueue" where
  "vec_queue = \<lparr>q_new = [], q_push = vec_push, q_pop = vec_pop, q_items = rev\<rparr>"

interpretation vec: fifo vec_queue
proof unfold_locales
  show "q_pop vec_queue q = Some (x, q') \<Longrightarrow> q_items vec_queue q = x # q_items vec_queue q'"
    for x :: 'a and q q'
    by (cases q rule: rev_cases) (auto simp: vec_queue_def vec_pop_def)
qed (auto simp: vec_queue_def vec_push_def vec_pop_def)

end
