(* ===== verification/RwLocks.thy ===== *)
theory RwLocks
  imports RwBlock
begin

text \<open>
  The lock guards (\<open>src/src/lock.rs\<close>): a guard is an element ID, \<open>deref\<close> reads the element
  through \<open>Block::get_unchecked\<close>, dropping a guard unlocks, \<open>WriteLock::forget\<close> does not.
\<close>

datatype read_lock = ReadLock (read_id: elem_id)

datatype write_lock = WriteLock (write_id: elem_id)

definition read_lock_deref :: "build \<Rightarrow> read_lock \<Rightarrow> 'e heap \<Rightarrow> 'e outcome" where
  "read_lock_deref cfg l h = obind (block_get_unchecked cfg (read_id l) h) (read_element h)"

definition read_lock_drop :: "build \<Rightarrow> nat \<Rightarrow> read_lock \<Rightarrow> 'e heap \<Rightarrow> 'e heap outcome" where
  "read_lock_drop cfg spur l h = block_unlock_read cfg spur (read_id l) h"

definition write_lock_deref :: "build \<Rightarrow> write_lock \<Rightarrow> 'e heap \<Rightarrow> 'e outcome" where
  "write_lock_deref cfg l h = obind (block_get_unchecked cfg (write_id l) h) (read_element h)"

text \<open>Assigning through the reference that \<open>deref_mut\<close> returns.\<close>

definition write_lock_assign :: "build \<Rightarrow> write_lock \<Rightarrow> 'e \<Rightarrow> 'e heap \<Rightarrow> 'e heap outcome" where
  "write_lock_assign cfg l v h =
     obind (block_get_unchecked cfg (write_id l) h) (\<lambda>p. write_element h p v)"

definition write_lock_drop :: "build \<Rightarrow> write_lock \<Rightarrow> 'e heap \<Rightarrow> 'e heap outcome" where
  "write_lock_drop cfg l h = block_unlock_write cfg (write_id l) h"

definition write_lock_forget :: "write_lock \<Rightarrow> elem_id" where
  "write_lock_forget l = write_id l"

text \<open>
  \<open>Debug\<close> and \<open>Display\<close> of a guard print the element; \<open>element_fmt\<close> is the implementation of the
  element's type, which appends to the formatter's text or reports an error (\<open>None\<close>).
\<close>

definition read_lock_fmt ::
  "build \<Rightarrow> ('e \<Rightarrow> string \<Rightarrow> string option) \<Rightarrow> read_lock \<Rightarrow> string \<Rightarrow> 'e heap \<Rightarrow> string option outcome" where
  "read_lock_fmt cfg element_fmt l f h = obind (read_lock_deref cfg l h) (\<lambda>v. Value (element_fmt v f))"

definition write_lock_fmt ::
  "build \<Rightarrow> ('e \<Rightarrow> string \<Rightarrow> string option) \<Rightarrow> write_lock \<Rightarrow> string \<Rightarrow> 'e heap \<Rightarrow> string option outcome" where
  "write_lock_fmt cfg element_fmt l f h = obind (write_lock_deref cfg l h) (\<lambda>v. Value (element_fmt v f))"

end
