(* ===== verification/RwStore.thy ===== *)
theory RwStore
  imports RwBucket RwQueue RwLocks
begin

text \<open>
  The store (\<open>RwStore\<close> in \<open>src/src/lib.rs\<close>): sixteen buckets, the queue of reusable slots, the
  store's identity, and the memory its blocks live in. Every operation is a function on that
  state, run by one thread at a time; the interleaving inside a header and inside a bucket is
  the subject of the theories \<open>RwGuarantees\<close> and \<open>RwBucket\<close>. The generator that picks a bucket has
  its state in a thread-local variable, so it is an argument and a result of \<open>insert\<close>.
\<close>

section \<open>The store and its operations\<close>

definition BUCKET_COUNT :: nat where
  "BUCKET_COUNT = 16"

record ('e, 'q) store =
  buckets :: "bucket list"
  erasures :: 'q
  store_ident :: store_id
  memory :: "'e heap"

type_synonym 'q erasure_queue = "(address, 'q) cqueue"

text \<open>The argument and the second result are the global counter \<open>NEXT_RWSTORE_ID\<close>.\<close>

definition store_new :: "build \<Rightarrow> 'q erasure_queue \<Rightarrow> u64 \<Rightarrow> ('e, 'q) store \<times> u64" where
  "store_new cfg Q next_store_id =
     (let (sid, next_store_id') = store_id_generate cfg next_store_id in
      (\<lparr>buckets = replicate BUCKET_COUNT (bucket_new sid), erasures = q_new Q, store_ident = sid,
        memory = \<lparr>cells = (\<lambda>_. None), allocations = 0\<rparr>\<rparr>, next_store_id'))"

definition arbitrary_bucket_id :: "u32 \<Rightarrow> u32 \<times> u32" where
  "arbitrary_bucket_id lcg =
     (let lcg' = lcg * 1103515245 + 12345 in (lcg' mod of_nat BUCKET_COUNT, lcg'))"

definition store_insert ::
  "build \<Rightarrow> platform \<Rightarrow> 'q erasure_queue \<Rightarrow> u32 \<Rightarrow> 'e \<Rightarrow> ('e, 'q) store \<Rightarrow>
    (elem_id \<times> u32 \<times> ('e, 'q) store) outcome" where
  "store_insert cfg A Q lcg element s =
     obind (case q_pop Q (erasures s) of
              Some (p, q') \<Rightarrow> Value (p, lcg, s\<lparr>erasures := q'\<rparr>)
            | None \<Rightarrow>
                let (bucket_id, lcg') = arbitrary_bucket_id lcg; n = unat bucket_id in
                if n < length (buckets s) then
                  obind (next_insert_location cfg A (buckets s ! n) (memory s)) (\<lambda>(p, b', h').
                    Value (p, lcg', s\<lparr>buckets := (buckets s)[n := b'], memory := h'\<rparr>))
                else Fault IndexOutOfBounds)
       (\<lambda>(p, lcg', s'). obind (block_insert cfg p element (store_ident s') (memory s')) (\<lambda>(i, h').
          Value (i, lcg', s'\<lparr>memory := h'\<rparr>)))"

definition assert_native_id :: "build \<Rightarrow> elem_id \<Rightarrow> ('e, 'q) store \<Rightarrow> 'a outcome \<Rightarrow> 'a outcome" where
  "assert_native_id cfg i s k = debug_assert cfg (store_ident s = id_store i) k"

definition push_erasure :: "'q erasure_queue \<Rightarrow> elem_id \<Rightarrow> ('e, 'q) store \<Rightarrow> ('e, 'q) store" where
  "push_erasure Q i s = s\<lparr>erasures := q_push Q (slot_address i) (erasures s)\<rparr>"

definition remove_with_timeout ::
  "build \<Rightarrow> 'q erasure_queue \<Rightarrow> nat \<Rightarrow> elem_id \<Rightarrow> timeout \<Rightarrow> ('e, 'q) store \<Rightarrow>
    ('e option block_result \<times> ('e, 'q) store) outcome" where
  "remove_with_timeout cfg Q spur i t s =
     assert_native_id cfg i s
       (obind (block_remove cfg spur i t (memory s)) (\<lambda>(r, h').
          let s' = s\<lparr>memory := h'\<rparr> in
          case r of
            Err e \<Rightarrow> Value (Err e, s')
          | Ok None \<Rightarrow> Value (Ok None, s')
          | Ok (Some result) \<Rightarrow>
              Value (Ok (Some (removed result)),
                if may_reuse result then push_erasure Q i s' else s')))"

text \<open>\<open>Result::unwrap\<close> on the result of a \<open>_with_timeout\<close> operation.\<close>

definition result_unwrap :: "('a block_result \<times> 's) outcome \<Rightarrow> ('a \<times> 's) outcome" where
  "result_unwrap m =
     obind m (\<lambda>(r, s). case r of Ok v \<Rightarrow> Value (v, s) | Err e \<Rightarrow> Fault UnwrapNone)"

definition store_remove ::
  "build \<Rightarrow> 'q erasure_queue \<Rightarrow> nat \<Rightarrow> elem_id \<Rightarrow> ('e, 'q) store \<Rightarrow>
    ('e option \<times> ('e, 'q) store) outcome" where
  "store_remove cfg Q spur i s =
     result_unwrap (remove_with_timeout cfg Q spur i BlockIndefinitely s)"

definition store_remove_locked ::
  "build \<Rightarrow> 'q erasure_queue \<Rightarrow> write_lock \<Rightarrow> ('e, 'q) store \<Rightarrow> ('e \<times> ('e, 'q) store) outcome" where
  "store_remove_locked cfg Q l s =
     (let i = write_lock_forget l in
      assert_native_id cfg i s
        (obind (block_remove_locked cfg i (memory s)) (\<lambda>(result, h').
           let s' = s\<lparr>memory := h'\<rparr> in
           Value (removed result, if may_reuse result then push_erasure Q i s' else s'))))"

definition read_with_timeout ::
  "build \<Rightarrow> nat \<Rightarrow> elem_id \<Rightarrow> timeout \<Rightarrow> ('e, 'q) store \<Rightarrow>
    (read_lock option block_result \<times> ('e, 'q) store) outcome" where
  "read_with_timeout cfg spur i t s =
     assert_native_id cfg i s
       (obind (block_lock_read cfg spur i t (memory s)) (\<lambda>(r, h').
          let s' = s\<lparr>memory := h'\<rparr> in
          case r of
            Err e \<Rightarrow> Value (Err e, s')
          | Ok locked \<Rightarrow> Value (Ok (if locked then Some (ReadLock i) else None), s')))"

definition store_read ::
  "build \<Rightarrow> nat \<Rightarrow> elem_id \<Rightarrow> ('e, 'q) store \<Rightarrow> (read_lock option \<times> ('e, 'q) store) outcome" where
  "store_read cfg spur i s = result_unwrap (read_with_timeout cfg spur i BlockIndefinitely s)"

definition write_with_timeout ::
  "build \<Rightarrow> nat \<Rightarrow> elem_id \<Rightarrow> timeout \<Rightarrow> ('e, 'q) store \<Rightarrow>
    (write_lock option block_result \<times> ('e, 'q) store) outcome" where
  "write_with_timeout cfg spur i t s =
     assert_native_id cfg i s
       (obind (block_lock_write cfg spur i t (memory s)) (\<lambda>(r, h').
          let s' = s\<lparr>memory := h'\<rparr> in
          case r of
            Err e \<Rightarrow> Value (Err e, s')
          | Ok locked \<Rightarrow> Value (Ok (if locked then Some (WriteLock i) else None), s')))"

definition store_write ::
  "build \<Rightarrow> nat \<Rightarrow> elem_id \<Rightarrow> ('e, 'q) store \<Rightarrow> (write_lock option \<times> ('e, 'q) store) outcome" where
  "store_write cfg spur i s = result_unwrap (write_with_timeout cfg spur i BlockIndefinitely s)"

text \<open>Dropping a guard.\<close>

definition drop_read_lock ::
  "build \<Rightarrow> nat \<Rightarrow> read_lock \<Rightarrow> ('e, 'q) store \<Rightarrow> ('e, 'q) store outcome" where
  "drop_read_lock cfg spur l s =
     omap (\<lambda>h'. s\<lparr>memory := h'\<rparr>) (read_lock_drop cfg spur l (memory s))"

definition drop_write_lock :: "build \<Rightarrow> write_lock \<Rightarrow> ('e, 'q) store \<Rightarrow> ('e, 'q) store outcome" where
  "drop_write_lock cfg l s = omap (\<lambda>h'. s\<lparr>memory := h'\<rparr>) (write_lock_drop cfg l (memory s))"

text \<open>The result of \<open>get_mut\<close> is a pointer to the element.\<close>

definition store_get_mut :: "build \<Rightarrow> elem_id \<Rightarrow> ('e, 'q) store \<Rightarrow> address option outcome" where
  "store_get_mut cfg i s = assert_native_id cfg i s (block_get_exclusive cfg i (memory s))"

definition store_get_mut_unchecked :: "build \<Rightarrow> elem_id \<Rightarrow> ('e, 'q) store \<Rightarrow> address outcome" where
  "store_get_mut_unchecked cfg i s = assert_native_id cfg i s (block_get_unchecked cfg i (memory s))"

primrec sum_capacity :: "build \<Rightarrow> bucket list \<Rightarrow> u32 \<times> u32 \<Rightarrow> (u32 \<times> u32) outcome" where
  "sum_capacity cfg [] totals = Value totals"
| "sum_capacity cfg (b # bs) totals =
     obind (bucket_capacity cfg b) (\<lambda>(touched, allocated).
     obind (checked_add cfg (fst totals) touched) (\<lambda>total_touched.
     obind (checked_add cfg (snd totals) allocated) (\<lambda>total_allocated.
       sum_capacity cfg bs (total_touched, total_allocated))))"

definition store_capacity :: "build \<Rightarrow> ('e, 'q) store \<Rightarrow> (u32 \<times> u32) outcome" where
  "store_capacity cfg s = sum_capacity cfg (buckets s) (0, 0)"

text \<open>Dropping the store drops its buckets, each with its chain of blocks.\<close>

primrec drop_buckets ::
  "build \<Rightarrow> platform \<Rightarrow> bool \<Rightarrow> bucket list \<Rightarrow> 'e heap \<Rightarrow> 'e list outcome" where
  "drop_buckets cfg A panicking [] h = Value []"
| "drop_buckets cfg A panicking (b # bs) h =
     obind (case head b of None \<Rightarrow> Value [] | Some blk \<Rightarrow> block_drop cfg A panicking blk h) (\<lambda>d.
       omap ((@) d) (drop_buckets cfg A panicking bs h))"

definition store_drop :: "build \<Rightarrow> platform \<Rightarrow> bool \<Rightarrow> ('e, 'q) store \<Rightarrow> 'e list outcome" where
  "store_drop cfg A panicking s = drop_buckets cfg A panicking (buckets s) (memory s)"

end
