(* ===== verification/RwStoreSpec.thy ===== *)
theory RwStoreSpec
  imports RwStore
begin

text \<open>
  What the store promises: a map from the IDs in use to elements, each with a read-write lock.
  \<open>store_ok\<close> is the invariant of the store, \<open>abs_store\<close> the abstract map, the \<open>spec_*\<close> functions
  the operations on it; the theorems say that the code implements them.
\<close>

section \<open>The invariant\<close>

definition touched :: "('e, 'q) store \<Rightarrow> address list" where
  "touched s = concat (map touched_slots (buckets s))"

definition untouched :: "('e, 'q) store \<Rightarrow> address list" where
  "untouched s = concat (map untouched_slots (buckets s))"

text \<open>The chains are well formed, share no block, and memory consists of their slots.\<close>

definition frame_ok :: "('e, 'q) store \<Rightarrow> bool" where
  "frame_ok s \<longleftrightarrow>
     length (buckets s) = BUCKET_COUNT \<and>
     (\<forall>b \<in> set (buckets s). bucket_ok (store_ident s) b \<and> settled b \<and> bases_allocated (memory s) b) \<and>
     distinct (concat (map bases (buckets s))) \<and>
     dom (cells (memory s)) = set (untouched s) \<union> set (touched s)"

definition slot_ok :: "'e slot \<Rightarrow> bool" where
  "slot_ok sl \<longleftrightarrow>
     (is_occupied (slot_header sl) \<longrightarrow>
        slot_value sl \<noteq> None \<and> id_from_bits (slot_header sl) \<noteq> RESERVED_ID)"

definition reusable :: "'e slot \<Rightarrow> bool" where
  "reusable sl \<longleftrightarrow> \<not> is_occupied (slot_header sl) \<and> id_from_bits (slot_header sl) \<noteq> RESERVED_ID"

text \<open>Every slot is fresh, or well formed; the queue holds exactly the reusable ones, once.\<close>

definition slots_ok :: "'q erasure_queue \<Rightarrow> ('e, 'q) store \<Rightarrow> bool" where
  "slots_ok Q s \<longleftrightarrow>
     (\<forall>p \<in> set (untouched s). cells (memory s) p = Some fresh_slot) \<and>
     (\<forall>p \<in> set (touched s). \<forall>sl. cells (memory s) p = Some sl \<longrightarrow> slot_ok sl) \<and>
     distinct (q_items Q (erasures s)) \<and>
     (\<forall>p. p \<in> set (q_items Q (erasures s)) \<longleftrightarrow>
        p \<in> set (touched s) \<and> (\<exists>sl. cells (memory s) p = Some sl \<and> reusable sl))"

definition store_ok :: "'q erasure_queue \<Rightarrow> ('e, 'q) store \<Rightarrow> bool" where
  "store_ok Q s \<longleftrightarrow> frame_ok s \<and> slots_ok Q s"

text \<open>The IDs the store has returned so far.\<close>

definition issued_ids :: "('e, 'q) store \<Rightarrow> elem_id set" where
  "issued_ids s =
     {i. id_store i = store_ident s \<and> slot_address i \<in> set (touched s) \<and>
        (\<exists>sl. cells (memory s) (slot_address i) = Some sl \<and> issued (slot_header sl) (ordinal i))}"

section \<open>The abstract store\<close>

datatype lock_state = Free | Readers nat | Writer

type_synonym 'e abs_store = "elem_id \<Rightarrow> ('e \<times> lock_state) option"

fun lock_of :: "header_view \<Rightarrow> lock_state option" where
  "lock_of (Unoccupied i) = None"
| "lock_of (Unlocked i) = Some Free"
| "lock_of (ReadLocked i r b) = Some (Readers r)"
| "lock_of (WriteLocked i b) = Some Writer"

definition slot_abs :: "u32 \<Rightarrow> 'e slot \<Rightarrow> ('e \<times> lock_state) option" where
  "slot_abs n sl =
     (if id_from_bits (slot_header sl) = n then
        (case (slot_value sl, lock_of (header_view (slot_header sl))) of
           (Some v, Some l) \<Rightarrow> Some (v, l)
         | _ \<Rightarrow> None)
      else None)"

definition abs_store :: "('e, 'q) store \<Rightarrow> 'e abs_store" where
  "abs_store s i =
     (if id_store i = store_ident s then
        (case cells (memory s) (slot_address i) of None \<Rightarrow> None | Some sl \<Rightarrow> slot_abs (ordinal i) sl)
      else None)"

text \<open>A contended operation: it gives up, or waits for a lock that nobody will release.\<close>

definition spec_wait :: "timeout \<Rightarrow> 'e abs_store \<Rightarrow> ('a block_result \<times> 'e abs_store) outcome" where
  "spec_wait t a = (if t = BlockIndefinitely then Hang else Value (Err TimedOut, a))"

definition spec_read ::
  "elem_id \<Rightarrow> timeout \<Rightarrow> 'e abs_store \<Rightarrow> (read_lock option block_result \<times> 'e abs_store) outcome" where
  "spec_read i t a =
     (case a i of
        None \<Rightarrow> Value (Ok None, a)
      | Some (v, Free) \<Rightarrow> Value (Ok (Some (ReadLock i)), a(i \<mapsto> (v, Readers 1)))
      | Some (v, Readers n) \<Rightarrow>
          (if n = unat MAX_CONCURRENT_READS then Fault TooManyReaders
           else Value (Ok (Some (ReadLock i)), a(i \<mapsto> (v, Readers (n + 1)))))
      | Some (v, Writer) \<Rightarrow> spec_wait t a)"

definition spec_write ::
  "elem_id \<Rightarrow> timeout \<Rightarrow> 'e abs_store \<Rightarrow> (write_lock option block_result \<times> 'e abs_store) outcome" where
  "spec_write i t a =
     (case a i of
        None \<Rightarrow> Value (Ok None, a)
      | Some (v, Free) \<Rightarrow> Value (Ok (Some (WriteLock i)), a(i \<mapsto> (v, Writer)))
      | Some (v, _) \<Rightarrow> spec_wait t a)"

definition spec_remove ::
  "elem_id \<Rightarrow> timeout \<Rightarrow> 'e abs_store \<Rightarrow> ('e option block_result \<times> 'e abs_store) outcome" where
  "spec_remove i t a =
     (case a i of
        None \<Rightarrow> Value (Ok None, a)
      | Some (v, Free) \<Rightarrow> Value (Ok (Some v), a(i := None))
      | Some (v, _) \<Rightarrow> spec_wait t a)"

text \<open>
  An operation of the code refines one of the abstract store if it does the same under the
  abstraction, and keeps the invariant and the set of IDs issued so far.
\<close>

definition refines ::
  "'q erasure_queue \<Rightarrow> ('e, 'q) store \<Rightarrow> ('r \<times> ('e, 'q) store) outcome \<Rightarrow>
    ('r \<times> 'e abs_store) outcome \<Rightarrow> bool" where
  "refines Q s impl spec \<longleftrightarrow>
     omap (\<lambda>(r, s'). (r, abs_store s')) impl = spec \<and>
     (\<forall>r s'. impl = Value (r, s') \<longrightarrow> store_ok Q s' \<and> issued_ids s' = issued_ids s)"

section \<open>Consequences of the invariant\<close>

lemma buckets_distinct:
  assumes "\<forall>b \<in> set bs. bucket_ok sid b" and "distinct (concat (map bases bs))"
  shows "distinct (concat (map touched_slots bs) @ concat (map untouched_slots bs))"
  using assms
proof (induction bs)
  case (Cons b bs)
  have base: "\<exists>c \<in> set bs. allocation p \<in> set (bases c)"
    if "p \<in> set (concat (map touched_slots bs)) \<union> set (concat (map untouched_slots bs))" for p
  proof -
    from that obtain c where "c \<in> set bs" "p \<in> set (untouched_slots c) \<union> set (touched_slots c)" by auto
    with Cons.prems(1) slots_base [of sid c p] show ?thesis by auto
  qed
  have own: "allocation p \<in> set (bases b)"
    if "p \<in> set (untouched_slots b) \<union> set (touched_slots b)" for p
    using Cons.prems(1) that by (intro slots_base [of sid]) simp_all
  have apart: "p \<notin> set (concat (map touched_slots bs)) \<union> set (concat (map untouched_slots bs))"
    if "p \<in> set (untouched_slots b) \<union> set (touched_slots b)" for p
    using own [OF that] base [of p] Cons.prems(2) by auto
  have "distinct (untouched_slots b @ touched_slots b)"
    using Cons.prems(1) by (intro slots_distinct [of sid]) simp
  moreover have "distinct (concat (map touched_slots bs) @ concat (map untouched_slots bs))"
    using Cons by simp
  moreover have "(set (touched_slots b) \<union> set (untouched_slots b)) \<inter>
      (set (concat (map touched_slots bs)) \<union> set (concat (map untouched_slots bs))) = {}"
    using apart by blast
  ultimately show ?case
    by (simp only: list.map concat.simps distinct_append set_append) blast
qed simp

lemma store_distinct:
  assumes "frame_ok s"
  shows "distinct (touched s @ untouched s)"
  unfolding touched_def untouched_def
  by (rule buckets_distinct [of _ "store_ident s"]) (use assms in \<open>simp_all add: frame_ok_def\<close>)

lemma store_slot:
  assumes "store_ok Q s" and "p \<in> set (touched s)"
  obtains sl where "cells (memory s) p = Some sl" and "slot_ok sl"
proof -
  have "p \<in> dom (cells (memory s))" using assms by (simp add: store_ok_def frame_ok_def)
  then obtain sl where "cells (memory s) p = Some sl" by auto
  with assms that show ?thesis by (auto simp: store_ok_def slots_ok_def)
qed

lemma occupied_touched:
  assumes "store_ok Q s" and "cells (memory s) p = Some sl" and "is_occupied (slot_header sl)"
  shows "p \<in> set (touched s)"
proof -
  have "\<not> is_occupied (slot_header fresh_slot)"
    by (simp add: fresh_slot_def bits_pack)
  moreover have "p \<in> set (untouched s) \<union> set (touched s)"
    using assms(1,2) by (auto simp: store_ok_def frame_ok_def)
  ultimately show ?thesis using assms by (auto simp: store_ok_def slots_ok_def)
qed

text \<open>A change of one touched slot, with the queue brought up to date.\<close>

definition put_slot :: "('e, 'q) store \<Rightarrow> address \<Rightarrow> 'e slot \<Rightarrow> ('e, 'q) store" where
  "put_slot s p sl = s\<lparr>memory := set_slot (memory s) p sl\<rparr>"

lemma put_slot_simps [simp]:
  "buckets (put_slot s p sl) = buckets s" "erasures (put_slot s p sl) = erasures s"
  "store_ident (put_slot s p sl) = store_ident s" "touched (put_slot s p sl) = touched s"
  "untouched (put_slot s p sl) = untouched s"
  "cells (memory (put_slot s p sl)) = (cells (memory s))(p \<mapsto> sl)"
  "allocations (memory (put_slot s p sl)) = allocations (memory s)"
  "touched (s\<lparr>erasures := q\<rparr>) = touched s" "untouched (s\<lparr>erasures := q\<rparr>) = untouched s"
  by (simp_all add: put_slot_def touched_def untouched_def)

lemma put_slot_ok:
  assumes ok: "store_ok Q s" and p: "p \<in> set (touched s)" and sl: "slot_ok sl"
    and q: "distinct (q_items Q q)"
      "set (q_items Q q) = (if reusable sl then insert p (set (q_items Q (erasures s)))
        else set (q_items Q (erasures s)) - {p})"
  shows "store_ok Q ((put_slot s p sl)\<lparr>erasures := q\<rparr>)"
proof -
  have apart: "p \<notin> set (untouched s)" using store_distinct [of s] ok p by (auto simp: store_ok_def)
  have "frame_ok ((put_slot s p sl)\<lparr>erasures := q\<rparr>)"
    using ok p by (auto simp: store_ok_def frame_ok_def bases_allocated_def)
  moreover have "slots_ok Q ((put_slot s p sl)\<lparr>erasures := q\<rparr>)"
    using ok p sl q apart by (auto simp: store_ok_def slots_ok_def)
  ultimately show ?thesis by (simp add: store_ok_def)
qed

lemma put_slot_occupied_ok:
  assumes ok: "store_ok Q s" and p: "cells (memory s) p = Some old" "is_occupied (slot_header old)"
    and sl: "slot_ok sl" "is_occupied (slot_header sl)"
  shows "store_ok Q (put_slot s p sl)"
proof -
  have t: "p \<in> set (touched s)" using ok p by (rule occupied_touched)
  have "p \<notin> set (q_items Q (erasures s))"
    using ok p by (auto simp: store_ok_def slots_ok_def reusable_def)
  then have "store_ok Q ((put_slot s p sl)\<lparr>erasures := erasures s\<rparr>)"
    using ok t sl by (intro put_slot_ok) (auto simp: store_ok_def slots_ok_def reusable_def)
  moreover have "(put_slot s p sl)\<lparr>erasures := erasures s\<rparr> = put_slot s p sl"
    by (simp add: put_slot_def)
  ultimately show ?thesis by simp
qed

lemma abs_put_slot:
  "abs_store (put_slot s p sl) =
    (\<lambda>i. if slot_address i = p \<and> id_store i = store_ident s then slot_abs (ordinal i) sl
      else abs_store s i)"
proof
  fix i
  show "abs_store (put_slot s p sl) i =
    (if slot_address i = p \<and> id_store i = store_ident s then slot_abs (ordinal i) sl
      else abs_store s i)"
    unfolding abs_store_def put_slot_simps by simp
qed

lemma abs_erasures [simp]: "abs_store (s\<lparr>erasures := q\<rparr>) = abs_store s"
  by (rule ext) (simp add: abs_store_def)

lemma issued_erasures [simp]: "issued_ids (s\<lparr>erasures := q\<rparr>) = issued_ids s"
  by (simp add: issued_ids_def)

lemma issued_put_slot:
  assumes "p \<in> set (touched s)" and "cells (memory s) p = Some old"
    and same: "\<And>n. issued (slot_header sl) n \<longleftrightarrow> issued (slot_header old) n"
  shows "issued_ids (put_slot s p sl) = issued_ids s"
proof -
  have "i \<in> issued_ids (put_slot s p sl) \<longleftrightarrow> i \<in> issued_ids s" for i
    unfolding issued_ids_def mem_Collect_eq put_slot_simps
    by (cases "slot_address i = p") (simp_all add: assms)
  then show ?thesis by blast
qed

text \<open>The view of an ID that was issued: its slot, and the header of the slot by its fields.\<close>

lemma issued_slot:
  assumes ok: "store_ok Q s" and i: "i \<in> issued_ids s"
  obtains sl n r j where "cells (memory s) (slot_address i) = Some sl"
    and "slot_header sl = pack n r j" and "r < 2147483648" and "slot_ok sl"
    and "ordinal i \<noteq> RESERVED_ID" and "j = ordinal i \<longrightarrow> n \<or> 0 < r"
    and "id_store i = store_ident s" and "slot_address i \<in> set (touched s)"
    and "ordinal i \<le> j"
proof -
  from i obtain sl where sl: "cells (memory s) (slot_address i) = Some sl"
      "issued (slot_header sl) (ordinal i)" "id_store i = store_ident s"
      "slot_address i \<in> set (touched s)"
    by (auto simp: issued_ids_def)
  moreover obtain n r j where w: "slot_header sl = pack n r j" and r: "r < 2147483648"
    by (rule word_cases)
  moreover have sok: "slot_ok sl" using ok sl by (auto simp: store_ok_def slots_ok_def)
  moreover have "ordinal i \<noteq> RESERVED_ID"
    using sl(2) sok less_RESERVED_ID by (auto simp: issued_def slot_ok_def)
  moreover have "j = ordinal i \<longrightarrow> n \<or> 0 < r" "ordinal i \<le> j"
    using sl(2) w r by (auto simp: issued_def)
  ultimately show ?thesis using that by blast
qed

text \<open>The abstract view of such an ID.\<close>

lemma abs_issued:
  assumes "cells (memory s) (slot_address i) = Some sl" and "slot_header sl = pack n r j"
    and "r < 2147483648" and "slot_ok sl" and "j = ordinal i \<longrightarrow> n \<or> 0 < r"
    and "id_store i = store_ident s"
  shows "abs_store s i =
    (if j = ordinal i
     then Some (the (slot_value sl),
       if r = 0 then Free else if r = 2147483647 then Writer else Readers r)
     else None)"
  using assms by (auto simp: abs_store_def slot_abs_def slot_ok_def header_view_pack)

text \<open>Changing the lock of an element that is present, or the element itself.\<close>

lemma abs_put_present:
  assumes "cells (memory s) (slot_address i) = Some sl" and "slot_header sl = pack n r (ordinal i)"
    and "r < 2147483648" and "n \<or> 0 < r" and "id_store i = store_ident s"
    and "r' < 2147483648" and "n' \<or> 0 < r'"
  shows "abs_store (put_slot s (slot_address i)
      \<lparr>slot_header = pack n' r' (ordinal i), slot_value = Some v\<rparr>) =
    (abs_store s)(i \<mapsto>
      (v, if r' = 0 then Free else if r' = 2147483647 then Writer else Readers r'))"
proof
  fix k
  show "abs_store (put_slot s (slot_address i)
      \<lparr>slot_header = pack n' r' (ordinal i), slot_value = Some v\<rparr>) k =
    ((abs_store s)(i \<mapsto>
      (v, if r' = 0 then Free else if r' = 2147483647 then Writer else Readers r'))) k"
  proof (cases "slot_address k = slot_address i \<and> id_store k = store_ident s")
    case True
    then have "k = i \<longleftrightarrow> ordinal k = ordinal i" using assms(5) by (cases k; cases i) auto
    then show ?thesis
      using True assms by (auto simp: abs_put_slot abs_store_def slot_abs_def header_view_pack)
  next
    case False
    then have "k \<noteq> i" using assms(5) by auto
    with False show ?thesis by (auto simp: abs_put_slot)
  qed
qed

lemma memory_put_slot [simp]: "s\<lparr>memory := memory (put_slot s p sl)\<rparr> = put_slot s p sl"
  by (simp add: put_slot_def)

lemma put_slot_same: "cells (memory s) p = Some sl \<Longrightarrow> put_slot s p sl = s"
  by (simp add: put_slot_def set_slot_def fun_upd_idem)

lemma put_present:
  assumes ok: "store_ok Q s" and i: "id_store i = store_ident s" "ordinal i \<noteq> RESERVED_ID"
    and sl: "cells (memory s) (slot_address i) = Some sl" "slot_header sl = pack n r (ordinal i)"
      "n \<or> 0 < r" "r < 2147483648"
    and new: "n' \<or> 0 < r'" "r' < 2147483648"
    and s': "s' = put_slot s (slot_address i)
      \<lparr>slot_header = pack n' r' (ordinal i), slot_value = Some v\<rparr>"
  shows "store_ok Q s'" and "issued_ids s' = issued_ids s"
    and "abs_store s' = (abs_store s)(i \<mapsto>
      (v, if r' = 0 then Free else if r' = 2147483647 then Writer else Readers r'))"
proof -
  show "store_ok Q s'" unfolding s'
    using ok sl(1) by (rule put_slot_occupied_ok) (use sl new i in \<open>simp_all add: slot_ok_def\<close>)
  have "slot_address i \<in> set (touched s)"
    using ok sl(1) by (rule occupied_touched) (use sl in simp)
  then show "issued_ids s' = issued_ids s" unfolding s'
    using sl(1) by (rule issued_put_slot) (use sl new in \<open>simp add: issued_def\<close>)
  show "abs_store s' = (abs_store s)(i \<mapsto>
      (v, if r' = 0 then Free else if r' = 2147483647 then Writer else Readers r'))" unfolding s'
    using sl(1,2,4,3) i(1) new(2,1) by (rule abs_put_present)
qed

lemma refines_same:
  assumes "store_ok Q s" and "impl = Value (r, s)" and "spec = Value (r, abs_store s)"
  shows "refines Q s impl spec"
  using assms by (simp add: refines_def)

lemma refines_stop:
  "impl = Fault f \<Longrightarrow> spec = Fault f \<Longrightarrow> refines Q s impl spec"
  "impl = Hang \<Longrightarrow> spec = Hang \<Longrightarrow> refines Q s impl spec"
  by (simp_all add: refines_def)

lemma refines_present:
  assumes ok: "store_ok Q s" and i: "id_store i = store_ident s" "ordinal i \<noteq> RESERVED_ID"
    and sl: "cells (memory s) (slot_address i) = Some sl" "slot_header sl = pack n r (ordinal i)"
      "n \<or> 0 < r" "r < 2147483648"
    and new: "n' \<or> 0 < r'" "r' < 2147483648"
    and impl: "impl = Value (x, put_slot s (slot_address i)
        \<lparr>slot_header = pack n' r' (ordinal i), slot_value = Some v\<rparr>)"
    and spec: "spec = Value (x, (abs_store s)(i \<mapsto>
      (v, if r' = 0 then Free else if r' = 2147483647 then Writer else Readers r')))"
  shows "refines Q s impl spec"
  using put_present [OF ok i sl new refl, of v] by (simp add: refines_def impl spec)

section \<open>Locking\<close>

text \<open>The operations on an ID, by the fields of the header of its slot.\<close>

lemma read_with_timeout_eval:
  assumes "cells (memory s) (slot_address i) = Some sl" and "slot_header sl = pack n r j"
    and "r < 2147483648" and "ordinal i \<noteq> RESERVED_ID" and "id_store i = store_ident s"
  shows "read_with_timeout cfg spur i t s =
    (if j \<noteq> ordinal i then Value (Ok None, s)
     else if r = 2147483646 then Fault TooManyReaders
     else if r < 2147483646 then Value (Ok (Some (ReadLock i)),
       put_slot s (slot_address i) (sl\<lparr>slot_header := pack n (Suc r) j\<rparr>))
     else case t of DontBlock \<Rightarrow> Value (Err TimedOut, s)
       | BlockUntil d \<Rightarrow> Value (Err TimedOut,
           put_slot s (slot_address i) (sl\<lparr>slot_header := pack False r j\<rparr>))
       | BlockIndefinitely \<Rightarrow> Hang)"
proof -
  have "sl\<lparr>slot_header := pack n r j\<rparr> = sl" using assms(2) by (cases sl) simp
  then have "put_slot s (slot_address i) (sl\<lparr>slot_header := pack n r j\<rparr>) = s"
    using put_slot_same [OF assms(1)] by simp
  then show ?thesis
    using assms unfolding put_slot_def
    by (auto simp: read_with_timeout_def assert_native_id_def debug_assert_holds block_lock_read_def
        lock_read_mismatch lock_read_match Let_def split: timeout.split)
qed

lemma write_with_timeout_eval:
  assumes "cells (memory s) (slot_address i) = Some sl" and "slot_header sl = pack n r j"
    and "r < 2147483648" and "ordinal i \<noteq> RESERVED_ID" and "id_store i = store_ident s"
    and "j = ordinal i \<longrightarrow> n \<or> 0 < r"
  shows "write_with_timeout cfg spur i t s =
    (if j \<noteq> ordinal i then Value (Ok None, s)
     else if r = 0 then Value (Ok (Some (WriteLock i)),
       put_slot s (slot_address i) (sl\<lparr>slot_header := pack True 2147483647 j\<rparr>))
     else case t of DontBlock \<Rightarrow> Value (Err TimedOut, s)
       | BlockUntil d \<Rightarrow> Value (Err TimedOut,
           put_slot s (slot_address i) (sl\<lparr>slot_header := pack False r j\<rparr>))
       | BlockIndefinitely \<Rightarrow> Hang)"
proof -
  have "sl\<lparr>slot_header := pack n r j\<rparr> = sl" using assms(2) by (cases sl) simp
  then have "put_slot s (slot_address i) (sl\<lparr>slot_header := pack n r j\<rparr>) = s"
    using put_slot_same [OF assms(1)] by simp
  then show ?thesis
    using assms unfolding put_slot_def
    by (auto simp: write_with_timeout_def assert_native_id_def debug_assert_holds
        block_lock_write_def lock_write_eval Let_def split: timeout.split)
qed

lemma remove_with_timeout_eval:
  assumes "cells (memory s) (slot_address i) = Some sl" and "slot_header sl = pack n r j"
    and "r < 2147483648" and "ordinal i \<noteq> RESERVED_ID" and "id_store i = store_ident s"
    and "j = ordinal i \<longrightarrow> (n \<or> 0 < r) \<and> slot_value sl = Some v"
  shows "remove_with_timeout cfg Q spur i t s =
    (if j \<noteq> ordinal i then Value (Ok None, s)
     else if r = 0 then
       (let s' = put_slot s (slot_address i) (sl\<lparr>slot_header := pack False 0 (j + 1)\<rparr>) in
        Value (Ok (Some v), if j + 1 \<noteq> RESERVED_ID then push_erasure Q i s' else s'))
     else case t of DontBlock \<Rightarrow> Value (Err TimedOut, s)
       | BlockUntil d \<Rightarrow> Value (Err TimedOut,
           put_slot s (slot_address i) (sl\<lparr>slot_header := pack False r j\<rparr>))
       | BlockIndefinitely \<Rightarrow> Hang)"
proof -
  have "sl\<lparr>slot_header := pack n r j\<rparr> = sl" using assms(2) by (cases sl) simp
  then have "put_slot s (slot_address i) (sl\<lparr>slot_header := pack n r j\<rparr>) = s"
    using put_slot_same [OF assms(1)] by simp
  then show ?thesis
    using assms unfolding put_slot_def
    by (auto simp: remove_with_timeout_def assert_native_id_def debug_assert_holds
        block_remove_def header_remove_eval Let_def split: timeout.split)
qed

text \<open>The slot of an ID that was issued: past the ID, or holding its element.\<close>

lemma issued_cases:
  assumes ok: "store_ok Q s" and i: "i \<in> issued_ids s"
  obtains (gone) sl n r j where "cells (memory s) (slot_address i) = Some sl"
      "slot_header sl = pack n r j" "r < 2147483648" "j \<noteq> ordinal i"
      "abs_store s i = None" "ordinal i \<noteq> RESERVED_ID" "id_store i = store_ident s"
  | (present) n r v where "cells (memory s) (slot_address i) =
        Some \<lparr>slot_header = pack n r (ordinal i), slot_value = Some v\<rparr>"
      "r < 2147483648" "n \<or> 0 < r" "ordinal i \<noteq> RESERVED_ID" "id_store i = store_ident s"
      "abs_store s i = Some (v, if r = 0 then Free else if r = 2147483647 then Writer else Readers r)"
proof -
  obtain sl n r j where *: "cells (memory s) (slot_address i) = Some sl" "slot_header sl = pack n r j"
      "r < 2147483648" "slot_ok sl" "ordinal i \<noteq> RESERVED_ID" "j = ordinal i \<longrightarrow> n \<or> 0 < r"
      "id_store i = store_ident s"
    using ok i by (rule issued_slot)
  note abs = abs_issued [OF *(1-4,6,7)]
  show ?thesis
  proof (cases "j = ordinal i")
    case False
    with * abs show ?thesis by (intro gone) simp_all
  next
    case True
    with * obtain v where "slot_value sl = Some v" by (auto simp: slot_ok_def)
    with True * have "sl = \<lparr>slot_header = pack n r (ordinal i), slot_value = Some v\<rparr>" by (cases sl) simp
    with True * abs show ?thesis by (intro present) simp_all
  qed
qed

lemma read_step:
  assumes ok: "store_ok Q s" and i: "i \<in> issued_ids s"
  shows "refines Q s (read_with_timeout cfg spur i t s) (spec_read i t (abs_store s))"
  using assms
proof (cases rule: issued_cases)
  case (gone sl n r j)
  then show ?thesis
    by (intro refines_same [OF ok]) (simp_all add: read_with_timeout_eval spec_read_def)
next
  case (present n r v)
  note eval = read_with_timeout_eval [OF present(1) _ present(2,4,5), simplified]
  consider "r = 0" | "0 < r" "r < 2147483646" | "r = 2147483646" | "r = 2147483647"
    using present(2) by linarith
  then show ?thesis
  proof cases
    case 4
    have "refines Q s (Value (Err TimedOut, put_slot s (slot_address i)
          \<lparr>slot_header = pack False r (ordinal i), slot_value = Some v\<rparr>))
        (Value (Err TimedOut, (abs_store s)(i \<mapsto> (v, Writer))))"
      by (rule refines_present [OF ok present(5,4,1) _ present(3,2), where n' = False and r' = r])
        (use 4 in simp_all)
    moreover have "(abs_store s)(i \<mapsto> (v, Writer)) = abs_store s"
      using 4 present(6) by (simp add: fun_upd_idem)
    ultimately show ?thesis
      using 4 present(6) ok eval
      by (cases t) (auto simp: spec_read_def spec_wait_def intro: refines_same refines_stop)
  next
    case 3
    then show ?thesis
      using present(6) eval
      by (intro refines_stop) (simp_all add: spec_read_def MAX_CONCURRENT_READS_nat)
  next
    case 2
    then show ?thesis
      using present eval
      by (intro refines_present [OF ok present(5,4,1) _ present(3,2), where n' = n and r' = "Suc r"])
        (simp_all add: spec_read_def MAX_CONCURRENT_READS_nat)
  next
    case 1
    then show ?thesis
      using present eval
      by (intro refines_present [OF ok present(5,4,1) _ present(3,2), where n' = n and r' = 1])
        (simp_all add: spec_read_def)
  qed
qed

text \<open>
  C16. \<open>RwStore::read_with_timeout\<close> refines the abstract read: for an ID the store has issued it
  returns no guard exactly when the element is gone; on an element nobody writes it returns a
  guard and counts one reader more, or panics at the reader limit; on a write locked element it
  times out without effect, or waits when it may not time out. The store's invariant and the
  other elements and locks are untouched, in every build, however often the weak exchange fails.
\<close>

theorem read_refines:
  assumes ok: "store_ok Q s" and i: "i \<in> issued_ids s"
  shows "refines Q s (read_with_timeout cfg spur i t s) (spec_read i t (abs_store s))"
  using assms by (rule read_step)

text \<open>
  \<open>RwStore::write_with_timeout\<close> refines the abstract write: it returns no guard exactly when
  the element is gone, takes the lock of an element on which there is none, and otherwise times
  out without effect, or waits when it may not time out.
\<close>

lemma write_step:
  assumes ok: "store_ok Q s" and i: "i \<in> issued_ids s"
  shows "refines Q s (write_with_timeout cfg spur i t s) (spec_write i t (abs_store s))"
  using assms
proof (cases rule: issued_cases)
  case (gone sl n r j)
  then show ?thesis
    by (intro refines_same [OF ok]) (simp_all add: write_with_timeout_eval spec_write_def)
next
  case (present n r v)
  have eval: "write_with_timeout cfg spur i t s =
    (if r = 0 then Value (Ok (Some (WriteLock i)), put_slot s (slot_address i)
         \<lparr>slot_header = pack True 2147483647 (ordinal i), slot_value = Some v\<rparr>)
     else case t of DontBlock \<Rightarrow> Value (Err TimedOut, s)
       | BlockUntil d \<Rightarrow> Value (Err TimedOut, put_slot s (slot_address i)
           \<lparr>slot_header = pack False r (ordinal i), slot_value = Some v\<rparr>)
       | BlockIndefinitely \<Rightarrow> Hang)"
    using present write_with_timeout_eval
      [OF present(1) _ present(2,4,5), where n = n and j = "ordinal i" and cfg = cfg and t = t]
    by (simp split: timeout.split)
  show ?thesis
  proof (cases "r = 0")
    case True
    then show ?thesis
      using present eval
      by (intro refines_present [OF ok present(5,4,1) _ present(3,2),
            where n' = True and r' = 2147483647])
        (simp_all add: spec_write_def)
  next
    case False
    have "refines Q s (Value (Err TimedOut, put_slot s (slot_address i)
          \<lparr>slot_header = pack False r (ordinal i), slot_value = Some v\<rparr>))
        (Value (Err TimedOut, (abs_store s)(i \<mapsto>
          (v, if r = 0 then Free else if r = 2147483647 then Writer else Readers r))))"
      by (rule refines_present [OF ok present(5,4,1) _ present(3,2), where n' = False and r' = r])
        (use False present(2) in simp_all)
    moreover have "(abs_store s)(i \<mapsto>
          (v, if r = 0 then Free else if r = 2147483647 then Writer else Readers r)) = abs_store s"
      using present(6) by (simp add: fun_upd_idem)
    moreover have "spec_write i t (abs_store s) = spec_wait t (abs_store s)"
      using False present(6) by (simp add: spec_write_def)
    ultimately show ?thesis
      using False ok eval
      by (cases t) (auto simp: spec_wait_def intro: refines_same refines_stop)
  qed
qed

section \<open>Removing\<close>

definition vacate :: "'q erasure_queue \<Rightarrow> elem_id \<Rightarrow> 'e option \<Rightarrow> ('e, 'q) store \<Rightarrow> ('e, 'q) store" where
  "vacate Q i m s =
     (let s' = put_slot s (slot_address i)
        \<lparr>slot_header = pack False 0 (ordinal i + 1), slot_value = m\<rparr> in
      if ordinal i + 1 \<noteq> RESERVED_ID then push_erasure Q i s' else s')"

lemma vacate_spec:
  assumes Q: "fifo Q" and ok: "store_ok Q s" and i: "id_store i = store_ident s"
    and sl: "cells (memory s) (slot_address i) = Some sl" "slot_header sl = pack n r (ordinal i)"
      "n \<or> 0 < r" "r < 2147483648" and res: "ordinal i \<noteq> RESERVED_ID"
  shows "store_ok Q (vacate Q i m s)" and "issued_ids (vacate Q i m s) = issued_ids s"
    and "abs_store (vacate Q i m s) = (abs_store s)(i := None)"
proof -
  let ?new = "\<lparr>slot_header = pack False 0 (ordinal i + 1), slot_value = m\<rparr>"
  let ?p = "slot_address i"
  let ?q = "if ordinal i + 1 \<noteq> RESERVED_ID then q_push Q ?p (erasures s) else erasures s"
  have eq: "vacate Q i m s = (put_slot s ?p ?new)\<lparr>erasures := ?q\<rparr>"
    by (simp add: vacate_def push_erasure_def put_slot_def Let_def)
  have t: "?p \<in> set (touched s)" using ok sl(1) by (rule occupied_touched) (use sl in simp)
  have "?p \<notin> set (q_items Q (erasures s))"
    using ok sl by (auto simp: store_ok_def slots_ok_def reusable_def)
  moreover have "distinct (q_items Q (erasures s))" using ok by (simp add: store_ok_def slots_ok_def)
  ultimately show "store_ok Q (vacate Q i m s)"
    unfolding eq using ok t
    by (intro put_slot_ok) (auto simp: slot_ok_def reusable_def fifo.push_last [OF Q])
  have "issued (pack False 0 (ordinal i + 1)) k \<longleftrightarrow> issued (slot_header sl) k" for k
  proof -
    have "k < ordinal i + 1 \<longleftrightarrow> k \<le> ordinal i"
      using less_next_id [of k "ordinal i"] less_next_id [of "ordinal i" "ordinal i"] res
      by (metis inc_le leD le_less_linear)
    then show ?thesis using sl by (auto simp: issued_def)
  qed
  then show "issued_ids (vacate Q i m s) = issued_ids s"
    unfolding eq by (simp add: issued_put_slot [OF t sl(1)])
  show "abs_store (vacate Q i m s) = (abs_store s)(i := None)"
  proof
    fix k
    have "k = i \<longleftrightarrow> ordinal k = ordinal i" if "slot_address k = ?p" "id_store k = store_ident s"
      using that i by (cases k; cases i) auto
    then show "abs_store (vacate Q i m s) k = ((abs_store s)(i := None)) k"
      using sl i unfolding eq
      by (auto simp: abs_put_slot slot_abs_def header_view_pack abs_store_def split: option.split)
  qed
qed

lemma remove_step:
  assumes Q: "fifo Q" and ok: "store_ok Q s" and i: "i \<in> issued_ids s"
  shows "refines Q s (remove_with_timeout cfg Q spur i t s) (spec_remove i t (abs_store s))"
  using ok i
proof (cases rule: issued_cases)
  case (gone sl n r j)
  then show ?thesis
    by (intro refines_same [OF ok]) (simp_all add: remove_with_timeout_eval spec_remove_def)
next
  case (present n r v)
  have eval: "remove_with_timeout cfg Q spur i t s =
    (if r = 0 then Value (Ok (Some v), vacate Q i (Some v) s)
     else case t of DontBlock \<Rightarrow> Value (Err TimedOut, s)
       | BlockUntil d \<Rightarrow> Value (Err TimedOut, put_slot s (slot_address i)
           \<lparr>slot_header = pack False r (ordinal i), slot_value = Some v\<rparr>)
       | BlockIndefinitely \<Rightarrow> Hang)"
    using present remove_with_timeout_eval
      [OF present(1) _ present(2,4,5), where n = n and j = "ordinal i" and cfg = cfg and t = t
        and v = v and Q = Q]
    by (simp add: vacate_def Let_def split: timeout.split)
  show ?thesis
  proof (cases "r = 0")
    case True
    then show ?thesis
      using vacate_spec [OF Q ok present(5,1) _ present(3,2,4)] present(6) eval
      by (simp add: refines_def spec_remove_def)
  next
    case False
    have "refines Q s (Value (Err TimedOut, put_slot s (slot_address i)
          \<lparr>slot_header = pack False r (ordinal i), slot_value = Some v\<rparr>))
        (Value (Err TimedOut, (abs_store s)(i \<mapsto>
          (v, if r = 0 then Free else if r = 2147483647 then Writer else Readers r))))"
      by (rule refines_present [OF ok present(5,4,1) _ present(3,2), where n' = False and r' = r])
        (use False present(2) in simp_all)
    moreover have "(abs_store s)(i \<mapsto>
          (v, if r = 0 then Free else if r = 2147483647 then Writer else Readers r)) = abs_store s"
      using present(6) by (simp add: fun_upd_idem)
    moreover have "spec_remove i t (abs_store s) = spec_wait t (abs_store s)"
      using False present(6) by (simp add: spec_remove_def)
    ultimately show ?thesis
      using False ok eval
      by (cases t) (auto simp: spec_wait_def intro: refines_same refines_stop)
  qed
qed

text \<open>
  C15. \<open>RwStore::remove_with_timeout\<close> refines the abstract remove: it takes out and returns the
  element exactly when it is present and not locked, returns nothing when it is gone, and
  otherwise times out without effect, or waits. The slot goes to the queue of reusable slots
  unless its IDs are exhausted, so that afterwards the queue again holds exactly the reusable
  slots, each once.
\<close>

theorem remove_refines:
  assumes Q: "fifo Q" and ok: "store_ok Q s" and i: "i \<in> issued_ids s"
  shows "refines Q s (remove_with_timeout cfg Q spur i t s) (spec_remove i t (abs_store s))"
  using assms by (rule remove_step)

section \<open>Guards\<close>

text \<open>
  A read guard gives access to the element it was taken for and is undone by dropping it:
  while an element has readers, \<open>deref\<close> yields the element, and dropping one guard, which never
  panics, leaves the element with one reader less and everything else as it was.
\<close>

lemma read_guard_step:
  assumes ok: "store_ok Q s" and i: "i \<in> issued_ids s"
    and a: "abs_store s i = Some (v, Readers k)"
  shows "read_lock_deref cfg (ReadLock i) (memory s) = Value v \<and>
    (\<exists>s'. drop_read_lock cfg spur (ReadLock i) s = Value s' \<and> store_ok Q s' \<and>
      issued_ids s' = issued_ids s \<and>
      abs_store s' = (abs_store s)(i \<mapsto> (v, if k = 1 then Free else Readers (k - 1))))"
  using ok i
proof (cases rule: issued_cases)
  case (gone sl n r j)
  with a show ?thesis by simp
next
  case (present n r u)
  then have r: "r = k" "0 < r" "r < 2147483647" "u = v" using a by (auto split: if_splits)
  have one: "k \<le> Suc 0 \<longleftrightarrow> k = Suc 0" using r by auto
  let ?s = "put_slot s (slot_address i)
    \<lparr>slot_header = pack (n \<or> r = 1) (r - 1) (ordinal i), slot_value = Some v\<rparr>"
  have "drop_read_lock cfg spur (ReadLock i) s = Value ?s"
    using present r unlock_read_match [of "r - 1" cfg spur "ordinal i" n]
    by (simp add: drop_read_lock_def read_lock_drop_def block_unlock_read_def put_slot_def one)
  moreover have "n \<or> r = 1 \<or> 0 < r - 1" using r by linarith
  then have "store_ok Q ?s" "issued_ids ?s = issued_ids s"
    "abs_store ?s = (abs_store s)(i \<mapsto> (v, if k = 1 then Free else Readers (k - 1)))"
    using put_present [OF ok present(5,4,1) _ present(3,2), where n' = "n \<or> r = 1" and r' = "r - 1"
        and v = v, OF _ _ _ refl] r by auto
  moreover have "read_lock_deref cfg (ReadLock i) (memory s) = Value v"
    using present r by (simp add: read_lock_deref_def block_get_unchecked_def read_element_def)
  ultimately show ?thesis by blast
qed

lemma write_guard_step:
  assumes Q: "fifo Q" and ok: "store_ok Q s" and i: "i \<in> issued_ids s"
    and a: "abs_store s i = Some (v, Writer)"
  shows "write_lock_deref cfg (WriteLock i) (memory s) = Value v \<and>
    (\<exists>h. write_lock_assign cfg (WriteLock i) v' (memory s) = Value h \<and>
      store_ok Q (s\<lparr>memory := h\<rparr>) \<and> issued_ids (s\<lparr>memory := h\<rparr>) = issued_ids s \<and>
      abs_store (s\<lparr>memory := h\<rparr>) = (abs_store s)(i \<mapsto> (v', Writer))) \<and>
    (\<exists>s'. drop_write_lock cfg (WriteLock i) s = Value s' \<and> store_ok Q s' \<and>
      issued_ids s' = issued_ids s \<and> abs_store s' = (abs_store s)(i \<mapsto> (v, Free))) \<and>
    (\<exists>s'. store_remove_locked cfg Q (WriteLock i) s = Value (v, s') \<and> store_ok Q s' \<and>
      issued_ids s' = issued_ids s \<and> abs_store s' = (abs_store s)(i := None))"
  using ok i
proof (cases rule: issued_cases)
  case (gone sl n r j)
  with a show ?thesis by simp
next
  case (present n r u)
  then have r: "r = 2147483647" "u = v" using a by (auto split: if_splits)
  note put = put_present [OF ok present(5,4,1) _ present(3,2), OF _ _ _ refl]
  let ?put = "\<lambda>m k w. put_slot s (slot_address i)
    \<lparr>slot_header = pack m k (ordinal i), slot_value = Some w\<rparr>"
  have "write_lock_deref cfg (WriteLock i) (memory s) = Value v"
    using present r by (simp add: write_lock_deref_def block_get_unchecked_def read_element_def)
  moreover have "write_lock_assign cfg (WriteLock i) v' (memory s) =
      Value (memory (?put n 2147483647 v'))"
    using present r
    by (simp add: write_lock_assign_def block_get_unchecked_def write_element_def put_slot_def)
  moreover have "drop_write_lock cfg (WriteLock i) s = Value (?put True 0 v)"
    using present r
    by (simp add: drop_write_lock_def write_lock_drop_def block_unlock_write_def unlock_write_eval
        put_slot_def)
  moreover have "store_remove_locked cfg Q (WriteLock i) s = Value (v, vacate Q i (Some v) s)"
    using present r
    by (simp add: store_remove_locked_def write_lock_forget_def assert_native_id_def
        debug_assert_holds block_remove_locked_def header_remove_locked_eval vacate_def put_slot_def
        Let_def)
  moreover note vacate_spec [OF Q ok present(5,1) _ present(3,2,4), of "Some v"]
    put [where n' = n and r' = 2147483647 and v = v']
    put [where n' = True and r' = 0 and v = v]
  ultimately show ?thesis by simp
qed

text \<open>While its element is locked, a guard prints the element.\<close>

lemma guard_fmt:
  assumes "store_ok Q s" and "i \<in> issued_ids s"
  shows "abs_store s i = Some (v, Readers k) \<Longrightarrow>
      read_lock_fmt cfg element_fmt (ReadLock i) f (memory s) = Value (element_fmt v f)"
    and "fifo Q \<Longrightarrow> abs_store s i = Some (v, Writer) \<Longrightarrow>
      write_lock_fmt cfg element_fmt (WriteLock i) f (memory s) = Value (element_fmt v f)"
  using read_guard_step [OF assms, of v k cfg] write_guard_step [OF _ assms, of v cfg]
  by (simp_all add: read_lock_fmt_def write_lock_fmt_def)

end
