(* ===== verification/RwInsert.thy ===== *)
theory RwInsert
  imports RwStoreSpec
begin

text \<open>
  Creating a store and inserting into it: every insert finds a slot that holds nothing, the ID it
  returns is new, and the abstract map gains exactly that entry. The theory also shows what the
  invariant says of \<open>get_mut\<close> and \<open>capacity\<close>, and that the bucket generator visits every bucket.
\<close>

section \<open>A new store\<close>

lemma store_new_ok:
  assumes "fifo Q" and "store_new cfg Q c = (s, c')"
  shows "store_ok Q s" and "issued_ids s = {}" and "abs_store s = Map.empty"
    and "buckets s = replicate BUCKET_COUNT (bucket_new (store_ident s))"
    and "store_ident s = fst (store_id_generate cfg c)"
proof -
  obtain sid c'' where sid: "store_id_generate cfg c = (sid, c'')" by (cases "store_id_generate cfg c")
  with assms(2) have s: "s = \<lparr>buckets = replicate BUCKET_COUNT (bucket_new sid),
      erasures = q_new Q, store_ident = sid, memory = \<lparr>cells = (\<lambda>_. None), allocations = 0\<rparr>\<rparr>"
    by (simp add: store_new_def)
  have empty: "concat (replicate n []) = []" for n by (induction n) simp_all
  then have t: "touched s = []" "untouched s = []" by (simp_all add: s touched_def untouched_def bucket_new_ok)
  have "frame_ok s" using t empty
    by (simp add: frame_ok_def s bucket_new_ok bases_allocated_def)
  with t show "store_ok Q s" by (simp add: store_ok_def slots_ok_def) (simp add: s fifo.new_empty [OF assms(1)])
  show "issued_ids s = {}" by (simp add: issued_ids_def t)
  show "abs_store s = Map.empty" by (rule ext) (simp add: abs_store_def s)
  show "buckets s = replicate BUCKET_COUNT (bucket_new (store_ident s))"
    "store_ident s = fst (store_id_generate cfg c)" by (simp_all add: s sid)
qed

section \<open>Occupying a slot that was handed out\<close>

text \<open>The invariant while slot \<open>p\<close> is neither in the queue nor occupied.\<close>

definition slots_ok_but :: "'q erasure_queue \<Rightarrow> address \<Rightarrow> ('e, 'q) store \<Rightarrow> bool" where
  "slots_ok_but Q p s \<longleftrightarrow>
     (\<forall>q \<in> set (untouched s). cells (memory s) q = Some fresh_slot) \<and>
     (\<forall>q \<in> set (touched s). \<forall>sl. cells (memory s) q = Some sl \<longrightarrow> slot_ok sl) \<and>
     distinct (q_items Q (erasures s)) \<and>
     (\<forall>q. q \<in> set (q_items Q (erasures s)) \<longleftrightarrow> q \<noteq> p \<and>
        q \<in> set (touched s) \<and> (\<exists>sl. cells (memory s) q = Some sl \<and> reusable sl))"

lemma occupy_slot:
  assumes frame: "frame_ok s" and slots: "slots_ok_but Q p s" and p: "p \<in> set (touched s)"
    and sl: "cells (memory s) p = Some sl" "slot_header sl = pack False 0 j" and j: "j \<noteq> RESERVED_ID"
  obtains h' where "block_insert cfg p e (store_ident s) (memory s) =
      Value (id_new j p (store_ident s), h')"
    and "store_ok Q (s\<lparr>memory := h'\<rparr>)"
    and "id_new j p (store_ident s) \<notin> issued_ids s"
    and "issued_ids (s\<lparr>memory := h'\<rparr>) = insert (id_new j p (store_ident s)) (issued_ids s)"
    and "abs_store (s\<lparr>memory := h'\<rparr>) = (abs_store s)(id_new j p (store_ident s) \<mapsto> (e, Free))"
proof -
  let ?i = "id_new j p (store_ident s)"
  let ?new = "\<lparr>slot_header = pack True 0 j, slot_value = Some e\<rparr>"
  let ?s = "put_slot s p ?new"
  have eq: "s\<lparr>memory := set_slot (memory s) p ?new\<rparr> = ?s" by (simp add: put_slot_def)
  have apart: "p \<notin> set (untouched s)" using store_distinct [OF frame] p by auto
  have "frame_ok ?s" using frame p by (auto simp: frame_ok_def bases_allocated_def)
  moreover have "slots_ok Q ?s"
    using slots p j apart
    by (auto simp: slots_ok_but_def slots_ok_def slot_ok_def reusable_def)
  ultimately have ok: "store_ok Q ?s" by (simp add: store_ok_def)
  have same: "k = ?i \<longleftrightarrow> ordinal k = j" if "slot_address k = p" "id_store k = store_ident s" for k
    using that by (cases k) (auto simp: id_new_def)
  have issued: "k \<in> issued_ids ?s \<longleftrightarrow> k = ?i \<or> k \<in> issued_ids s" for k
  proof (cases "slot_address k = p \<and> id_store k = store_ident s")
    case True
    then show ?thesis using p sl same [of k] by (auto simp: issued_ids_def issued_def)
  next
    case False
    then have "k \<noteq> ?i" by auto
    with False show ?thesis by (auto simp: issued_ids_def)
  qed
  have "abs_store ?s k = ((abs_store s)(?i \<mapsto> (e, Free))) k" for k
  proof (cases "slot_address k = p \<and> id_store k = store_ident s")
    case True
    then show ?thesis
      using sl same [of k]
      by (auto simp: abs_put_slot abs_store_def slot_abs_def header_view_pack split: option.split)
  next
    case False
    then have "k \<noteq> ?i" by auto
    with False show ?thesis by (auto simp: abs_put_slot)
  qed
  then have abs: "abs_store ?s = (abs_store s)(?i \<mapsto> (e, Free))" by (rule ext)
  show ?thesis
  proof (rule that)
    show "block_insert cfg p e (store_ident s) (memory s) = Value (?i, set_slot (memory s) p ?new)"
      using sl j by (rule block_insert_eval)
    show "?i \<notin> issued_ids s" using sl by (simp add: issued_ids_def issued_def)
    show "issued_ids (s\<lparr>memory := set_slot (memory s) p ?new\<rparr>) = insert ?i (issued_ids s)"
      unfolding eq using issued by blast
  qed (simp_all only: eq ok abs)
qed

section \<open>Slots for an insert\<close>

lemma old_cells:
  assumes "frame_ok s" and "cells (memory s) q = Some sl"
  shows "allocation q < allocations (memory s)"
proof -
  have "q \<in> set (untouched s) \<union> set (touched s)" using assms by (auto simp: frame_ok_def)
  then obtain b where b: "b \<in> set (buckets s)" "q \<in> set (untouched_slots b) \<union> set (touched_slots b)"
    by (auto simp: untouched_def touched_def)
  with assms(1) have "bucket_ok (store_ident s) b" "bases_allocated (memory s) b"
    by (auto simp: frame_ok_def)
  with slots_base [OF this(1) b(2)] show ?thesis by (simp add: bases_allocated_def)
qed

lemma hand_out_frame:
  assumes frame: "frame_ok s" and n: "n < length (buckets s)"
    and out: "hands_out (store_ident s) p (buckets s ! n) (memory s) b' h'"
    and fresh: "\<forall>q \<in> set (untouched s). cells (memory s) q = Some fresh_slot"
    and s': "s' = s\<lparr>buckets := (buckets s)[n := b'], memory := h'\<rparr>"
  shows "frame_ok s'" and "set (touched s') = insert p (set (touched s))" and "p \<notin> set (touched s)"
    and "\<forall>q \<in> set (untouched s'). cells h' q = Some fresh_slot"
    and "\<And>q sl. cells (memory s) q = Some sl \<Longrightarrow> cells h' q = Some sl"
    and "cells h' p = Some fresh_slot"
proof -
  define b where "b = buckets s ! n"
  obtain xs ys where bs: "buckets s = xs @ b # ys" "(buckets s)[n := b'] = xs @ b' # ys"
    using id_take_nth_drop [OF n] upd_conv_take_nth_drop [OF n, of b'] by (auto simp: b_def)
  note out = out [folded b_def, unfolded hands_out_def]
  have bs': "buckets s' = xs @ b' # ys" "memory s' = h'" "store_ident s' = store_ident s"
    by (simp_all add: s' bs(2))
  have all: "\<forall>c \<in> set (buckets s). bucket_ok (store_ident s) c \<and> settled c \<and> bases_allocated (memory s) c"
    and dist: "distinct (concat (map bases (buckets s)))"
    and dom: "dom (cells (memory s)) = set (untouched s) \<union> set (touched s)"
    using frame by (simp_all add: frame_ok_def)
  show old: "cells h' q = Some sl" if "cells (memory s) q = Some sl" for q sl
    using old_cells [OF frame that] out that by simp
  have sets: "set (touched s') = set (concat (map touched_slots (xs @ ys))) \<union> set (touched_slots b')"
    "set (touched s) = set (concat (map touched_slots (xs @ ys))) \<union> set (touched_slots b)"
    "set (untouched s') = set (concat (map untouched_slots (xs @ ys))) \<union> set (untouched_slots b')"
    "set (untouched s) = set (concat (map untouched_slots (xs @ ys))) \<union> set (untouched_slots b)"
    by (auto simp: touched_def untouched_def bs(1) bs')
  show touched: "set (touched s') = insert p (set (touched s))"
    using out by (auto simp: sets)
  show fresh': "\<forall>q \<in> set (untouched s'). cells h' q = Some fresh_slot"
    using fresh out old by (auto simp: sets untouched_fresh_def)
  show "cells h' p = Some fresh_slot" using out by simp
  have below: "\<forall>m \<in> set (concat (map bases (xs @ ys))). m < allocations (memory s)"
    using all by (auto simp: bs(1) bases_allocated_def)
  have "distinct (concat (map bases (xs @ b' # ys)))"
  proof -
    have "distinct (bases b')" using out by (simp add: bucket_ok_def)
    moreover have "m \<notin> set (concat (map bases (xs @ ys)))" if m: "m \<in> set (bases b')" for m
    proof
      assume rest: "m \<in> set (concat (map bases (xs @ ys)))"
      have "m \<in> set (bases b) \<or> allocations (memory s) \<le> m" using out m by blast
      with below rest have "m \<in> set (bases b)" by (meson leD)
      with dist rest show False by (auto simp: bs(1))
    qed
    ultimately show ?thesis using dist by (auto simp: bs(1))
  qed
  moreover have "dom (cells h') = set (untouched s') \<union> set (touched s')"
  proof -
    have "dom (cells (memory s)) \<subseteq> dom (cells h')" using old by blast
    then have "set (untouched_slots b) \<union> set (touched_slots b) \<subseteq> dom (cells h')"
      unfolding dom sets by blast
    moreover have "set (untouched_slots b) \<union> set (touched_slots b) \<subseteq>
        set (untouched_slots b') \<union> set (touched_slots b')"
      using out by auto
    moreover have "dom (cells h') \<union> set (untouched_slots b) \<union> set (touched_slots b) =
        dom (cells (memory s)) \<union> set (untouched_slots b') \<union> set (touched_slots b')"
      using out by simp
    ultimately show ?thesis by (auto simp: sets dom)
  qed
  moreover have "bases_allocated h' c" if "c \<in> set (xs @ ys)" for c
    using all that out unfolding bs(1) bases_allocated_def by (fastforce intro: less_le_trans)
  then have "\<forall>c \<in> set (xs @ b' # ys). bucket_ok (store_ident s) c \<and> settled c \<and> bases_allocated h' c"
    using all out by (auto simp: bs(1))
  moreover have "length (xs @ b' # ys) = BUCKET_COUNT"
    using frame by (simp add: frame_ok_def bs(1))
  ultimately show "frame_ok s'" by (simp only: frame_ok_def bs' simp_thms)
  show "p \<notin> set (touched s)"
  proof
    assume "p \<in> set (touched s)"
    moreover have "p \<notin> set (touched_slots b)"
      using slots_distinct [of "store_ident s" b'] out by auto
    ultimately obtain c where c: "c \<in> set (xs @ ys)" "p \<in> set (touched_slots c)"
      by (auto simp: sets)
    have "allocation p \<in> set (bases c)"
      using slots_base [of "store_ident s" c p] c all by (auto simp: bs(1))
    moreover have "allocation p \<in> set (bases b')"
      using slots_base [of "store_ident s" b' p] out by auto
    ultimately show False using \<open>distinct (concat (map bases (xs @ b' # ys)))\<close> c(1) by auto
  qed
qed

lemma slot_abs_fresh: "slot_abs n fresh_slot = None"
  by (simp add: slot_abs_def fresh_slot_def)

lemma hand_out_spec:
  fixes s :: "('e, 'q) store"
  assumes ok: "store_ok Q s" and n: "n < length (buckets s)"
    and out: "hands_out (store_ident s) p (buckets s ! n) (memory s) b' h'"
    and empty: "q_items Q (erasures s) = []"
    and s': "s' = s\<lparr>buckets := (buckets s)[n := b'], memory := h'\<rparr>"
  shows "frame_ok s'" and "slots_ok_but Q p s'" and "p \<in> set (touched s')"
    and "cells (memory s') p = Some fresh_slot" and "issued_ids s' = issued_ids s"
    and "abs_store s' = abs_store s"
proof -
  have frame: "frame_ok s" and fresh: "\<forall>q \<in> set (untouched s). cells (memory s) q = Some fresh_slot"
    using ok by (simp_all add: store_ok_def slots_ok_def)
  note hand = hand_out_frame [OF frame n out fresh s']
  have s's: "memory s' = h'" "erasures s' = erasures s" "store_ident s' = store_ident s"
    by (simp_all add: s')
  show "frame_ok s'" "p \<in> set (touched s')" "cells (memory s') p = Some fresh_slot"
    using hand(1,2,6) by (simp_all add: s's)
  have same: "cells h' q = cells (memory s) q" if q: "q \<in> set (touched s)" for q
  proof -
    from q frame have "q \<in> dom (cells (memory s))" by (simp add: frame_ok_def)
    then obtain sl where "cells (memory s) q = Some sl" by blast
    with hand(5) show ?thesis by metis
  qed
  have "\<not> reusable sl" if "q \<in> set (touched s)" "cells (memory s) q = Some sl" for q sl
    using ok empty that by (auto simp: store_ok_def slots_ok_def)
  moreover have "slot_ok sl" if "q \<in> set (touched s)" "cells (memory s) q = Some sl" for q sl
    using ok that by (auto simp: store_ok_def slots_ok_def)
  moreover have "slot_ok (fresh_slot :: 'e slot)" by (simp add: slot_ok_def fresh_slot_def bits_pack)
  ultimately show "slots_ok_but Q p s'"
    using hand(2,4,6) same empty by (auto simp: slots_ok_but_def s's)
  have "issued (slot_header (fresh_slot :: 'e slot)) k = False" for k
    by (simp add: issued_def fresh_slot_def bits_pack word_less_nat_alt)
  then show "issued_ids s' = issued_ids s"
    using hand(2,3,6) same by (auto simp: issued_ids_def s's)
  show "abs_store s' = abs_store s"
  proof
    fix k
    show "abs_store s' k = abs_store s k"
    proof (cases "cells (memory s) (slot_address k)")
      case (Some sl)
      with hand(5) show ?thesis by (simp add: abs_store_def s's)
    next
      case None
      have "sl = fresh_slot" if "cells h' (slot_address k) = Some sl" for sl
      proof -
        have "slot_address k \<in> set (untouched s') \<union> set (touched s')"
          using that hand(1) by (auto simp: frame_ok_def s's)
        moreover have "slot_address k \<notin> set (touched s)"
          using None frame by (auto simp: frame_ok_def)
        ultimately show ?thesis using hand(2,4,6) that by auto
      qed
      with None show ?thesis
        by (auto simp: abs_store_def s's slot_abs_fresh split: option.split)
    qed
  qed
qed

section \<open>Inserting\<close>

lemma arbitrary_bucket_id_less: "unat (fst (arbitrary_bucket_id lcg)) < BUCKET_COUNT"
  by (simp add: arbitrary_bucket_id_def BUCKET_COUNT_def Let_def unat_mod_distrib)

lemma insert_step:
  fixes s :: "('e, 'q) store"
  assumes Q: "fifo Q" and ok: "store_ok Q s" and room: "\<forall>b \<in> set (buckets s). room A b"
  shows "\<exists>i lcg' s'. store_insert cfg A Q lcg e s = Value (i, lcg', s') \<and> store_ok Q s' \<and>
    i \<notin> issued_ids s \<and> issued_ids s' = insert i (issued_ids s) \<and>
    abs_store s' = (abs_store s)(i \<mapsto> (e, Free))"
proof (cases rule: fifo.pop_cases [OF Q, of "erasures s"])
  case (2 p q')
  let ?s = "s\<lparr>erasures := q'\<rparr>"
  have p: "p \<in> set (q_items Q (erasures s))" by (simp add: 2)
  then obtain sl where sl: "p \<in> set (touched s)" "cells (memory s) p = Some sl" "reusable sl"
    using ok by (auto simp: store_ok_def slots_ok_def)
  obtain n r j where w: "slot_header sl = pack n r j" "r < 2147483648" by (rule word_cases)
  have hdr: "slot_header sl = pack False 0 j" "j \<noteq> RESERVED_ID"
    using sl(3) w by (simp_all add: reusable_def)
  have "frame_ok ?s" "slots_ok_but Q p ?s"
    using ok 2 by (auto simp: store_ok_def frame_ok_def slots_ok_def slots_ok_but_def)
  moreover have "p \<in> set (touched ?s)" "cells (memory ?s) p = Some sl" using sl by simp_all
  ultimately obtain h' where "block_insert cfg p e (store_ident ?s) (memory ?s) =
      Value (id_new j p (store_ident ?s), h')"
    and "store_ok Q (?s\<lparr>memory := h'\<rparr>)"
    and "id_new j p (store_ident ?s) \<notin> issued_ids ?s"
    and "issued_ids (?s\<lparr>memory := h'\<rparr>) = insert (id_new j p (store_ident ?s)) (issued_ids ?s)"
    and "abs_store (?s\<lparr>memory := h'\<rparr>) = (abs_store ?s)(id_new j p (store_ident ?s) \<mapsto> (e, Free))"
    using hdr by (rule occupy_slot)
  with 2 show ?thesis by (auto simp: store_insert_def)
next
  case 1
  obtain k lcg' where lcg: "arbitrary_bucket_id lcg = (k, lcg')" by fastforce
  have n: "unat k < length (buckets s)"
    using ok arbitrary_bucket_id_less [of lcg] lcg by (simp add: store_ok_def frame_ok_def)
  then have b: "buckets s ! unat k \<in> set (buckets s)" by simp
  with ok room have bs: "bucket_ok (store_ident s) (buckets s ! unat k)" "settled (buckets s ! unat k)"
      "room A (buckets s ! unat k)" "bases_allocated (memory s) (buckets s ! unat k)"
      "untouched_fresh (memory s) (buckets s ! unat k)"
    by (auto simp: store_ok_def frame_ok_def slots_ok_def untouched_fresh_def untouched_def)
  then obtain p b' h' where
      next': "next_insert_location cfg A (buckets s ! unat k) (memory s) = Value (p, b', h')"
      and out: "hands_out (store_ident s) p (buckets s ! unat k) (memory s) b' h'"
    by (rule next_insert_location_spec)
  let ?s = "s\<lparr>buckets := (buckets s)[unat k := b'], memory := h'\<rparr>"
  note hand = hand_out_spec [OF ok n out 1(2) refl]
  have "slot_header (fresh_slot :: 'e slot) = pack False 0 0" "(0 :: u32) \<noteq> RESERVED_ID"
    by (simp_all add: fresh_slot_def bits_pack RESERVED_ID_def)
  with hand(1,2,3,4) obtain h'' where "block_insert cfg p e (store_ident ?s) (memory ?s) =
      Value (id_new 0 p (store_ident ?s), h'')"
    and "store_ok Q (?s\<lparr>memory := h''\<rparr>)"
    and "id_new 0 p (store_ident ?s) \<notin> issued_ids ?s"
    and "issued_ids (?s\<lparr>memory := h''\<rparr>) = insert (id_new 0 p (store_ident ?s)) (issued_ids ?s)"
    and "abs_store (?s\<lparr>memory := h''\<rparr>) = (abs_store ?s)(id_new 0 p (store_ident ?s) \<mapsto> (e, Free))"
    by (rule occupy_slot)
  with hand(5,6) 1 lcg n next' show ?thesis by (auto simp: store_insert_def Let_def)
qed

text \<open>
  C14. \<open>RwStore::insert\<close> refines the insertion of a new entry: as long as every bucket has a free
  slot or memory to grow, it never panics, in any build; the ID it returns was never issued
  before, so it cannot alias the ID of a removed element whose slot is reused; the abstract store
  gains exactly the entry that maps this ID to the unlocked element; and the invariant holds
  again.
\<close>

theorem insert_refines:
  fixes s :: "('e, 'q) store"
  assumes Q: "fifo Q" and ok: "store_ok Q s" and room: "\<forall>b \<in> set (buckets s). room A b"
  shows "\<exists>i lcg' s'. store_insert cfg A Q lcg e s = Value (i, lcg', s') \<and> store_ok Q s' \<and>
    i \<notin> issued_ids s \<and> issued_ids s' = insert i (issued_ids s) \<and>
    abs_store s' = (abs_store s)(i \<mapsto> (e, Free))"
  using assms by (rule insert_step)

text \<open>Every operation that takes an ID checks, with debug assertions, that it is one of the store.\<close>

definition rejects :: "build \<Rightarrow> 'q erasure_queue \<Rightarrow> elem_id \<Rightarrow> ('e, 'q) store \<Rightarrow> bool" where
  "rejects cfg Q i s \<longleftrightarrow>
     (\<forall>spur t. read_with_timeout cfg spur i t s = Fault DebugAssertion \<and>
       write_with_timeout cfg spur i t s = Fault DebugAssertion \<and>
       remove_with_timeout cfg Q spur i t s = Fault DebugAssertion) \<and>
     store_remove_locked cfg Q (WriteLock i) s = Fault DebugAssertion \<and>
     store_get_mut cfg i s = Fault DebugAssertion \<and>
     store_get_mut_unchecked cfg i s = Fault DebugAssertion"

lemma foreign_rejected:
  "debug_assertions cfg \<Longrightarrow> id_store i \<noteq> store_ident s \<Longrightarrow> rejects cfg Q i s"
  by (auto simp: rejects_def read_with_timeout_def write_with_timeout_def remove_with_timeout_def
      store_remove_locked_def write_lock_forget_def store_get_mut_def store_get_mut_unchecked_def
      assert_native_id_def debug_assert_def)

text \<open>
  C32. A new store is empty: it satisfies the invariant, has issued no ID and holds no element; and
  with debug assertions stores created one after the other have different identities, and every
  operation of one that is called with an ID of the other panics before it touches memory.
\<close>

theorem store_new_empty:
  assumes "fifo Q" and "store_new cfg Q c = (s, c')" and "store_new cfg Q c' = (s2, c'')"
  shows "store_ok Q s \<and> issued_ids s = {} \<and> abs_store s = Map.empty \<and>
    (debug_assertions cfg \<longrightarrow> store_ident s \<noteq> store_ident s2 \<and>
      (\<forall>i. id_store i = store_ident s \<longrightarrow> rejects cfg Q i s2) \<and>
      (\<forall>i. id_store i = store_ident s2 \<longrightarrow> rejects cfg Q i s))"
proof -
  have "store_ident s = fst (store_id_generate cfg c)"
    "store_ident s2 = fst (store_id_generate cfg c')"
    using store_new_ok(5) [OF assms(1)] assms(2,3) by metis+
  moreover have "debug_assertions cfg \<Longrightarrow> c' = c + 1"
    using assms(2) by (auto simp: store_new_def store_id_generate_def)
  ultimately have ident: "debug_assertions cfg \<Longrightarrow> store_ident s \<noteq> store_ident s2"
    by (simp add: store_id_generate_def)
  then show ?thesis
    using store_new_ok(1-3) [OF assms(1,2)] foreign_rejected [of cfg _ s Q]
      foreign_rejected [of cfg _ s2 Q] by metis
qed

section \<open>Exclusive access\<close>

text \<open>
  \<open>RwStore::get_mut\<close> finds exactly the elements that are present: for an ID the store has
  issued it returns a pointer if and only if the element has not been removed, whatever locks
  are still held on it (guards may have been forgotten), and that pointer reads the element; it
  never panics.
\<close>

lemma get_mut_step:
  assumes ok: "store_ok Q s" and i: "i \<in> issued_ids s"
  shows "store_get_mut cfg i s =
      Value (case abs_store s i of None \<Rightarrow> None | Some _ \<Rightarrow> Some (slot_address i)) \<and>
    (\<forall>v l. abs_store s i = Some (v, l) \<longrightarrow>
      store_get_mut_unchecked cfg i s = Value (slot_address i) \<and>
      read_element (memory s) (slot_address i) = Value v)"
  using ok i
proof (cases rule: issued_cases)
  case (gone sl n r j)
  then show ?thesis
    by (simp add: store_get_mut_def assert_native_id_def debug_assert_holds block_get_exclusive_def
        header_id_def)
next
  case (present n r v)
  then show ?thesis
    by (simp add: store_get_mut_def store_get_mut_unchecked_def assert_native_id_def
        debug_assert_holds block_get_exclusive_def block_get_unchecked_def header_id_def
        read_element_def)
qed

section \<open>Capacity\<close>

lemma sum_capacity_spec:
  assumes "\<forall>b \<in> set bs. bucket_ok sid b \<and> settled b \<and> depth b < 32"
    and "unat (fst totals) + length (concat (map touched_slots bs)) < 2 ^ 32"
    and "unat (snd totals) + length (concat (map (\<lambda>b. untouched_slots b @ touched_slots b) bs)) < 2 ^ 32"
  shows "\<exists>t a. sum_capacity cfg bs totals = Value (t, a) \<and>
    unat t = unat (fst totals) + length (concat (map touched_slots bs)) \<and>
    unat a = unat (snd totals) + length (concat (map (\<lambda>b. untouched_slots b @ touched_slots b) bs))"
  using assms
proof (induction bs arbitrary: totals)
  case Nil
  then show ?case by (cases totals) simp
next
  case (Cons b bs)
  obtain t a where cap: "bucket_capacity cfg b = Value (t, a)"
      "unat t = length (touched_slots b)" "unat a = length (untouched_slots b @ touched_slots b)"
    using Cons.prems(1) by (auto elim: bucket_capacity_spec [of sid b cfg])
  have add: "checked_add cfg x y = Value (x + y) \<and> unat (x + y) = unat x + unat y"
    if "unat x + unat y < 2 ^ LENGTH(32)" for x y :: u32
    using that unat_add_lem [of x y] by (simp add: checked_add_ok)
  let ?t = "fst totals + t" and ?a = "snd totals + a"
  have t: "checked_add cfg (fst totals) t = Value ?t" "unat ?t = unat (fst totals) + unat t"
    and a: "checked_add cfg (snd totals) a = Value ?a" "unat ?a = unat (snd totals) + unat a"
    using add [of "fst totals" t] add [of "snd totals" a] Cons.prems(2,3) cap(2,3) by auto
  have "\<exists>t' a'. sum_capacity cfg bs (?t, ?a) = Value (t', a') \<and>
      unat t' = unat ?t + length (concat (map touched_slots bs)) \<and>
      unat a' = unat ?a + length (concat (map (\<lambda>b. untouched_slots b @ touched_slots b) bs))"
    using Cons.IH [of "(?t, ?a)"] Cons.prems t(2) a(2) cap by simp
  then show ?case using cap t a by auto
qed

lemma length_concat_append:
  "length (concat (map (\<lambda>b. f b @ g b) bs)) = length (concat (map f bs)) + length (concat (map g bs))"
  by (induction bs) simp_all

text \<open>
  \<open>RwStore::capacity\<close> is exact when nothing runs concurrently: provided no bucket has grown to
  its largest block and the totals fit in 32 bits, it does not panic in any build, and returns
  the number of slots that were ever handed out and the number of slots allocated.
\<close>

lemma capacity_exact:
  assumes ok: "store_ok Q s" and "\<forall>b \<in> set (buckets s). depth b < 32"
    and "length (untouched s) + length (touched s) < 2 ^ 32"
  shows "\<exists>t a. store_capacity cfg s = Value (t, a) \<and> unat t = length (touched s) \<and>
    unat a = length (untouched s) + length (touched s)"
proof -
  have "\<forall>b \<in> set (buckets s). bucket_ok (store_ident s) b \<and> settled b \<and> depth b < 32"
    using ok assms(2) by (auto simp: store_ok_def frame_ok_def)
  from sum_capacity_spec [OF this, of "(0, 0)" cfg] assms(3) show ?thesis
    by (simp add: store_capacity_def length_concat_append touched_def untouched_def)
qed

section \<open>The bucket generator\<close>

primrec bucket_draws :: "nat \<Rightarrow> u32 \<Rightarrow> u32 list" where
  "bucket_draws 0 lcg = []"
| "bucket_draws (Suc n) lcg =
     (case arbitrary_bucket_id lcg of (k, lcg') \<Rightarrow> k # bucket_draws n lcg')"

text \<open>The generator on the residues modulo 16 that pick the bucket.\<close>

primrec residue_draws :: "nat \<Rightarrow> nat \<Rightarrow> nat list" where
  "residue_draws 0 x = []"
| "residue_draws (Suc n) x = (let y = (13 * x + 9) mod 16 in y # residue_draws n y)"

lemma bucket_draws_residues: "map unat (bucket_draws n lcg) = residue_draws n (unat lcg mod 16)"
proof (induction n arbitrary: lcg)
  case (Suc n)
  let ?next = "lcg * 1103515245 + 12345"
  have "unat ?next = (unat (lcg * 1103515245) + unat (12345 :: u32)) mod 2 ^ LENGTH(32)"
    by (rule unat_word_ariths)
  also have "unat (lcg * 1103515245) = unat lcg * unat (1103515245 :: u32) mod 2 ^ LENGTH(32)"
    by (rule unat_word_ariths)
  finally have "unat ?next = (unat lcg * 1103515245 + 12345) mod 2 ^ 32"
    by (simp add: mod_add_left_eq)
  moreover have "(16 :: nat) dvd 2 ^ 32" by simp
  ultimately have "unat ?next mod 16 = (unat lcg * 1103515245 + 12345) mod 16"
    by (simp only: mod_mod_cancel)
  also have "unat lcg * 1103515245 + 12345 = 16 * (68969702 * unat lcg + 771) + (13 * unat lcg + 9)"
    by simp
  also have "\<dots> mod 16 = (13 * unat lcg + 9) mod 16" by (rule mod_mult_self4)
  also have "\<dots> = (13 * (unat lcg mod 16) + 9) mod 16"
    by (metis mod_add_left_eq mod_mult_right_eq)
  finally have "unat ?next mod 16 = (13 * (unat lcg mod 16) + 9) mod 16" .
  then show ?case
    using Suc.IH [of ?next] by (simp add: arbitrary_bucket_id_def BUCKET_COUNT_def Let_def unat_mod_distrib)
qed simp

lemma residue_draws_numeral: "residue_draws (numeral k) x =
    (13 * x + 9) mod 16 # residue_draws (pred_numeral k) ((13 * x + 9) mod 16)"
  unfolding numeral_eq_Suc [of k] by (simp only: residue_draws.simps Let_def)

lemma residue_cycle: "x < 16 \<Longrightarrow> distinct (residue_draws 16 x)"
proof -
  assume "x < 16"
  then have "x = 0 \<or> x = 1 \<or> x = 2 \<or> x = 3 \<or> x = 4 \<or> x = 5 \<or> x = 6 \<or> x = 7 \<or>
      x = 8 \<or> x = 9 \<or> x = 10 \<or> x = 11 \<or> x = 12 \<or> x = 13 \<or> x = 14 \<or> x = 15"
    by presburger
  then show ?thesis by (elim disjE; simp add: residue_draws_numeral)
qed

text \<open>
  The pseudo-random choice of a bucket is fair over every sixteen draws: from any state of a
  thread's generator, sixteen consecutive inserts into new slots go to sixteen different
  buckets, so each bucket is chosen exactly once.
\<close>

theorem bucket_draws_cycle:
  "distinct (bucket_draws 16 lcg) \<and> unat ` set (bucket_draws 16 lcg) = {..<BUCKET_COUNT}"
proof -
  have "distinct (residue_draws 16 (unat lcg mod 16))" using residue_cycle by simp
  then have dist: "distinct (map unat (bucket_draws 16 lcg))" by (simp only: bucket_draws_residues)
  have len: "length (bucket_draws n l) = n" for n l
    by (induction n arbitrary: l) (simp_all split: prod.split)
  have small: "unat ` set (bucket_draws n l) \<subseteq> {..<BUCKET_COUNT}" for n l
  proof (induction n arbitrary: l)
    case (Suc n)
    obtain k l' where "arbitrary_bucket_id l = (k, l')" by fastforce
    then show ?case using Suc.IH [of l'] arbitrary_bucket_id_less [of l] by simp
  qed simp
  have "card (unat ` set (bucket_draws 16 lcg)) = 16"
    using distinct_card [OF dist] by (simp add: len)
  then have "unat ` set (bucket_draws 16 lcg) = {..<BUCKET_COUNT}"
    using small by (intro card_subset_eq) (simp_all add: BUCKET_COUNT_def)
  with dist show ?thesis by (simp add: distinct_map)
qed

end
