(* ===== verification/RwIter.thy ===== *)
theory RwIter
  imports RwInsert
begin

text \<open>
  The iterators (\<open>src/src/iter.rs\<close>): \<open>IntoIter\<close> and \<open>IterMut\<close> are one generic iterator over a
  block tracker, which takes the contents of a slot: the owned tracker moves the element out and
  drops each block that it leaves, the mutable one borrows. The trait \<open>BlockTracker\<close> is a record
  of the model; its contract is the locale \<open>block_tracker\<close>, interpreted for both trackers of the
  source. A \<open>next\<close> also returns the list of the elements that were dropped on the way.
\<close>

section \<open>The trackers\<close>

text \<open>
  \<open>BlockTracker::next\<close> moves to the block's \<open>next\<close> field in both trackers; \<open>tr_leave\<close> is what
  happens to the block that is left.
\<close>

record ('e, 'item) tracker =
  tr_take :: "block \<Rightarrow> u32 \<Rightarrow> 'e heap \<Rightarrow> ('item option \<times> 'e heap) outcome"
  tr_leave :: "block \<Rightarrow> 'e heap \<Rightarrow> ('e list \<times> 'e heap) outcome"

definition free_block :: "nat \<Rightarrow> 'e heap \<Rightarrow> 'e heap" where
  "free_block n h = h\<lparr>cells := (\<lambda>p. if allocation p = n then None else cells h p)\<rparr>"

text \<open>\<open>Block::into_next\<close> takes \<open>next\<close> out of the block and drops the rest of it.\<close>

definition block_into_next ::
  "build \<Rightarrow> platform \<Rightarrow> bool \<Rightarrow> block \<Rightarrow> 'e heap \<Rightarrow> ('e list \<times> 'e heap) outcome" where
  "block_into_next cfg A panicking b h =
     omap (\<lambda>d. (d, free_block (block_base b) h))
       (block_drop cfg A panicking (Block None (block_store b) (block_base b) (block_len b)) h)"

definition owned_tracker :: "build \<Rightarrow> platform \<Rightarrow> bool \<Rightarrow> ('e, elem_id \<times> 'e) tracker" where
  "owned_tracker cfg A panicking =
     \<lparr>tr_take = block_take cfg, tr_leave = block_into_next cfg A panicking\<rparr>"

text \<open>The borrowed element is the address it lives at; \<open>next_mut\<close> leaves the block alone.\<close>

definition mut_tracker :: "build \<Rightarrow> ('e, elem_id \<times> address) tracker" where
  "mut_tracker cfg =
     \<lparr>tr_take = (\<lambda>b slot h. omap (\<lambda>r. (r, h)) (block_slot_contents cfg b slot h)),
      tr_leave = (\<lambda>b h. Value ([], h))\<rparr>"

section \<open>Iterating over a bucket\<close>

record bucket_iter =
  last_slot :: u32
  current_block :: "block option"

definition tracked_len :: "block option \<Rightarrow> u32" where
  "tracked_len current = (case current of None \<Rightarrow> 0 | Some b \<Rightarrow> block_len b)"

definition bucket_iter_new :: "u32 \<Rightarrow> block option \<Rightarrow> bucket_iter" where
  "bucket_iter_new l current =
     (let max_last_slot = tracked_len current in
      \<lparr>last_slot = min l max_last_slot, current_block = current\<rparr>)"

function bucket_iter_next ::
  "build \<Rightarrow> ('e, 'item) tracker \<Rightarrow> bucket_iter \<Rightarrow> 'e heap \<Rightarrow>
    (('item option \<times> 'e list) \<times> bucket_iter \<times> 'e heap) outcome" where
  "bucket_iter_next cfg tr it h =
     (if last_slot it = 0 then
        (case current_block it of
           None \<Rightarrow> Value ((None, []), it, h)
         | Some old_block \<Rightarrow>
             obind (tr_leave tr old_block h) (\<lambda>(d, h').
               let new_block = block_next old_block;
                   new_block_size = tracked_len new_block;
                   it' = \<lparr>last_slot = new_block_size, current_block = new_block\<rparr> in
               omap (\<lambda>((r, d'), rest). ((r, d @ d'), rest)) (bucket_iter_next cfg tr it' h')))
      else
        obind (unwrap_debug_checked cfg (current_block it)) (\<lambda>current.
          let slot = last_slot it - 1; it' = \<lparr>last_slot = slot, current_block = Some current\<rparr> in
          obind (tr_take tr current slot h) (\<lambda>(contents, h').
            case contents of
              Some result \<Rightarrow> Value ((Some result, []), it', h')
            | None \<Rightarrow> bucket_iter_next cfg tr it' h')))"
  by pat_completeness auto

termination
proof (relation "(\<lambda>(cfg, tr, it, h). case current_block it of None \<Rightarrow> 0 | Some b \<Rightarrow> block_depth b)
    <*mlex*> measure (\<lambda>(cfg, tr, it, h). unat (last_slot it))", goal_cases)
  case 1
  show ?case by (intro wf_mlex) simp
next
  case (2 cfg tr it h b)
  then show ?case by (cases b) (auto intro!: mlex_less split: option.split)
next
  case (3 cfg tr it h b)
  then have "current_block it = Some b"
    by (auto simp: unwrap_debug_checked_def split: option.splits)
  with 3 show ?case
    by (intro mlex_leq) (auto simp: unat_minus_one unat_gt_0)
qed

declare bucket_iter_next.simps [simp del]

definition bucket_iter_size_hint :: "build \<Rightarrow> bucket_iter \<Rightarrow> (u64 \<times> u64 option) outcome" where
  "bucket_iter_size_hint cfg it =
     (let current_block_size = tracked_len (current_block it) in
      obind (head_size_to_total_size cfg current_block_size) (\<lambda>allocated_size.
      obind (checked_sub cfg current_block_size (last_slot it)) (\<lambda>unvisited.
      obind (checked_sub cfg allocated_size unvisited) (\<lambda>touched_size.
        Value (0, Some (ucast touched_size))))))"

section \<open>Iterating over all buckets\<close>

type_synonym gen_iter = "bucket_iter list"

function gen_iter_next ::
  "build \<Rightarrow> ('e, 'item) tracker \<Rightarrow> gen_iter \<Rightarrow> 'e heap \<Rightarrow>
    (('item option \<times> 'e list) \<times> gen_iter \<times> 'e heap) outcome" where
  "gen_iter_next cfg tr iters h =
     (if iters = [] then Value ((None, []), iters, h)
      else
        obind (bucket_iter_next cfg tr (last iters) h) (\<lambda>((r, d), it', h').
          case r of
            Some result \<Rightarrow> Value ((Some result, d), butlast iters @ [it'], h')
          | None \<Rightarrow>
              omap (\<lambda>((r', d'), rest). ((r', d @ d'), rest))
                (gen_iter_next cfg tr (butlast iters) h')))"
  by pat_completeness auto
termination by (relation "measure (\<lambda>(cfg, tr, iters, h). length iters)") auto

declare gen_iter_next.simps [simp del]

text \<open>The loop of \<open>GenIter::size_hint\<close>; the totals are \<open>usize\<close>.\<close>

primrec sum_size_hints ::
  "build \<Rightarrow> gen_iter \<Rightarrow> u64 \<times> u64 option \<Rightarrow> (u64 \<times> u64 option) outcome" where
  "sum_size_hints cfg [] totals = Value totals"
| "sum_size_hints cfg (it # iters) totals =
     obind (bucket_iter_size_hint cfg it) (\<lambda>(lower, upper).
     obind (checked_add cfg (fst totals) lower) (\<lambda>total_lower.
     obind (case (snd totals, upper) of
              (Some a, Some b) \<Rightarrow> omap Some (checked_add cfg a b)
            | _ \<Rightarrow> Value None) (\<lambda>total_upper.
       sum_size_hints cfg iters (total_lower, total_upper))))"

definition gen_iter_size_hint :: "build \<Rightarrow> gen_iter \<Rightarrow> (u64 \<times> u64 option) outcome" where
  "gen_iter_size_hint cfg iters = sum_size_hints cfg iters (0, Some 0)"

section \<open>The iterators of a store\<close>

definition into_iter_new :: "('e, 'q) store \<Rightarrow> gen_iter" where
  "into_iter_new s =
     map (\<lambda>b. bucket_iter_new (into_inner (next_unused_slot b)) (head b)) (buckets s)"

definition iter_mut_new :: "('e, 'q) store \<Rightarrow> gen_iter" where
  "iter_mut_new s =
     map (\<lambda>b. bucket_iter_new (load_directly (next_unused_slot b)) (head b)) (buckets s)"

definition into_iter_next ::
  "build \<Rightarrow> platform \<Rightarrow> bool \<Rightarrow> gen_iter \<Rightarrow> 'e heap \<Rightarrow>
    (((elem_id \<times> 'e) option \<times> 'e list) \<times> gen_iter \<times> 'e heap) outcome" where
  "into_iter_next cfg A panicking iters h = gen_iter_next cfg (owned_tracker cfg A panicking) iters h"

definition iter_mut_next ::
  "build \<Rightarrow> gen_iter \<Rightarrow> 'e heap \<Rightarrow>
    (((elem_id \<times> address) option \<times> 'e list) \<times> gen_iter \<times> 'e heap) outcome" where
  "iter_mut_next cfg iters h = gen_iter_next cfg (mut_tracker cfg) iters h"

definition into_iter_size_hint :: "build \<Rightarrow> gen_iter \<Rightarrow> (u64 \<times> u64 option) outcome" where
  "into_iter_size_hint cfg iters = gen_iter_size_hint cfg iters"

definition iter_mut_size_hint :: "build \<Rightarrow> gen_iter \<Rightarrow> (u64 \<times> u64 option) outcome" where
  "iter_mut_size_hint cfg iters = gen_iter_size_hint cfg iters"

text \<open>\<open>RwStore::into_iter\<close> and \<open>RwStore::iter_mut\<close>.\<close>

definition store_into_iter :: "('e, 'q) store \<Rightarrow> gen_iter" where
  "store_into_iter s = into_iter_new s"

definition store_iter_mut :: "('e, 'q) store \<Rightarrow> gen_iter" where
  "store_iter_mut s = iter_mut_new s"

text \<open>Dropping an \<open>IntoIter\<close> drops the blocks it has not left yet.\<close>

primrec into_iter_drop ::
  "build \<Rightarrow> platform \<Rightarrow> bool \<Rightarrow> gen_iter \<Rightarrow> 'e heap \<Rightarrow> 'e list outcome" where
  "into_iter_drop cfg A panicking [] h = Value []"
| "into_iter_drop cfg A panicking (it # iters) h =
     obind (case current_block it of None \<Rightarrow> Value [] | Some b \<Rightarrow> block_drop cfg A panicking b h) (\<lambda>d.
       omap ((@) d) (into_iter_drop cfg A panicking iters h))"

end
