(* ===== verification/RwIterSpec.thy ===== *)
theory RwIterSpec
  imports RwIter
begin

text \<open>
  The contract of a block tracker as a locale, and what an iterator over any tracker that meets
  it does: it yields the entries of the slots that were handed out, from the newest block to the
  oldest, each once.
\<close>

section \<open>The slots and entries an iterator has still to visit\<close>

definition iter_slots :: "bucket_iter \<Rightarrow> address list" where
  "iter_slots it =
     (case current_block it of None \<Rightarrow> []
      | Some b \<Rightarrow> block_slots b (rev [0..<unat (last_slot it)]) @
          chain_slots (block_depth b - 1) (block_next b))"

definition iter_bases :: "bucket_iter \<Rightarrow> nat list" where
  "iter_bases it =
     (case current_block it of None \<Rightarrow> [] | Some b \<Rightarrow> chain_bases (block_depth b) (Some b))"

definition slot_entry ::
  "(elem_id \<Rightarrow> 'e \<Rightarrow> 'item) \<Rightarrow> store_id \<Rightarrow> 'e heap \<Rightarrow> address \<Rightarrow> 'item list" where
  "slot_entry item sid h p =
     (case cells h p of
        None \<Rightarrow> []
      | Some sl \<Rightarrow>
          if is_occupied (slot_header sl)
          then [item (id_new (id_from_bits (slot_header sl)) p sid) (the (slot_value sl))] else [])"

definition entries ::
  "(elem_id \<Rightarrow> 'e \<Rightarrow> 'item) \<Rightarrow> store_id \<Rightarrow> 'e heap \<Rightarrow> address list \<Rightarrow> 'item list" where
  "entries item sid h ps = concat (map (slot_entry item sid h) ps)"

lemma entries_simps [simp]:
  "entries item sid h [] = []"
  "entries item sid h (p # ps) = slot_entry item sid h p @ entries item sid h ps"
  "entries item sid h (ps @ qs) = entries item sid h ps @ entries item sid h qs"
  by (simp_all add: entries_def)

lemma entries_cong:
  "(\<And>p. p \<in> set ps \<Longrightarrow> cells h' p = cells h p) \<Longrightarrow> entries item sid h' ps = entries item sid h ps"
  by (induction ps) (simp_all add: slot_entry_def)

text \<open>
  Every slot to visit is \<open>good\<close> for the tracker, and every slot of the current block that was
  already visited (or never handed out) may be \<open>left\<close>.
\<close>

definition iter_ok ::
  "('e slot \<Rightarrow> bool) \<Rightarrow> ('e slot \<Rightarrow> bool) \<Rightarrow> store_id \<Rightarrow> 'e heap \<Rightarrow> bucket_iter \<Rightarrow> bool" where
  "iter_ok good left sid h it \<longleftrightarrow>
     (case current_block it of
        None \<Rightarrow> last_slot it = 0
      | Some b \<Rightarrow>
          block_depth b \<le> 32 \<and> chain_ok sid (block_depth b) (Some b) \<and>
          distinct (chain_bases (block_depth b) (Some b)) \<and> last_slot it \<le> block_len b \<and>
          (\<forall>p \<in> set (block_slots b [unat (last_slot it)..<unat (block_len b)]).
             \<exists>sl. cells h p = Some sl \<and> left sl)) \<and>
     (\<forall>p \<in> set (iter_slots it). \<exists>sl. cells h p = Some sl \<and> good sl)"

text \<open>What a step of a bucket's iterator must do.\<close>

definition next_ok ::
  "(elem_id \<Rightarrow> 'e \<Rightarrow> 'item) \<Rightarrow> ('e slot \<Rightarrow> bool) \<Rightarrow> ('e slot \<Rightarrow> bool) \<Rightarrow> store_id \<Rightarrow>
    'e heap \<Rightarrow> bucket_iter \<Rightarrow> (('item option \<times> 'e list) \<times> bucket_iter \<times> 'e heap) outcome \<Rightarrow> bool" where
  "next_ok item good left sid h it m \<longleftrightarrow>
     (\<exists>r it' h'. m = Value ((r, []), it', h') \<and> iter_ok good left sid h' it' \<and>
        set (iter_bases it') \<subseteq> set (iter_bases it) \<and>
        (\<forall>q. allocation q \<notin> set (iter_bases it) \<longrightarrow> cells h' q = cells h q) \<and>
        (case r of
           None \<Rightarrow> entries item sid h (iter_slots it) = [] \<and> current_block it' = None
         | Some x \<Rightarrow> entries item sid h (iter_slots it) = x # entries item sid h' (iter_slots it')))"

lemma next_ok_trans:
  assumes "next_ok item good left sid h' it' m"
    and "entries item sid h (iter_slots it) = entries item sid h' (iter_slots it')"
    and "set (iter_bases it') \<subseteq> set (iter_bases it)"
    and "\<And>q. allocation q \<notin> set (iter_bases it) \<Longrightarrow> cells h' q = cells h q"
  shows "next_ok item good left sid h it m"
  using assms unfolding next_ok_def by (fastforce split: option.splits)

lemma iter_ok_block:
  assumes ok: "iter_ok good left sid h it" and b: "current_block it = Some b"
  obtains k where "k < 32" and "block_depth b = Suc k" and "block_len b = 2 ^ k"
    and "unat (block_len b) = 2 ^ k" and "block_store b = sid" and "chain_ok sid k (block_next b)"
    and "unat (last_slot it) \<le> 2 ^ k" and "distinct (chain_bases (Suc k) (Some b))"
    and "distinct (block_slots b (rev [0..<2 ^ k]) @ chain_slots k (block_next b))"
    and "iter_slots it = block_slots b (rev [0..<unat (last_slot it)]) @ chain_slots k (block_next b)"
    and "iter_bases it = block_base b # chain_bases k (block_next b)"
proof -
  obtain k where k: "block_depth b = Suc k" by (cases b) simp
  have facts: "k < 32" "block_len b = 2 ^ k" "block_store b = sid" "chain_ok sid k (block_next b)"
      "chain_ok sid (Suc k) (Some b)" "distinct (chain_bases (Suc k) (Some b))" "last_slot it \<le> block_len b"
    using ok b by (auto simp: iter_ok_def k)
  moreover have "unat (block_len b) = 2 ^ k" using facts by (simp add: unat_exp)
  moreover from this have "unat (last_slot it) \<le> 2 ^ k" using facts(7) by (simp add: word_le_nat_alt)
  moreover have "distinct (chain_slots (Suc k) (Some b))"
    using facts by (intro chain_slots_distinct [of sid]) simp_all
  ultimately show ?thesis
    using that k b by (simp add: iter_slots_def iter_bases_def)
qed

lemma block_slots_all:
  assumes "k < 32" and "block_len b = 2 ^ k"
  shows "set (block_slots b [0..<2 ^ k]) = {Address (block_base b) j |j. j < unat (block_len b)}"
proof -
  have len: "unat (block_len b) = 2 ^ k" using assms by (simp add: unat_exp)
  have "set (block_slots b [0..<2 ^ k]) = Address (block_base b) ` (scrambled k ` {..<2 ^ k})"
    by (auto simp: block_slots_def len scrambled_def image_image atLeast0LessThan)
  then show ?thesis unfolding scrambled_image by (auto simp: len)
qed

text \<open>The same for the iterator over all buckets, which starts with the last one.\<close>

definition gen_slots :: "gen_iter \<Rightarrow> address list" where
  "gen_slots iters = concat (map iter_slots (rev iters))"

definition gen_bases :: "gen_iter \<Rightarrow> nat list" where
  "gen_bases iters = concat (map iter_bases iters)"

definition gen_ok ::
  "('e slot \<Rightarrow> bool) \<Rightarrow> ('e slot \<Rightarrow> bool) \<Rightarrow> store_id \<Rightarrow> 'e heap \<Rightarrow> gen_iter \<Rightarrow> bool" where
  "gen_ok good left sid h iters \<longleftrightarrow>
     (\<forall>it \<in> set iters. iter_ok good left sid h it) \<and> distinct (gen_bases iters)"

text \<open>A caller that calls \<open>next\<close> \<open>n\<close> times, whatever it returns.\<close>

primrec calls ::
  "('i \<Rightarrow> 'e heap \<Rightarrow> (('r \<times> 'e list) \<times> 'i \<times> 'e heap) outcome) \<Rightarrow> nat \<Rightarrow> 'i \<Rightarrow> 'e heap \<Rightarrow>
    (('r list \<times> 'e list) \<times> 'i \<times> 'e heap) outcome" where
  "calls f 0 it h = Value (([], []), it, h)"
| "calls f (Suc n) it h =
     obind (f it h) (\<lambda>((r, d), it', h').
       omap (\<lambda>((rs, ds), rest). ((r # rs, d @ ds), rest)) (calls f n it' h'))"

text \<open>An iterator that only gets smaller.\<close>

definition shrinks :: "gen_iter \<Rightarrow> gen_iter \<Rightarrow> bool" where
  "shrinks iters iters' \<longleftrightarrow> length iters' \<le> length iters \<and>
     (\<forall>m. (\<forall>it \<in> set iters. length (iter_bases it) < m) \<longrightarrow> (\<forall>it \<in> set iters'. length (iter_bases it) < m))"

lemma gen_slots_simps [simp]:
  "gen_slots [] = []" "gen_slots (iters @ [it]) = iter_slots it @ gen_slots iters"
  "gen_bases [] = []" "gen_bases (iters @ [it]) = gen_bases iters @ iter_bases it"
  by (simp_all add: gen_slots_def gen_bases_def)

lemma iter_slots_base:
  assumes "iter_ok good left sid h it" and "p \<in> set (iter_slots it)"
  shows "allocation p \<in> set (iter_bases it)"
proof (cases "current_block it")
  case None
  with assms(2) show ?thesis by (simp add: iter_slots_def)
next
  case (Some b)
  with assms(1) obtain k where
      "iter_slots it = block_slots b (rev [0..<unat (last_slot it)]) @ chain_slots k (block_next b)"
      "iter_bases it = block_base b # chain_bases k (block_next b)"
    by (rule iter_ok_block)
  with assms(2) show ?thesis
    by (auto dest: block_slots_allocation chain_slots_base)
qed

lemma iter_bases_distinct: "iter_ok good left sid h it \<Longrightarrow> distinct (iter_bases it)"
  by (auto simp: iter_ok_def iter_bases_def split: option.splits)

lemma iter_slots_allocated: "iter_ok good left sid h it \<Longrightarrow> current_block it = Some b \<Longrightarrow>
    p \<in> set (block_slots b js) \<Longrightarrow> allocation p \<in> set (iter_bases it)"
  by (erule (1) iter_ok_block) (auto dest: block_slots_allocation)

lemma iter_ok_frame:
  assumes ok: "iter_ok good left sid h it"
    and same: "\<And>q. allocation q \<in> set (iter_bases it) \<Longrightarrow> cells h' q = cells h q"
  shows "iter_ok good left sid h' it"
proof -
  have "cells h' p = cells h p" if "p \<in> set (iter_slots it)" for p
    using iter_slots_base [OF ok that] same by blast
  moreover have "cells h' p = cells h p" if "current_block it = Some b" "p \<in> set (block_slots b js)" for b p js
    using iter_slots_allocated [OF ok that] same by blast
  ultimately show ?thesis using ok by (auto simp: iter_ok_def split: option.splits)
qed

section \<open>The contract of a tracker\<close>

text \<open>
  \<open>item\<close> is what the tracker yields for an element, \<open>good\<close> the slots it can take from, \<open>left\<close>
  those a block that is left may have, \<open>visit\<close> the effect of taking on memory.
\<close>

locale block_tracker =
  fixes tr :: "('e, 'item) tracker" and cfg :: build and item :: "elem_id \<Rightarrow> 'e \<Rightarrow> 'item"
    and good left :: "'e slot \<Rightarrow> bool" and visit :: "address \<Rightarrow> 'e heap \<Rightarrow> 'e heap"
  assumes take: "block_slot_address cfg b slot = Value p \<Longrightarrow> cells h p = Some sl \<Longrightarrow> good sl \<Longrightarrow>
      tr_take tr b slot h =
        Value (if is_occupied (slot_header sl)
               then Some (item (id_new (id_from_bits (slot_header sl)) p (block_store b)) (the (slot_value sl)))
               else None, visit p h)"
    and visit_other: "q \<noteq> p \<Longrightarrow> cells (visit p h) q = cells h q"
    and visit_left: "cells h p = Some sl \<Longrightarrow> good sl \<Longrightarrow> \<exists>sl'. cells (visit p h) p = Some sl' \<and> left sl'"
    and leave: "\<forall>j<unat (block_len b). \<exists>sl. cells h (Address (block_base b) j) = Some sl \<and> left sl \<Longrightarrow>
      \<exists>h'. tr_leave tr b h = Value ([], h') \<and>
        (\<forall>q. allocation q \<noteq> block_base b \<longrightarrow> cells h' q = cells h q)"
begin

lemma visit_ok:
  assumes ok: "iter_ok good left sid h it" and b: "current_block it = Some b"
    and pos: "last_slot it \<noteq> 0" and it': "it' = it\<lparr>last_slot := last_slot it - 1\<rparr>"
  obtains p where "block_slot_address cfg b (last_slot it - 1) = Value p"
    and "iter_slots it = p # iter_slots it'" and "iter_ok good left sid (visit p h) it'"
    and "iter_bases it' = iter_bases it" and "allocation p \<in> set (iter_bases it)"
    and "entries item sid (visit p h) (iter_slots it') = entries item sid h (iter_slots it')"
    and "\<exists>sl. cells h p = Some sl \<and> good sl"
proof -
  from ok b obtain k where k: "k < 32" "block_depth b = Suc k" "block_len b = 2 ^ k"
      "unat (block_len b) = 2 ^ k" "block_store b = sid" "chain_ok sid k (block_next b)"
      "unat (last_slot it) \<le> 2 ^ k" "distinct (chain_bases (Suc k) (Some b))"
      "distinct (block_slots b (rev [0..<2 ^ k]) @ chain_slots k (block_next b))"
      "iter_slots it = block_slots b (rev [0..<unat (last_slot it)]) @ chain_slots k (block_next b)"
      "iter_bases it = block_base b # chain_bases k (block_next b)"
    by (rule iter_ok_block)
  define n where "n = unat (last_slot it - 1)"
  have n: "unat (last_slot it) = Suc n"
    using pos unat_gt_0 [of "last_slot it"] by (simp add: n_def unat_minus_one)
  let ?p = "Address (block_base b) (scrambled k n)"
  have p: "block_slots b [n] = [?p]" using k(4) by (simp add: block_slots_def scrambled_def)
  have slots: "iter_slots it = ?p # iter_slots it'"
    using p k(2,10) b by (simp add: n it' iter_slots_def block_slots_def flip: n_def)
  have "rev [0..<2 ^ k] = rev [Suc n..<2 ^ k] @ rev [0..<Suc n]"
    using k(7) n upt_add_eq_append [of 0 "Suc n" "2 ^ k - Suc n"] by (simp flip: rev_append)
  then have "distinct (iter_slots it)"
    using k(9) by (simp add: k(10) n block_slots_def)
  then have p_notin: "?p \<notin> set (iter_slots it')" by (simp add: slots)
  have good: "\<forall>p \<in> set (iter_slots it). \<exists>sl. cells h p = Some sl \<and> good sl"
    using ok by (simp add: iter_ok_def)
  have "\<exists>sl. cells (visit ?p h) q = Some sl \<and> left sl"
    if q: "q \<in> set (block_slots b [n..<2 ^ k])" for q
  proof (cases "q = ?p")
    case True
    then show ?thesis using good visit_left slots by auto
  next
    case False
    moreover have "[n..<2 ^ k] = n # [Suc n..<2 ^ k]" using k(7) n by (simp add: upt_conv_Cons)
    ultimately have "q \<in> set (block_slots b [Suc n..<2 ^ k])"
      using q p by (simp add: block_slots_def)
    then have "\<exists>sl. cells h q = Some sl \<and> left sl" using ok b k(4) n by (simp add: iter_ok_def)
    with False show ?thesis by (simp add: visit_other)
  qed
  moreover have "\<exists>sl. cells (visit ?p h) q = Some sl \<and> good sl" if q: "q \<in> set (iter_slots it')" for q
  proof -
    have "q \<noteq> ?p" using p_notin q by metis
    then show ?thesis using good slots q by (simp add: visit_other)
  qed
  moreover have "last_slot it - 1 \<le> block_len b"
    using k(4,7) n by (simp add: word_le_nat_alt flip: n_def)
  ultimately have "iter_ok good left sid (visit ?p h) it'"
    using b k by (simp add: iter_ok_def it' flip: n_def)
  moreover have "entries item sid (visit ?p h) (iter_slots it') = entries item sid h (iter_slots it')"
    using p_notin by (intro entries_cong visit_other) auto
  moreover have "block_slot_address cfg b (last_slot it - 1) = Value ?p"
    using k(1,3) by (simp add: block_slot_address_eval n_def)
  ultimately show ?thesis
    using slots good k(11) by (intro that) (auto simp: it' iter_bases_def)
qed

lemma leave_ok:
  assumes ok: "iter_ok good left sid h it" and b: "current_block it = Some b" and zero: "last_slot it = 0"
    and it': "it' = \<lparr>last_slot = tracked_len (block_next b), current_block = block_next b\<rparr>"
  obtains h' where "tr_leave tr b h = Value ([], h')" and "iter_ok good left sid h' it'"
    and "iter_slots it' = iter_slots it" and "set (iter_bases it') \<subseteq> set (iter_bases it)"
    and "entries item sid h' (iter_slots it') = entries item sid h (iter_slots it)"
    and "\<forall>q. allocation q \<notin> set (iter_bases it) \<longrightarrow> cells h' q = cells h q"
proof -
  from ok b obtain k where k: "k < 32" "block_depth b = Suc k" "block_len b = 2 ^ k"
      "unat (block_len b) = 2 ^ k" "block_store b = sid" "chain_ok sid k (block_next b)"
      "unat (last_slot it) \<le> 2 ^ k" "distinct (chain_bases (Suc k) (Some b))"
      "distinct (block_slots b (rev [0..<2 ^ k]) @ chain_slots k (block_next b))"
      "iter_slots it = block_slots b (rev [0..<unat (last_slot it)]) @ chain_slots k (block_next b)"
      "iter_bases it = block_base b # chain_bases k (block_next b)"
    by (rule iter_ok_block)
  have slots: "iter_slots it = chain_slots k (block_next b)"
    using k(10) zero by (simp add: block_slots_def)
  have "\<forall>q \<in> set (block_slots b [0..<2 ^ k]). \<exists>sl. cells h q = Some sl \<and> left sl"
    using ok b k(4) zero by (simp add: iter_ok_def)
  then have "\<forall>j<unat (block_len b). \<exists>sl. cells h (Address (block_base b) j) = Some sl \<and> left sl"
    unfolding block_slots_all [OF k(1,3)] by blast
  from leave [OF this] obtain h' where h': "tr_leave tr b h = Value ([], h')"
      "\<And>q. allocation q \<noteq> block_base b \<Longrightarrow> cells h' q = cells h q" by blast
  have next_slots: "iter_slots it' = chain_slots k (block_next b)"
    and next_bases: "iter_bases it' = chain_bases k (block_next b)"
    and next_ok: "case block_next b of None \<Rightarrow> True | Some c \<Rightarrow> block_depth c = k \<and> last_slot it' = block_len c"
    using k(6) chain_ok_depth [OF k(6)]
    by (cases "block_next b"; cases k; simp add: it' iter_slots_def iter_bases_def tracked_len_def unat_exp;
        use k(1) in \<open>simp add: unat_exp\<close>)+
  have same: "cells h' q = cells h q" if "q \<in> set (chain_slots k (block_next b))" for q
    using chain_slots_base [OF that] k(8) by (intro h'(2)) auto
  have "\<forall>q \<in> set (iter_slots it'). \<exists>sl. cells h' q = Some sl \<and> good sl"
    using ok same by (simp add: next_slots iter_ok_def slots)
  then have "iter_ok good left sid h' it'"
    using k(1,6,8) next_ok
    by (cases "block_next b") (auto simp: iter_ok_def it' tracked_len_def block_slots_def)
  moreover have "entries item sid h' (iter_slots it') = entries item sid h (iter_slots it)"
    unfolding slots next_slots using same by (rule entries_cong)
  ultimately show ?thesis
    using h' k(11) next_bases by (intro that [of h']) (auto simp: slots next_slots)
qed

lemma bucket_next_ok:
  "c = cfg \<Longrightarrow> t = tr \<Longrightarrow> iter_ok good left sid h it \<Longrightarrow>
    next_ok item good left sid h it (bucket_iter_next c t it h)"
proof (induction c t it h rule: bucket_iter_next.induct)
  case (1 c t it h)
  show ?case
  proof (cases "current_block it")
    case None
    then have "bucket_iter_next c t it h = Value ((None, []), it, h)"
      using 1(5) by (subst bucket_iter_next.simps) (simp add: iter_ok_def)
    then show ?thesis using 1(5) None by (simp add: next_ok_def iter_slots_def)
  next
    case (Some b)
    show ?thesis
    proof (cases "last_slot it = 0")
      case True
      let ?it = "\<lparr>last_slot = tracked_len (block_next b), current_block = block_next b\<rparr>"
      obtain h' where h': "tr_leave tr b h = Value ([], h')" "iter_ok good left sid h' ?it"
          "iter_slots ?it = iter_slots it" "set (iter_bases ?it) \<subseteq> set (iter_bases it)"
          "entries item sid h' (iter_slots ?it) = entries item sid h (iter_slots it)"
          "\<forall>q. allocation q \<notin> set (iter_bases it) \<longrightarrow> cells h' q = cells h q"
        using 1(5) Some True refl by (rule leave_ok)
      have "next_ok item good left sid h' ?it (bucket_iter_next cfg tr ?it h')"
        using 1(1) [OF True Some _ refl refl refl refl, of "[]" h'] h'(1,2) 1(3,4) by simp
      then have "next_ok item good left sid h it (bucket_iter_next cfg tr ?it h')"
        by (rule next_ok_trans) (use h' in simp_all)
      moreover have "bucket_iter_next c t it h =
          omap (\<lambda>((r, d'), rest). ((r, d'), rest)) (bucket_iter_next cfg tr ?it h')"
        using True Some h'(1) 1(3,4) by (subst bucket_iter_next.simps) (simp add: Let_def)
      ultimately show ?thesis by (auto simp: next_ok_def)
    next
      case False
      let ?it = "it\<lparr>last_slot := last_slot it - 1\<rparr>"
      obtain p where p: "block_slot_address cfg b (last_slot it - 1) = Value p"
          "iter_slots it = p # iter_slots ?it" "iter_ok good left sid (visit p h) ?it"
          "iter_bases ?it = iter_bases it" "allocation p \<in> set (iter_bases it)"
          "entries item sid (visit p h) (iter_slots ?it) = entries item sid h (iter_slots ?it)"
          "\<exists>sl. cells h p = Some sl \<and> good sl"
        using 1(5) Some False refl by (rule visit_ok)
      then obtain sl where sl: "cells h p = Some sl" "good sl" by blast
      have it: "?it = \<lparr>last_slot = last_slot it - 1, current_block = Some b\<rparr>" using Some by (cases it) simp
      note take = take [OF p(1) sl]
      have sid: "block_store b = sid" using 1(5) Some by (cases b) (simp add: iter_ok_def)
      have frame: "cells (visit p h) q = cells h q" if "allocation q \<notin> set (iter_bases it)" for q
        using that p(5) by (intro visit_other) auto
      show ?thesis
      proof (cases "is_occupied (slot_header sl)")
        case True
        then have "bucket_iter_next c t it h =
            Value ((Some (item (id_new (id_from_bits (slot_header sl)) p sid) (the (slot_value sl))), []),
              ?it, visit p h)"
          using False Some take 1(3,4) sid by (subst bucket_iter_next.simps) (simp add: it)
        with True show ?thesis using p sl frame by (simp add: next_ok_def slot_entry_def)
      next
        case empty: False
        have "next_ok item good left sid (visit p h) ?it (bucket_iter_next cfg tr ?it (visit p h))"
          using 1(2) [OF False _ refl refl _ refl refl, of b "visit p h"] Some take empty p(3) 1(3,4)
          by (simp add: it)
        then have "next_ok item good left sid h it (bucket_iter_next cfg tr ?it (visit p h))"
          by (rule next_ok_trans) (use p sl empty frame in \<open>simp_all add: slot_entry_def\<close>)
        moreover have "bucket_iter_next c t it h = bucket_iter_next cfg tr ?it (visit p h)"
          using False Some take empty 1(3,4) by (subst bucket_iter_next.simps) (simp add: it)
        ultimately show ?thesis by simp
      qed
    qed
  qed
qed

lemma gen_next_ok:
  assumes "gen_ok good left sid h iters"
  shows "\<exists>r iters' h'. gen_iter_next cfg tr iters h = Value ((r, []), iters', h') \<and>
    gen_ok good left sid h' iters' \<and> shrinks iters iters' \<and>
    (case r of
       None \<Rightarrow> entries item sid h (gen_slots iters) = [] \<and> iters' = []
     | Some x \<Rightarrow> entries item sid h (gen_slots iters) = x # entries item sid h' (gen_slots iters'))"
  using assms
proof (induction iters arbitrary: h rule: rev_induct)
  case Nil
  then show ?case by (subst gen_iter_next.simps) (simp add: shrinks_def)
next
  case (snoc it iters)
  have it: "iter_ok good left sid h it"
    and others: "\<forall>i \<in> set iters. iter_ok good left sid h i" "distinct (gen_bases iters)"
      "set (gen_bases iters) \<inter> set (iter_bases it) = {}"
    using snoc.prems by (auto simp: gen_ok_def)
  obtain r it' h' where step: "bucket_iter_next cfg tr it h = Value ((r, []), it', h')"
      "iter_ok good left sid h' it'" "set (iter_bases it') \<subseteq> set (iter_bases it)"
      "\<forall>q. allocation q \<notin> set (iter_bases it) \<longrightarrow> cells h' q = cells h q"
      "case r of
           None \<Rightarrow> entries item sid h (iter_slots it) = [] \<and> current_block it' = None
         | Some x \<Rightarrow> entries item sid h (iter_slots it) = x # entries item sid h' (iter_slots it')"
    using bucket_next_ok [OF refl refl it] by (auto simp: next_ok_def)
  have frame: "cells h' q = cells h q" if "i \<in> set iters" "allocation q \<in> set (iter_bases i)" for i q
    using step(4) others(3) that by (auto simp: gen_bases_def)
  have rest: "\<forall>i \<in> set iters. iter_ok good left sid h' i"
    using others(1) frame by (blast intro: iter_ok_frame)
  have same: "entries item sid h' (gen_slots iters) = entries item sid h (gen_slots iters)"
  proof (rule entries_cong)
    fix p
    assume "p \<in> set (gen_slots iters)"
    then obtain i where "i \<in> set iters" "p \<in> set (iter_slots i)" by (auto simp: gen_slots_def)
    then show "cells h' p = cells h p" using others(1) frame iter_slots_base by blast
  qed
  show ?case
  proof (cases r)
    case (Some x)
    have "distinct (gen_bases (iters @ [it']))"
      using others(2,3) step(3) iter_bases_distinct [OF step(2)] by auto
    then have "gen_ok good left sid h' (iters @ [it'])"
      using rest step(2) by (simp add: gen_ok_def)
    moreover have "gen_iter_next cfg tr (iters @ [it]) h = Value ((Some x, []), iters @ [it'], h')"
      using step(1) Some by (subst gen_iter_next.simps) simp
    moreover have "length (iter_bases it') \<le> length (iter_bases it)"
      using step(3) card_mono [OF _ step(3)] distinct_card [OF iter_bases_distinct [OF it]]
        distinct_card [OF iter_bases_distinct [OF step(2)]] by simp
    then have "shrinks (iters @ [it]) (iters @ [it'])" by (auto simp: shrinks_def)
    ultimately show ?thesis using step(5) Some same by simp
  next
    case None
    have "gen_ok good left sid h' iters" using rest others(2) by (simp add: gen_ok_def)
    from snoc.IH [OF this] obtain r' iters' h'' where IH:
        "gen_iter_next cfg tr iters h' = Value ((r', []), iters', h'')"
        "gen_ok good left sid h'' iters'" "shrinks iters iters'"
        "case r' of
           None \<Rightarrow> entries item sid h' (gen_slots iters) = [] \<and> iters' = []
         | Some x \<Rightarrow> entries item sid h' (gen_slots iters) = x # entries item sid h'' (gen_slots iters')"
      by blast
    moreover have "gen_iter_next cfg tr (iters @ [it]) h = Value ((r', []), iters', h'')"
      using step(1) None IH(1) by (subst gen_iter_next.simps) simp
    moreover have "shrinks (iters @ [it]) iters'" using IH(3) by (auto simp: shrinks_def)
    ultimately show ?thesis using step(5) None same by (simp split: option.splits)
  qed
qed

lemma gen_nexts_ok:
  assumes "gen_ok good left sid h iters"
  shows "\<exists>iters' h'. calls (gen_iter_next cfg tr) n iters h =
      Value ((map Some (take n (entries item sid h (gen_slots iters))) @
        replicate (n - length (entries item sid h (gen_slots iters))) None, []), iters', h') \<and>
    gen_ok good left sid h' iters' \<and> shrinks iters iters' \<and>
    entries item sid h' (gen_slots iters') = drop n (entries item sid h (gen_slots iters))"
  using assms
proof (induction n arbitrary: iters h)
  case (Suc n)
  from gen_next_ok [OF Suc.prems] obtain r iters' h' where step:
      "gen_iter_next cfg tr iters h = Value ((r, []), iters', h')" "gen_ok good left sid h' iters'"
      "shrinks iters iters'"
      "case r of
         None \<Rightarrow> entries item sid h (gen_slots iters) = [] \<and> iters' = []
       | Some x \<Rightarrow> entries item sid h (gen_slots iters) = x # entries item sid h' (gen_slots iters')"
    by blast
  from Suc.IH [OF step(2)] obtain iters'' h'' where IH:
      "calls (gen_iter_next cfg tr) n iters' h' =
        Value ((map Some (take n (entries item sid h' (gen_slots iters'))) @
          replicate (n - length (entries item sid h' (gen_slots iters'))) None, []), iters'', h'')"
      "gen_ok good left sid h'' iters''" "shrinks iters' iters''"
      "entries item sid h'' (gen_slots iters'') = drop n (entries item sid h' (gen_slots iters'))"
    by blast
  moreover have "shrinks iters iters''" using step(3) IH(3) by (auto simp: shrinks_def)
  ultimately show ?case using step by (cases r) simp_all
qed (simp add: shrinks_def)

end

end
