(* ===== verification/RwExamples.thy ===== *)
theory RwExamples
  imports RwInsert
begin

text \<open>
  Concrete stores, reached from \<open>RwStore::new\<close> by an insert on a platform with memory, in every
  lock state; the properties of the store are applied to them.
\<close>

section \<open>Stores with one element\<close>

lemma new_store:
  obtains s :: "(nat, address list) store" where "store_new debug_build vec_queue 0 = (s, 1)"
    and "store_ok vec_queue s" and "issued_ids s = {}" and "abs_store s = Map.empty"
    and "\<forall>b \<in> set (buckets s). room small_platform b" and "\<forall>b \<in> set (buckets s). depth b < 32"
    and "touched s = []" and "untouched s = []"
proof -
  obtain s :: "(nat, address list) store" and c where new: "store_new debug_build vec_queue 0 = (s, c)"
    by fastforce
  note facts = store_new_ok [OF vec.fifo_axioms new]
  have "c = 1" using new by (auto simp: store_new_def store_id_generate_def debug_build_def)
  moreover have "\<forall>b \<in> set (buckets s). b = bucket_new (store_ident s)" using facts(4) by simp
  moreover have "concat (replicate n []) = []" for n by (induction n) simp_all
  then have "touched s = []" "untouched s = []"
    by (simp_all add: touched_def untouched_def facts(4) bucket_new_ok)
  ultimately show ?thesis
    using new facts that by (auto simp: room_def bucket_new_ok small_platform_fits)
qed

lemma one_element:
  obtains s :: "(nat, address list) store" and i where "store_ok vec_queue s"
    and "issued_ids s = {i}" and "abs_store s = [i \<mapsto> (42, Free)]"
proof -
  obtain s :: "(nat, address list) store" where s: "store_ok vec_queue s" "issued_ids s = {}"
      "abs_store s = Map.empty" "\<forall>b \<in> set (buckets s). room small_platform b"
    by (rule new_store)
  from insert_step [OF vec.fifo_axioms s(1,4), of debug_build 0 42] s(2,3) that show ?thesis by auto
qed

text \<open>The same with a lock on the element, given by the reader field of its header.\<close>

lemma one_locked:
  assumes "r < 2147483648"
  obtains s :: "(nat, address list) store" and i where "store_ok vec_queue s"
    and "i \<in> issued_ids s"
    and "abs_store s i = Some (42, if r = 0 then Free else if r = 2147483647 then Writer else Readers r)"
proof -
  obtain s :: "(nat, address list) store" and i where s: "store_ok vec_queue s"
      "issued_ids s = {i}" "abs_store s = [i \<mapsto> (42, Free)]"
    by (rule one_element)
  then have i: "i \<in> issued_ids s" by simp
  from s(1) i show ?thesis
  proof (cases rule: issued_cases)
    case (present n q v)
    with put_present [OF s(1) present(5,4,1) _ present(3,2), of True r _ v] s assms i that
    show ?thesis by (auto split: if_splits)
  qed (use s(3) in simp)
qed

section \<open>The properties on them\<close>

theorem read_refines_witness:
  "\<exists>(s :: (nat, address list) store) i s'. i \<in> issued_ids s \<and>
    read_with_timeout debug_build 1 i DontBlock s = Value (Ok (Some (ReadLock i)), s') \<and>
    abs_store s' i = Some (42, Readers 3) \<and> store_ok vec_queue s'"
proof -
  obtain s :: "(nat, address list) store" and i where s: "store_ok vec_queue s" "i \<in> issued_ids s"
      "abs_store s i = Some (42, Readers 2)"
    using one_locked [of 2] by auto
  from read_refines [OF s(1,2), of debug_build 1 DontBlock] s show ?thesis
    by (rule_tac x = s in exI, rule_tac x = i in exI)
      (auto simp: refines_def spec_read_def MAX_CONCURRENT_READS_nat omap_Value_iff dest: fun_cong [where x = i])
qed

theorem remove_refines_witness:
  "\<exists>(s :: (nat, address list) store) i s'. i \<in> issued_ids s \<and>
    remove_with_timeout debug_build vec_queue 1 i DontBlock s = Value (Ok (Some 42), s') \<and>
    abs_store s' i = None \<and> store_ok vec_queue s'"
proof -
  obtain s :: "(nat, address list) store" and i where s: "store_ok vec_queue s" "i \<in> issued_ids s"
      "abs_store s i = Some (42, Free)"
    using one_locked [of 0] by auto
  from remove_refines [OF vec.fifo_axioms s(1,2), of debug_build 1 DontBlock] s show ?thesis
    by (rule_tac x = s in exI, rule_tac x = i in exI)
      (auto simp: refines_def spec_remove_def omap_Value_iff dest: fun_cong [where x = i])
qed

theorem insert_refines_witness:
  "\<exists>(s :: (nat, address list) store) i lcg s'. store_new debug_build vec_queue 0 = (s, 1) \<and>
    store_insert debug_build small_platform vec_queue 7 42 s = Value (i, lcg, s') \<and>
    abs_store s' = [i \<mapsto> (42, Free)]"
proof -
  obtain s :: "(nat, address list) store" where s: "store_new debug_build vec_queue 0 = (s, 1)"
      "store_ok vec_queue s" "abs_store s = Map.empty" "\<forall>b \<in> set (buckets s). room small_platform b"
    by (rule new_store)
  from insert_refines [OF vec.fifo_axioms s(2,4), of debug_build 7 42] s(1,3) show ?thesis by auto
qed

theorem store_new_empty_witness:
  "\<exists>(s :: (nat, address list) store) (s2 :: (nat, address list) store).
    store_new debug_build vec_queue 0 = (s, 1) \<and> store_new debug_build vec_queue 1 = (s2, 2) \<and>
    issued_ids s = {} \<and>
    read_with_timeout debug_build 0 (id_new 0 (Address 0 0) (store_ident s)) DontBlock s2 =
      Fault DebugAssertion"
proof -
  obtain s :: "(nat, address list) store" where s: "store_new debug_build vec_queue 0 = (s, 1)"
    by (rule new_store)
  obtain s2 :: "(nat, address list) store" where s2: "store_new debug_build vec_queue 1 = (s2, 2)"
    by (simp add: store_new_def store_id_generate_def debug_build_def)
  from store_new_empty [OF vec.fifo_axioms s s2] s s2 show ?thesis
    by (auto simp: debug_build_def rejects_def id_new_def)
qed

end
