(* ===== verification/RwIterStore.thy ===== *)
theory RwIterStore
  imports RwIterSpec RwExamples "HOL-Library.Multiset"
begin

text \<open>
  Both trackers meet the contract of \<open>block_tracker\<close>; the iterators of a store yield exactly the
  elements that are present, and dropping drops exactly the rest.
\<close>

section \<open>The owned tracker\<close>

text \<open>A slot without a lock, occupied or not; one that was taken from.\<close>

definition unlocked_slot :: "'e slot \<Rightarrow> bool" where
  "unlocked_slot sl \<longleftrightarrow>
     (\<exists>n i. slot_header sl = pack n 0 i \<and> (n \<longrightarrow> slot_value sl \<noteq> None))"

definition empty_slot :: "'e slot \<Rightarrow> bool" where
  "empty_slot sl \<longleftrightarrow> (\<exists>i. slot_header sl = pack False 0 i)"

definition clear_slot :: "address \<Rightarrow> 'e heap \<Rightarrow> 'e heap" where
  "clear_slot p h =
     (case cells h p of None \<Rightarrow> h
      | Some sl \<Rightarrow> set_slot h p (sl\<lparr>slot_header := unoccupied_bits (id_from_bits (slot_header sl))\<rparr>))"

text \<open>
  What dropping the elements \<open>xs\<close> comes to, in any order: their destructors run once each, unless
  the cast in \<open>Drop for Slot\<close> makes it undefined.
\<close>

definition drops :: "build \<Rightarrow> platform \<Rightarrow> 'e list outcome \<Rightarrow> 'e list \<Rightarrow> bool" where
  "drops cfg A m xs \<longleftrightarrow>
     (if drop_defined cfg A \<or> xs = [] then \<exists>d. m = Value d \<and> mset d = mset (destroyed A xs)
      else m = Fault UndefinedBehaviour)"

lemma drops_Nil [simp]: "drops cfg A m [] \<longleftrightarrow> m = Value []"
  by (simp add: drops_def)

lemma drops_append:
  "drops cfg A m xs \<Longrightarrow> drops cfg A m' ys \<Longrightarrow> drops cfg A (obind m (\<lambda>d. omap ((@) d) m')) (xs @ ys)"
  by (auto simp: drops_def split: if_splits)

lemma drops_perm:
  assumes "mset xs = mset ys"
  shows "drops cfg A m xs \<longleftrightarrow> drops cfg A m ys"
  using assms mset_eq_length [OF assms] by (simp add: drops_def destroyed_def) (metis mset_zero_iff)

lemma slot_drops:
  assumes "unlocked_slot sl"
  shows "drops cfg A (slot_drop cfg A panicking sl)
    (if is_occupied (slot_header sl) then [the (slot_value sl)] else [])"
proof -
  obtain n i where sl: "slot_header sl = pack n 0 i" "n \<longrightarrow> slot_value sl \<noteq> None"
    using assms by (auto simp: unlocked_slot_def)
  have "sl = \<lparr>slot_header = pack n 0 i, slot_value = slot_value sl\<rparr>" using sl(1) by (cases sl) simp
  with slot_drop_unlocked [OF sl(2), of cfg A panicking i] sl(1) show ?thesis
    by (auto simp: drops_def bits_pack)
qed

lemma entries_map:
  "entries item sid h ps = map (\<lambda>(i, v). item i v) (entries Pair sid h ps)"
  by (induction ps) (auto simp: slot_entry_def split: option.split)

lemma drop_slots_unlocked:
  assumes "\<forall>p \<in> set ps. \<exists>sl. cells h p = Some sl \<and> unlocked_slot sl"
  shows "drops cfg A (drop_slots cfg A panicking ps h) (map snd (entries Pair sid h ps))"
  using assms
proof (induction ps)
  case (Cons p ps)
  then obtain sl where sl: "cells h p = Some sl" "unlocked_slot sl" by auto
  moreover have "drops cfg A (drop_slots cfg A panicking ps h) (map snd (entries Pair sid h ps))"
    using Cons by auto
  ultimately have "drops cfg A (drop_slots cfg A panicking (p # ps) h)
      ((if is_occupied (slot_header sl) then [the (slot_value sl)] else []) @ map snd (entries Pair sid h ps))"
    using drops_append [OF slot_drops [OF sl(2)]] sl(1) by simp
  then show ?case using sl(1) by (cases "is_occupied (slot_header sl)") (simp_all add: slot_entry_def)
qed simp

lemma empty_unlocked: "empty_slot sl \<Longrightarrow> unlocked_slot sl"
  by (auto simp: empty_slot_def unlocked_slot_def)

lemma empty_not_occupied: "empty_slot sl \<Longrightarrow> \<not> is_occupied (slot_header sl)"
  by (auto simp: empty_slot_def bits_pack)

lemma entries_empty:
  "\<forall>p \<in> set ps. \<exists>sl. cells h p = Some sl \<and> empty_slot sl \<Longrightarrow> entries item sid h ps = []"
  by (induction ps) (auto simp: slot_entry_def empty_not_occupied)

lemma block_into_next_empty:
  assumes "\<forall>j<unat (block_len b). \<exists>sl. cells h (Address (block_base b) j) = Some sl \<and> empty_slot sl"
  shows "block_into_next cfg A panicking b h = Value ([], free_block (block_base b) h)"
proof -
  let ?ps = "map (Address (block_base b)) [0..<unat (block_len b)]"
  have all: "\<forall>p \<in> set ?ps. \<exists>sl. cells h p = Some sl \<and> empty_slot sl" using assms by auto
  then have "drops cfg A (drop_slots cfg A panicking ?ps h) (map snd (entries Pair None h ?ps))"
    by (intro drop_slots_unlocked) (auto dest: empty_unlocked)
  with entries_empty [OF all, of Pair None] show ?thesis by (simp add: block_into_next_def)
qed

interpretation owned: block_tracker "owned_tracker cfg A panicking" cfg Pair unlocked_slot empty_slot
    clear_slot for cfg :: build and A :: platform and panicking :: bool
proof unfold_locales
  fix b :: block and slot :: u32 and p :: address and h :: "'e heap" and sl :: "'e slot"
  assume p: "block_slot_address cfg b slot = Value p" "cells h p = Some sl" "unlocked_slot sl"
  then obtain n i where "slot_header sl = pack n 0 i" "n \<longrightarrow> slot_value sl \<noteq> None"
    by (auto simp: unlocked_slot_def)
  with p show "tr_take (owned_tracker cfg A panicking) b slot h =
      Value (if is_occupied (slot_header sl)
             then Some (id_new (id_from_bits (slot_header sl)) p (block_store b), the (slot_value sl))
             else None, clear_slot p h)"
    by (cases n) (auto simp: owned_tracker_def block_take_def header_reset_eval clear_slot_def
        bits_pack Let_def)
next
  fix p :: address and h :: "'e heap" and sl :: "'e slot"
  assume "cells h p = Some sl"
  then show "\<exists>sl'. cells (clear_slot p h) p = Some sl' \<and> empty_slot sl'"
    by (auto simp: clear_slot_def empty_slot_def bits_pack)
next
  fix p q :: address and h :: "'e heap"
  assume "q \<noteq> p"
  then show "cells (clear_slot p h) q = cells h q"
    by (simp add: clear_slot_def split: option.split)
next
  fix b :: block and h :: "'e heap"
  assume "\<forall>j<unat (block_len b). \<exists>sl. cells h (Address (block_base b) j) = Some sl \<and> empty_slot sl"
  then show "\<exists>h'. tr_leave (owned_tracker cfg A panicking) b h = Value ([], h') \<and>
      (\<forall>q. allocation q \<noteq> block_base b \<longrightarrow> cells h' q = cells h q)"
    by (simp add: owned_tracker_def block_into_next_empty free_block_def)
qed

section \<open>The borrowing tracker\<close>

definition filled_slot :: "'e slot \<Rightarrow> bool" where
  "filled_slot sl \<longleftrightarrow> (is_occupied (slot_header sl) \<longrightarrow> slot_value sl \<noteq> None)"

definition borrow :: "elem_id \<Rightarrow> 'e \<Rightarrow> elem_id \<times> address" where
  "borrow i v = (i, slot_address i)"

interpretation borrowing: block_tracker "mut_tracker cfg" cfg borrow filled_slot "\<lambda>_. True" "\<lambda>p h. h"
  for cfg :: build
proof unfold_locales
  fix b :: block and slot :: u32 and p :: address and h :: "'e heap" and sl :: "'e slot"
  assume p: "block_slot_address cfg b slot = Value p" "cells h p = Some sl" "filled_slot sl"
  then show "tr_take (mut_tracker cfg) b slot h =
      Value (if is_occupied (slot_header sl)
             then Some (borrow (id_new (id_from_bits (slot_header sl)) p (block_store b)) (the (slot_value sl)))
             else None, h)"
    by (auto simp: mut_tracker_def block_slot_contents_def id_if_occupied_def borrow_def filled_slot_def)
next
  fix b :: block and h :: "'e heap"
  show "\<exists>h'. tr_leave (mut_tracker cfg) b h = Value ([], h') \<and>
      (\<forall>q. allocation q \<noteq> block_base b \<longrightarrow> cells h' q = cells h q)"
    by (simp add: mut_tracker_def)
qed auto

section \<open>The iterators of a store\<close>

definition live_list :: "('e, 'q) store \<Rightarrow> (elem_id \<times> 'e) list" where
  "live_list s = entries Pair (store_ident s) (memory s) (gen_slots (into_iter_new s))"

lemma bucket_iter_ok:
  assumes ok: "bucket_ok sid b"
    and good: "\<forall>p \<in> set (touched_slots b). \<exists>sl. cells h p = Some sl \<and> good sl"
    and left: "\<forall>p \<in> set (untouched_slots b). \<exists>sl. cells h p = Some sl \<and> left sl"
    and it: "it = bucket_iter_new (next_unused_slot b) (head b)"
  shows "iter_ok good left sid h it \<and> iter_slots it = touched_slots b \<and> iter_bases it = bases b"
  using ok
proof (cases rule: bucket_ok_cases)
  case empty
  then have "it = \<lparr>last_slot = 0, current_block = None\<rparr>"
    by (simp add: it bucket_iter_new_def tracked_len_def bucket_new_def)
  then show ?thesis
    by (simp add: iter_ok_def iter_slots_def iter_bases_def empty bucket_new_ok)
next
  case (blocks blk k)
  have depth: "block_depth blk = Suc k" using blocks by (simp add: depth_def)
  have len: "head_len b = block_len blk" using blocks(1) by (simp add: head_len_def)
  have it': "it = \<lparr>last_slot = min (next_unused_slot b) (block_len blk), current_block = Some blk\<rparr>"
    using blocks(1) by (simp add: it bucket_iter_new_def tracked_len_def)
  have used: "unat (min (next_unused_slot b) (block_len blk)) = used b"
    by (simp add: used_def len min_def word_le_nat_alt)
  have slots: "iter_slots it = touched_slots b"
    using blocks depth used by (simp add: it' iter_slots_def touched_slots_def)
  moreover have "iter_bases it = bases b" using blocks depth by (simp add: it' iter_bases_def bases_def)
  moreover have "set (untouched_slots b) = set (block_slots blk [used b..<unat (block_len blk)])"
    using blocks(1) by (simp add: untouched_slots_def len block_slots_def)
  moreover have "unat (min (next_unused_slot b) (2 ^ k)) = used b" using used blocks by simp
  ultimately have "iter_ok good left sid h it"
    using ok good left slots blocks by (simp add: iter_ok_def depth bucket_ok_def bases_def it')
  with slots \<open>iter_bases it = bases b\<close> show ?thesis by blast
qed

lemma store_gen_ok:
  assumes frame: "frame_ok s"
    and good: "\<forall>p \<in> set (touched s). \<exists>sl. cells (memory s) p = Some sl \<and> good sl"
    and left: "\<forall>p \<in> set (untouched s). \<exists>sl. cells (memory s) p = Some sl \<and> left sl"
  shows "gen_ok good left (store_ident s) (memory s) (into_iter_new s)"
    and "gen_slots (into_iter_new s) = concat (map touched_slots (rev (buckets s)))"
    and "map iter_bases (into_iter_new s) = map bases (buckets s)"
proof -
  let ?it = "\<lambda>b. bucket_iter_new (next_unused_slot b) (head b)"
  have each: "iter_ok good left (store_ident s) (memory s) (?it b) \<and> iter_slots (?it b) = touched_slots b \<and>
      iter_bases (?it b) = bases b" if b: "b \<in> set (buckets s)" for b
  proof -
    have "bucket_ok (store_ident s) b" using frame b by (simp add: frame_ok_def)
    moreover have "\<forall>p \<in> set (touched_slots b). \<exists>sl. cells (memory s) p = Some sl \<and> good sl"
      "\<forall>p \<in> set (untouched_slots b). \<exists>sl. cells (memory s) p = Some sl \<and> left sl"
      using good left b by (auto simp: touched_def untouched_def)
    ultimately show ?thesis using bucket_iter_ok [OF _ _ _ refl] by blast
  qed
  then show "map iter_bases (into_iter_new s) = map bases (buckets s)"
    by (simp add: into_iter_new_def)
  moreover have "distinct (concat (map bases (buckets s)))" using frame by (simp add: frame_ok_def)
  ultimately have "distinct (gen_bases (into_iter_new s))" by (simp add: gen_bases_def)
  moreover have "\<forall>it \<in> set (into_iter_new s). iter_ok good left (store_ident s) (memory s) it"
    using each by (simp add: into_iter_new_def)
  ultimately show "gen_ok good left (store_ident s) (memory s) (into_iter_new s)"
    by (simp add: gen_ok_def)
  have "map iter_slots (into_iter_new s) = map touched_slots (buckets s)"
    using each by (simp add: into_iter_new_def)
  then show "gen_slots (into_iter_new s) = concat (map touched_slots (rev (buckets s)))"
    by (metis gen_slots_def rev_map)
qed

lemma id_new_iff:
  "i = id_new n p sid \<longleftrightarrow> ordinal i = n \<and> slot_address i = p \<and> id_store i = sid"
  by (cases i) (auto simp: id_new_def)

lemma entries_ids:
  "(i, v) \<in> set (entries Pair sid h ps) \<longleftrightarrow>
    id_store i = sid \<and> slot_address i \<in> set ps \<and>
    (\<exists>sl. cells h (slot_address i) = Some sl \<and> is_occupied (slot_header sl) \<and>
      ordinal i = id_from_bits (slot_header sl) \<and> v = the (slot_value sl))"
proof (induction ps)
  case (Cons p ps)
  have "(i, v) \<in> set (slot_entry Pair sid h p) \<longleftrightarrow> id_store i = sid \<and> slot_address i = p \<and>
      (\<exists>sl. cells h p = Some sl \<and> is_occupied (slot_header sl) \<and>
        ordinal i = id_from_bits (slot_header sl) \<and> v = the (slot_value sl))"
    by (cases "cells h p") (auto simp: slot_entry_def id_new_iff)
  with Cons show ?case by auto
qed simp

lemma entries_distinct: "distinct ps \<Longrightarrow> distinct (map fst (entries Pair sid h ps))"
proof (induction ps)
  case (Cons p ps)
  moreover have "i \<notin> fst ` set (entries Pair sid h ps)" if "slot_address i = p" for i
    using Cons.prems that by (auto simp: entries_ids)
  ultimately show ?case by (auto simp: slot_entry_def split: option.split)
qed simp

text \<open>The entries of a store are the elements of its abstract map.\<close>

lemma live_list_spec:
  assumes ok: "store_ok Q s"
  shows "distinct (map fst (live_list s))"
    and "(i, v) \<in> set (live_list s) \<longleftrightarrow> (\<exists>l. abs_store s i = Some (v, l))"
proof -
  have frame: "frame_ok s" using ok by (simp add: store_ok_def)
  have slots: "gen_slots (into_iter_new s) = concat (map touched_slots (rev (buckets s)))"
    by (rule store_gen_ok(2) [OF frame, of "\<lambda>_. True" "\<lambda>_. True"])
      (use frame in \<open>auto simp: frame_ok_def\<close>)
  have "mset (concat (map f (rev bs))) = mset (concat (map f bs))" for f :: "bucket \<Rightarrow> address list" and bs
    by (induction bs) simp_all
  then have mset: "mset (gen_slots (into_iter_new s)) = mset (touched s)"
    by (simp add: slots touched_def)
  then have "distinct (gen_slots (into_iter_new s))"
    using store_distinct [OF frame] mset_eq_imp_distinct_iff by fastforce
  then show "distinct (map fst (live_list s))" unfolding live_list_def by (rule entries_distinct)
  have "set (gen_slots (into_iter_new s)) = set (touched s)" using mset by (rule mset_eq_setD)
  then have "(i, v) \<in> set (live_list s) \<longleftrightarrow> id_store i = store_ident s \<and> slot_address i \<in> set (touched s) \<and>
      (\<exists>sl. cells (memory s) (slot_address i) = Some sl \<and> is_occupied (slot_header sl) \<and>
        ordinal i = id_from_bits (slot_header sl) \<and> v = the (slot_value sl))"
    by (simp add: live_list_def entries_ids)
  also have "\<dots> \<longleftrightarrow> (\<exists>l. abs_store s i = Some (v, l))"
  proof (cases "cells (memory s) (slot_address i)")
    case (Some sl)
    obtain n r j where w: "slot_header sl = pack n r j" "r < 2147483648" by (rule word_cases)
    have "is_occupied (slot_header sl) \<longrightarrow> slot_address i \<in> set (touched s) \<and> slot_value sl \<noteq> None"
      using ok Some occupied_touched [OF ok Some] by (auto simp: store_ok_def slots_ok_def slot_ok_def)
    with Some w show ?thesis
      by (auto simp: abs_store_def slot_abs_def header_view_pack split: if_splits option.splits)
  qed (simp add: abs_store_def)
  finally show "(i, v) \<in> set (live_list s) \<longleftrightarrow> (\<exists>l. abs_store s i = Some (v, l))" .
qed

lemma present_issued:
  assumes ok: "store_ok Q s" and i: "abs_store s i = Some x"
  shows "i \<in> issued_ids s"
proof -
  from i obtain sl where sl: "id_store i = store_ident s" "cells (memory s) (slot_address i) = Some sl"
      "slot_abs (ordinal i) sl = Some x"
    by (auto simp: abs_store_def split: if_splits option.splits)
  obtain n r j where w: "slot_header sl = pack n r j" "r < 2147483648" by (rule word_cases)
  have occ: "is_occupied (slot_header sl)" "id_from_bits (slot_header sl) = ordinal i"
    using sl(3) w by (auto simp: slot_abs_def header_view_pack split: if_splits option.splits)
  with ok sl(2) have "slot_address i \<in> set (touched s)" by (intro occupied_touched) auto
  with sl occ show ?thesis by (auto simp: issued_ids_def issued_def)
qed

section \<open>Dropping what is left\<close>

lemma mset_entries:
  "mset (entries item sid h ps) = sum_mset (image_mset (\<lambda>p. mset (slot_entry item sid h p)) (mset ps))"
  by (induction ps) simp_all

lemma block_slots_perm:
  assumes "k < 32" and "block_len b = 2 ^ k"
  shows "mset (map (Address (block_base b)) [0..<unat (block_len b)]) = mset (block_slots b (rev [0..<2 ^ k]))"
proof (rule set_eq_iff_mset_eq_distinct [THEN iffD1])
  show "distinct (map (Address (block_base b)) [0..<unat (block_len b)])"
    by (simp add: distinct_map inj_on_def)
  show "distinct (block_slots b (rev [0..<2 ^ k]))"
    using assms by (intro block_slots_distinct [of b k]) auto
  have "set (block_slots b (rev [0..<2 ^ k])) = set (block_slots b [0..<2 ^ k])"
    by (simp add: block_slots_def)
  then show "set (map (Address (block_base b)) [0..<unat (block_len b)]) =
      set (block_slots b (rev [0..<2 ^ k]))"
    using block_slots_all [OF assms] by auto
qed

definition drop_blocks :: "build \<Rightarrow> platform \<Rightarrow> bool \<Rightarrow> block option \<Rightarrow> 'e heap \<Rightarrow> 'e list outcome" where
  "drop_blocks cfg A panicking blk h =
     (case blk of None \<Rightarrow> Value [] | Some b \<Rightarrow> block_drop cfg A panicking b h)"

lemma block_drop_unlocked:
  assumes "chain_ok sid k blk" and "k \<le> 32"
    and "\<forall>p \<in> set (chain_slots k blk). \<exists>sl. cells h p = Some sl \<and> unlocked_slot sl"
  shows "drops cfg A (drop_blocks cfg A panicking blk h) (map snd (entries Pair sid h (chain_slots k blk)))"
  using assms
proof (induction k arbitrary: blk)
  case (Suc k)
  then obtain b where b: "blk = Some b" "block_len b = 2 ^ k" "chain_ok sid k (block_next b)"
    by (auto split: option.splits)
  let ?ps = "map (Address (block_base b)) [0..<unat (block_len b)]"
  have perm: "mset ?ps = mset (block_slots b (rev [0..<2 ^ k]))"
    using Suc.prems(2) b(2) by (intro block_slots_perm) simp_all
  have "\<forall>p \<in> set ?ps. \<exists>sl. cells h p = Some sl \<and> unlocked_slot sl"
    using Suc.prems(3) mset_eq_setD [OF perm] b(1) by auto
  then have "drops cfg A (drop_slots cfg A panicking ?ps h) (map snd (entries Pair sid h ?ps))"
    by (rule drop_slots_unlocked)
  moreover have "drops cfg A (drop_blocks cfg A panicking (block_next b) h)
      (map snd (entries Pair sid h (chain_slots k (block_next b))))"
    using Suc.IH [OF b(3)] Suc.prems b(1) by auto
  ultimately have "drops cfg A (drop_blocks cfg A panicking blk h)
      (map snd (entries Pair sid h (chain_slots k (block_next b))) @ map snd (entries Pair sid h ?ps))"
    using drops_append b(1) by (cases b) (fastforce simp: drop_blocks_def)
  moreover have "mset (entries Pair sid h ?ps) = mset (entries Pair sid h (block_slots b (rev [0..<2 ^ k])))"
    unfolding mset_entries perm ..
  then have "mset (map snd (entries Pair sid h (chain_slots k (block_next b))) @ map snd (entries Pair sid h ?ps)) =
      mset (map snd (entries Pair sid h (chain_slots (Suc k) blk)))"
    using b(1) by (simp add: mset_map)
  ultimately show ?case using drops_perm by blast
qed (simp add: drop_blocks_def)

lemma into_iter_drop_ok:
  assumes "\<forall>it \<in> set iters. iter_ok unlocked_slot empty_slot sid h it"
  shows "drops cfg A (into_iter_drop cfg A panicking iters h)
    (map snd (entries Pair sid h (gen_slots iters)))"
  using assms
proof (induction iters)
  case (Cons it iters)
  have it: "iter_ok unlocked_slot empty_slot sid h it" using Cons.prems by simp
  have head: "drops cfg A (drop_blocks cfg A panicking (current_block it) h)
      (map snd (entries Pair sid h (iter_slots it)))"
  proof (cases "current_block it")
    case None
    then show ?thesis by (simp add: iter_slots_def drop_blocks_def)
  next
    case (Some b)
    with it obtain k where k: "k < 32" "block_depth b = Suc k" "block_len b = 2 ^ k"
        "unat (block_len b) = 2 ^ k" "block_store b = sid" "chain_ok sid k (block_next b)"
        "unat (last_slot it) \<le> 2 ^ k" "distinct (chain_bases (Suc k) (Some b))"
        "distinct (block_slots b (rev [0..<2 ^ k]) @ chain_slots k (block_next b))"
        "iter_slots it = block_slots b (rev [0..<unat (last_slot it)]) @ chain_slots k (block_next b)"
        "iter_bases it = block_base b # chain_bases k (block_next b)"
      by (rule iter_ok_block)
    let ?seen = "block_slots b (rev [unat (last_slot it)..<2 ^ k])"
    have "rev [0..<2 ^ k] = rev [unat (last_slot it)..<2 ^ k] @ rev [0..<unat (last_slot it)]"
      using k(7) upt_add_eq_append [of 0 "unat (last_slot it)" "2 ^ k - unat (last_slot it)"]
      by (simp flip: rev_append)
    then have slots: "chain_slots (Suc k) (Some b) = ?seen @ iter_slots it"
      by (simp add: k(10) block_slots_def)
    have seen: "\<forall>p \<in> set ?seen. \<exists>sl. cells h p = Some sl \<and> empty_slot sl"
      using it Some k(4) by (simp add: iter_ok_def block_slots_def)
    moreover have "\<forall>p \<in> set (iter_slots it). \<exists>sl. cells h p = Some sl \<and> unlocked_slot sl"
      using it by (simp add: iter_ok_def)
    ultimately have "\<forall>p \<in> set (chain_slots (Suc k) (Some b)). \<exists>sl. cells h p = Some sl \<and> unlocked_slot sl"
      unfolding slots using empty_unlocked by (metis UnE set_append)
    then have "drops cfg A (drop_blocks cfg A panicking (Some b) h)
        (map snd (entries Pair sid h (chain_slots (Suc k) (Some b))))"
      using block_drop_unlocked [of sid "Suc k" "Some b" h cfg A panicking] k by auto
    with entries_empty [OF seen, of Pair sid] Some show ?thesis unfolding slots by simp
  qed
  have rest: "drops cfg A (into_iter_drop cfg A panicking iters h) (map snd (entries Pair sid h (gen_slots iters)))"
    using Cons by auto
  have "mset (map snd (entries Pair sid h (iter_slots it)) @ map snd (entries Pair sid h (gen_slots iters))) =
      mset (map snd (entries Pair sid h (gen_slots (it # iters))))"
    by (simp add: gen_slots_def)
  with drops_append [OF head rest] show ?case using drops_perm by (fastforce simp: drop_blocks_def)
qed simp

lemma drop_buckets_iter:
  "drop_buckets cfg A panicking bs h =
    into_iter_drop cfg A panicking (map (\<lambda>b. bucket_iter_new (next_unused_slot b) (head b)) bs) h"
  by (induction bs) (simp_all add: bucket_iter_new_def Let_def)

section \<open>What the iterators of a store yield\<close>

lemma touched_filled:
  assumes "store_ok Q s"
  shows "gen_ok filled_slot (\<lambda>_. True) (store_ident s) (memory s) (iter_mut_new s)"
proof -
  have "gen_ok filled_slot (\<lambda>_. True) (store_ident s) (memory s) (into_iter_new s)"
  proof (rule store_gen_ok(1))
    show "frame_ok s" using assms by (simp add: store_ok_def)
    then show "\<forall>p \<in> set (untouched s). \<exists>sl. cells (memory s) p = Some sl \<and> True"
      by (auto simp: frame_ok_def)
    show "\<forall>p \<in> set (touched s). \<exists>sl. cells (memory s) p = Some sl \<and> filled_slot sl"
      using store_slot [OF assms] by (metis filled_slot_def slot_ok_def)
  qed
  then show ?thesis by (simp add: into_iter_new_def iter_mut_new_def)
qed

lemma fresh_empty: "empty_slot fresh_slot"
  by (auto simp: empty_slot_def fresh_slot_def bits_pack)

definition all_free :: "('e, 'q) store \<Rightarrow> bool" where
  "all_free s \<longleftrightarrow> (\<forall>i v l. abs_store s i = Some (v, l) \<longrightarrow> l = Free)"

lemma touched_unlocked:
  assumes ok: "store_ok Q s" and free: "all_free s"
  shows "gen_ok unlocked_slot empty_slot (store_ident s) (memory s) (into_iter_new s)"
proof (rule store_gen_ok(1))
  show "frame_ok s" using ok by (simp add: store_ok_def)
  show "\<forall>p \<in> set (untouched s). \<exists>sl. cells (memory s) p = Some sl \<and> empty_slot sl"
    using ok fresh_empty by (auto simp: store_ok_def slots_ok_def)
  show "\<forall>p \<in> set (touched s). \<exists>sl. cells (memory s) p = Some sl \<and> unlocked_slot sl"
  proof
    fix p
    assume "p \<in> set (touched s)"
    with ok obtain sl where sl: "cells (memory s) p = Some sl" "slot_ok sl" by (rule store_slot)
    obtain n r j where w: "slot_header sl = pack n r j" "r < 2147483648" by (rule word_cases)
    have "r = 0"
    proof (rule ccontr)
      assume r: "r \<noteq> 0"
      with sl(2) w obtain v where "slot_value sl = Some v" by (auto simp: slot_ok_def)
      with sl(1) w r have "\<exists>l. abs_store s (id_new j p (store_ident s)) = Some (v, l) \<and> l \<noteq> Free"
        by (simp add: abs_store_def slot_abs_def header_view_pack)
      with free show False by (auto simp: all_free_def)
    qed
    with sl w have "unlocked_slot sl" by (auto simp: unlocked_slot_def slot_ok_def)
    with sl show "\<exists>sl. cells (memory s) p = Some sl \<and> unlocked_slot sl" by blast
  qed
qed

lemma mut_tracker_reads:
  "t = mut_tracker c' \<Longrightarrow> bucket_iter_next c t it h = Value (x, it', h') \<Longrightarrow> h' = h"
proof (induction c t it h arbitrary: x it' h' rule: bucket_iter_next.induct)
  case (1 c t it h)
  have take: "tr_take t b slot h = Value (r, h1) \<Longrightarrow> h1 = h" for b slot r h1
    using 1(3) by (auto simp: mut_tracker_def omap_Value_iff)
  have leave: "tr_leave t b h = Value ([], h)" for b using 1(3) by (simp add: mut_tracker_def)
  show ?case
  proof (cases "last_slot it = 0")
    case True
    show ?thesis
    proof (cases "current_block it")
      case (Some b)
      let ?it = "\<lparr>last_slot = tracked_len (block_next b), current_block = block_next b\<rparr>"
      obtain x'' where "bucket_iter_next c t ?it h = Value (x'', it', h')"
        using 1(4) True Some leave [of b]
        by (subst (asm) bucket_iter_next.simps) (auto simp: omap_Value_iff Let_def)
      with 1(1) [OF True Some leave refl refl refl refl 1(3)] show ?thesis by blast
    qed (use 1(4) True in \<open>subst (asm) bucket_iter_next.simps; simp\<close>)
  next
    case False
    then obtain b r h1 where b: "unwrap_debug_checked c (current_block it) = Value b"
        "tr_take t b (last_slot it - 1) h = Value (r, h1)"
        "(case r of Some result \<Rightarrow> Value ((Some result, []),
            \<lparr>last_slot = last_slot it - 1, current_block = Some b\<rparr>, h1)
          | None \<Rightarrow> bucket_iter_next c t \<lparr>last_slot = last_slot it - 1, current_block = Some b\<rparr> h1) =
         Value (x, it', h')"
      using 1(4) by (subst (asm) bucket_iter_next.simps) (auto simp: obind_Value_iff Let_def)
    moreover have "h1 = h" using b(2) by (rule take)
    ultimately show ?thesis
      using 1(2) [OF False b(1) refl refl _ refl refl 1(3), of h] by (cases r) auto
  qed
qed

lemma gen_iter_next_snoc:
  "gen_iter_next cfg tr (iters @ [it]) h =
    obind (bucket_iter_next cfg tr it h) (\<lambda>((r, d), it', h').
      case r of
        Some result \<Rightarrow> Value ((Some result, d), iters @ [it'], h')
      | None \<Rightarrow> omap (\<lambda>((r', d'), rest). ((r', d @ d'), rest)) (gen_iter_next cfg tr iters h'))"
  by (subst gen_iter_next.simps, unfold butlast_snoc last_snoc) simp

lemma mut_gen_reads:
  "t = mut_tracker c' \<Longrightarrow> gen_iter_next c t iters h = Value (x, iters', h') \<Longrightarrow> h' = h"
proof (induction iters arbitrary: x iters' rule: rev_induct)
  case Nil
  then show ?case by (subst (asm) gen_iter_next.simps) simp
next
  case (snoc it iters)
  obtain r d it' h1 where step: "bucket_iter_next c t it h = Value ((r, d), it', h1)"
      "(case r of Some result \<Rightarrow> Value ((Some result, d), iters @ [it'], h1)
        | None \<Rightarrow> omap (\<lambda>((r', d'), rest). ((r', d @ d'), rest)) (gen_iter_next c t iters h1)) =
       Value (x, iters', h')"
    using snoc.prems(2) by (auto simp: gen_iter_next_snoc obind_Value_iff)
  moreover have "h1 = h" using snoc.prems(1) step(1) by (rule mut_tracker_reads)
  ultimately show ?case using snoc by (cases r) (auto simp: omap_Value_iff)
qed

lemma calls_reads:
  assumes "\<And>it h x it' h'. f it h = Value (x, it', h') \<Longrightarrow> h' = h"
  shows "calls f n it h = Value (x, it', h') \<Longrightarrow> h' = h"
proof (induction n arbitrary: it h x)
  case (Suc n)
  then obtain y it1 h1 x1 where "f it h = Value (y, it1, h1)" "calls f n it1 h1 = Value (x1, it', h')"
    by (auto simp: obind_Value_iff omap_Value_iff)
  with assms Suc.IH show ?case by metis
qed simp

text \<open>What any number of calls of \<open>next\<close> return.\<close>

lemma iter_mut_calls:
  assumes ok: "store_ok Q s"
  defines "xs \<equiv> map (\<lambda>(i, v). borrow i v) (live_list s)"
  shows "\<exists>iters. calls (iter_mut_next cfg) n (iter_mut_new s) (memory s) =
    Value ((map Some (take n xs) @ replicate (n - length xs) None, []), iters, memory s)"
proof -
  have xs: "entries borrow (store_ident s) (memory s) (gen_slots (iter_mut_new s)) = xs"
    by (simp add: xs_def entries_map [of borrow] live_list_def iter_mut_new_def into_iter_new_def)
  have step: "iter_mut_next cfg = gen_iter_next cfg (mut_tracker cfg)"
    by (intro ext) (simp add: iter_mut_next_def)
  obtain iters h where eq: "calls (iter_mut_next cfg) n (iter_mut_new s) (memory s) =
      Value ((map Some (take n xs) @ replicate (n - length xs) None, []), iters, h)"
    using borrowing.gen_nexts_ok [OF touched_filled [OF ok], where n = n and cfg = cfg]
    unfolding xs step by blast
  moreover from this have "h = memory s"
    unfolding step by (rule calls_reads [rotated]) (rule mut_gen_reads [OF refl])
  ultimately show ?thesis by blast
qed

lemma into_iter_calls:
  assumes ok: "store_ok Q s" and free: "all_free s"
  shows "\<exists>iters h. calls (into_iter_next cfg A panicking) n (into_iter_new s) (memory s) =
      Value ((map Some (take n (live_list s)) @ replicate (n - length (live_list s)) None, []), iters, h) \<and>
    drops cfg A (into_iter_drop cfg A panicking iters h) (map snd (drop n (live_list s)))"
proof -
  have step: "into_iter_next cfg A panicking = gen_iter_next cfg (owned_tracker cfg A panicking)"
    by (intro ext) (simp add: into_iter_next_def)
  obtain iters h where iters: "calls (into_iter_next cfg A panicking) n (into_iter_new s) (memory s) =
      Value ((map Some (take n (live_list s)) @ replicate (n - length (live_list s)) None, []), iters, h)"
      "gen_ok unlocked_slot empty_slot (store_ident s) h iters"
      "entries Pair (store_ident s) h (gen_slots iters) = drop n (live_list s)"
    using owned.gen_nexts_ok [OF touched_unlocked [OF ok free], where n = n and cfg = cfg]
    unfolding live_list_def step by blast
  have "\<forall>it \<in> set iters. iter_ok unlocked_slot empty_slot (store_ident s) h it"
    using iters(2) by (simp add: gen_ok_def)
  from into_iter_drop_ok [OF this, of cfg A panicking] iters(1,3)
  show ?thesis by auto
qed

lemma store_drop_step:
  assumes ok: "store_ok Q s" and free: "all_free s"
  shows "drops cfg A (store_drop cfg A panicking s) (map snd (live_list s))"
proof -
  have "\<forall>it \<in> set (into_iter_new s). iter_ok unlocked_slot empty_slot (store_ident s) (memory s) it"
    using touched_unlocked [OF ok free] by (simp add: gen_ok_def)
  from into_iter_drop_ok [OF this, of cfg A panicking] show ?thesis
    by (simp add: store_drop_def drop_buckets_iter into_iter_new_def live_list_def)
qed

lemma live_list_free:
  "store_ok Q s \<Longrightarrow> all_free s \<Longrightarrow> (i, v) \<in> set (live_list s) \<longleftrightarrow> abs_store s i = Some (v, Free)"
  using live_list_spec(2) [of Q s i v] by (auto simp: all_free_def)

text \<open>
  C18. Mutable iteration yields every element of the store exactly once: calling \<open>next\<close> any number
  of times returns one after the other the IDs of all elements that are present, each with a
  reference to the slot of that ID, and then \<open>None\<close> forever; IDs do not repeat, whatever guards
  were forgotten, nothing panics and the iterator itself changes nothing in the store.
\<close>

theorem iter_mut_yields:
  assumes ok: "store_ok Q s"
  shows "\<exists>xs. distinct (map fst xs) \<and>
    (\<forall>i p. (i, p) \<in> set xs \<longleftrightarrow> abs_store s i \<noteq> None \<and> p = slot_address i) \<and>
    (\<forall>n. \<exists>iters. calls (iter_mut_next cfg) n (store_iter_mut s) (memory s) =
      Value ((map Some (take n xs) @ replicate (n - length xs) None, []), iters, memory s))"
  unfolding store_iter_mut_def
proof (rule exI [of _ "map (\<lambda>(i, v). borrow i v) (live_list s)"], intro conjI allI)
  let ?xs = "map (\<lambda>(i, v). borrow i v) (live_list s)"
  have "map fst ?xs = map fst (live_list s)" by (auto simp: borrow_def)
  then show "distinct (map fst ?xs)" using live_list_spec(1) [OF ok] by metis
  show "(i, p) \<in> set ?xs \<longleftrightarrow> abs_store s i \<noteq> None \<and> p = slot_address i" for i p
    using live_list_spec(2) [OF ok, of i] by (force simp: borrow_def)
qed (rule iter_mut_calls [OF ok])

text \<open>
  C17. Owned iteration moves every element out exactly once and loses none: from a store without
  locks, any number of calls of \<open>next\<close> return the elements with their IDs one after the other
  and then \<open>None\<close> forever, for every element type and build; nothing panics and no element is
  dropped by it. Where dropping is defined (the element type has no destructor, or the build has no
  debug assertions, or an \<open>Option\<close> of the type starts with the element), dropping the iterator at
  that point runs the destructors of exactly the elements it has not returned, each once.
\<close>

theorem into_iter_yields:
  assumes ok: "store_ok Q s" and free: "all_free s"
  shows "\<exists>xs. distinct (map fst xs) \<and> (\<forall>i v. (i, v) \<in> set xs \<longleftrightarrow> abs_store s i = Some (v, Free)) \<and>
    (\<forall>n. \<exists>iters h. calls (into_iter_next cfg A panicking) n (store_into_iter s) (memory s) =
        Value ((map Some (take n xs) @ replicate (n - length xs) None, []), iters, h) \<and>
      (drop_defined cfg A \<longrightarrow> (\<exists>d. into_iter_drop cfg A panicking iters h = Value d \<and>
        mset d = mset (destroyed A (map snd (drop n xs))))))"
proof (rule exI [of _ "live_list s"], intro conjI allI)
  show "distinct (map fst (live_list s))" using live_list_spec(1) [OF ok] .
  show "(i, v) \<in> set (live_list s) \<longleftrightarrow> abs_store s i = Some (v, Free)" for i v
    using live_list_free [OF ok free] .
  show "\<exists>iters h. calls (into_iter_next cfg A panicking) n (store_into_iter s) (memory s) =
        Value ((map Some (take n (live_list s)) @ replicate (n - length (live_list s)) None, []), iters, h) \<and>
      (drop_defined cfg A \<longrightarrow> (\<exists>d. into_iter_drop cfg A panicking iters h = Value d \<and>
        mset d = mset (destroyed A (map snd (drop n (live_list s))))))" for n
    using into_iter_calls [OF ok free, of cfg A panicking n]
    by (auto simp: store_into_iter_def drops_def)
qed

text \<open>
  C19. Where dropping is defined (the element type has no destructor, or the build has no debug
  assertions, or an \<open>Option\<close> of the type starts with the element), dropping a store without locks
  does not panic and runs the destructor of every element that is present exactly once, and of no
  element that was removed; of a type without a destructor none runs.
\<close>

theorem store_drop_once:
  assumes ok: "store_ok Q s" and free: "all_free s" and defined: "drop_defined cfg A"
  shows "\<exists>xs d. distinct (map fst xs) \<and> (\<forall>i v. (i, v) \<in> set xs \<longleftrightarrow> abs_store s i = Some (v, Free)) \<and>
    store_drop cfg A panicking s = Value d \<and> mset d = mset (destroyed A (map snd xs))"
  using live_list_spec(1) [OF ok] live_list_free [OF ok free] store_drop_step [OF ok free, of cfg A panicking]
    defined
  by (auto simp: drops_def)

lemma length_live_list:
  assumes ok: "store_ok Q s"
  shows "length (live_list s) = card (dom (abs_store s))"
proof -
  have "fst ` set (live_list s) = dom (abs_store s)"
    using live_list_spec(2) [OF ok] by (force simp: image_iff)
  then show ?thesis using distinct_card [OF live_list_spec(1) [OF ok]] by simp
qed

text \<open>
  C38. Where dropping is not defined: in a build with debug assertions, for an element type with a
  destructor whose \<open>Option\<close> does not start with the element, the destructor that \<open>Drop for Slot\<close>
  runs reads the discriminant as an element. Dropping a store without locks that is not empty is
  undefined behaviour, and so is dropping an owned iterator before it has returned every element;
  afterwards, it is harmless.
\<close>

theorem store_drop_undefined:
  assumes ok: "store_ok Q s" and free: "all_free s" and debug: "debug_assertions cfg"
    and type: "element_needs_drop A" "option_offset A \<noteq> 0"
  shows "(abs_store s \<noteq> Map.empty \<longrightarrow> store_drop cfg A panicking s = Fault UndefinedBehaviour) \<and>
    (\<forall>n. \<exists>rs iters h. calls (into_iter_next cfg A panicking) n (store_into_iter s) (memory s) =
        Value ((rs, []), iters, h) \<and>
      into_iter_drop cfg A panicking iters h =
        (if n < card (dom (abs_store s)) then Fault UndefinedBehaviour else Value []))"
proof (intro conjI impI allI)
  have not: "\<not> drop_defined cfg A" using debug type by (simp add: drop_defined_def element_offset_def)
  note len = length_live_list [OF ok]
  show "store_drop cfg A panicking s = Fault UndefinedBehaviour" if "abs_store s \<noteq> Map.empty"
  proof -
    have "\<exists>i. abs_store s i \<noteq> None" using that by (meson ext)
    then obtain i v l where "abs_store s i = Some (v, l)" by auto
    then have "(i, v) \<in> set (live_list s)" using live_list_spec(2) [OF ok] by blast
    then have "live_list s \<noteq> []" by auto
    with store_drop_step [OF ok free, of cfg A panicking] not show ?thesis by (simp add: drops_def)
  qed
  show "\<exists>rs iters h. calls (into_iter_next cfg A panicking) n (store_into_iter s) (memory s) =
        Value ((rs, []), iters, h) \<and>
      into_iter_drop cfg A panicking iters h =
        (if n < card (dom (abs_store s)) then Fault UndefinedBehaviour else Value [])" for n
    using into_iter_calls [OF ok free, of cfg A panicking n] not
    by (fastforce simp: store_into_iter_def drops_def len split: if_splits)
qed

section \<open>Size hints\<close>

lemma length_slot_entry: "length (slot_entry item sid h p) \<le> 1"
  by (simp add: slot_entry_def split: option.split)

lemma length_entries: "length (entries item sid h ps) \<le> length ps"
proof (induction ps)
  case (Cons p ps)
  then show ?case using add_mono [OF length_slot_entry Cons.IH, of item sid h p] by simp
qed simp

lemma length_chain_bases: "chain_ok sid k blk \<Longrightarrow> length (chain_bases k blk) = k"
  by (induction k blk rule: chain_bases.induct) auto

lemma bucket_size_hint:
  assumes ok: "iter_ok good left sid h it" and small: "length (iter_bases it) < 32"
  shows "length (iter_slots it) < 2 ^ 32 \<and>
    bucket_iter_size_hint cfg it = Value (0, Some (of_nat (length (iter_slots it))))"
proof (cases "current_block it")
  case None
  then show ?thesis
    using ok by (simp add: iter_ok_def bucket_iter_size_hint_def tracked_len_def iter_slots_def
        head_size_to_total_size_0 checked_sub_def)
next
  case (Some b)
  with ok obtain k where k: "k < 32" "block_depth b = Suc k" "block_len b = 2 ^ k"
      "unat (block_len b) = 2 ^ k" "block_store b = sid" "chain_ok sid k (block_next b)"
      "unat (last_slot it) \<le> 2 ^ k" "distinct (chain_bases (Suc k) (Some b))"
      "distinct (block_slots b (rev [0..<2 ^ k]) @ chain_slots k (block_next b))"
      "iter_slots it = block_slots b (rev [0..<unat (last_slot it)]) @ chain_slots k (block_next b)"
      "iter_bases it = block_base b # chain_bases k (block_next b)"
    by (rule iter_ok_block)
  have k31: "k < 31" using small k(11) length_chain_bases [OF k(6)] by simp
  have len: "length (iter_slots it) = unat (last_slot it) + (2 ^ k - 1)"
    using length_chain_slots [OF k(6)] by (simp add: k(10) block_slots_def)
  have pow: "(2 ^ k :: nat) \<le> 2 ^ 30" using k31 by (intro power_increasing) auto
  have total: "unat (2 ^ Suc k - 1 :: u32) = 2 ^ Suc k - 1"
    using k31 by (simp add: unat_sub word_le_nat_alt unat_exp del: power_Suc)
  have last: "last_slot it \<le> 2 ^ k" using k(3,4,7) by (simp add: word_le_nat_alt)
  have unseen: "unat (2 ^ k - last_slot it) = 2 ^ k - unat (last_slot it)"
    using last k(3,4) by (simp add: unat_sub)
  have le: "2 ^ k - last_slot it \<le> (2 ^ Suc k - 1 :: u32)"
    using total unseen by (simp add: word_le_nat_alt)
  have "unat (2 ^ Suc k - 1 - (2 ^ k - last_slot it)) = length (iter_slots it)"
    using unat_sub [OF le] total unseen k(7) pow by (simp add: len)
  moreover have "bucket_iter_size_hint cfg it =
      Value (0, Some (ucast (2 ^ Suc k - 1 - (2 ^ k - last_slot it))))"
    using Some k(3) k31 last le
    by (simp add: bucket_iter_size_hint_def tracked_len_def head_size_to_total_size_exp
        checked_sub_ok word_le_nat_alt del: power_Suc)
  ultimately have "bucket_iter_size_hint cfg it = Value (0, Some (of_nat (length (iter_slots it))))"
    by (metis of_nat_unat)
  moreover have "length (iter_slots it) < 2 ^ 32" using k(7) pow by (simp add: len)
  ultimately show ?thesis by blast
qed

lemma sum_size_hints_ok:
  assumes "\<forall>it \<in> set iters. iter_ok good left sid h it \<and> length (iter_bases it) < 32"
    and "unat a + length iters * 2 ^ 32 < 2 ^ 64"
  shows "\<exists>u. sum_size_hints cfg iters (0, Some a) = Value (0, Some u) \<and>
    unat u = unat a + length (gen_slots iters)"
  using assms
proof (induction iters arbitrary: a)
  case (Cons it iters)
  let ?n = "length (iter_slots it)"
  have n: "?n < 2 ^ 32" "bucket_iter_size_hint cfg it = Value (0, Some (of_nat ?n))"
    using bucket_size_hint [of good left sid h it cfg] Cons.prems(1) by auto
  have unat: "unat (of_nat ?n :: u64) = ?n" using n(1) by (simp add: unat_of_nat)
  have sum: "unat a + ?n < 2 ^ LENGTH(64)" using n(1) Cons.prems(2) by simp
  then have add: "checked_add cfg a (of_nat ?n) = Value (a + of_nat ?n)"
    by (intro checked_add_ok) (simp add: unat)
  have unat_add: "unat (a + of_nat ?n) = unat a + ?n"
    using sum unat_add_lem [of a "of_nat ?n"] by (simp add: unat)
  then have "unat (a + of_nat ?n) + length iters * 2 ^ 32 < 2 ^ 64" using n(1) Cons.prems(2) by simp
  with Cons.IH Cons.prems(1) obtain u where u:
      "sum_size_hints cfg iters (0, Some (a + of_nat ?n)) = Value (0, Some u)"
      "unat u = unat (a + of_nat ?n) + length (gen_slots iters)" by (meson list.set_intros(2))
  have "length (gen_slots (it # iters)) = ?n + length (gen_slots iters)" by (simp add: gen_slots_def)
  moreover have "checked_add cfg 0 0 = Value (0 :: u64)" by (simp add: checked_add_def)
  ultimately show ?case using u n(2) add unat_add by simp
qed (simp add: gen_slots_def)

text \<open>However often it is called, an iterator returns at most \<open>k\<close> further elements.\<close>

definition yields_at_most ::
  "('i \<Rightarrow> 'e heap \<Rightarrow> (('r option \<times> 'e list) \<times> 'i \<times> 'e heap) outcome) \<Rightarrow> 'i \<Rightarrow> 'e heap \<Rightarrow> nat \<Rightarrow> bool" where
  "yields_at_most f it h k \<longleftrightarrow> (\<forall>m rs d it' h'. calls f m it h = Value ((rs, d), it', h') \<longrightarrow>
     length (filter (\<lambda>r. r \<noteq> None) rs) \<le> k)"

context block_tracker
begin

lemma size_hint_ok:
  assumes ok: "gen_ok good left sid h iters" and few: "length iters \<le> 16"
    and small: "\<forall>it \<in> set iters. length (iter_bases it) < 32"
  shows "\<exists>rs iters' h' u. calls (gen_iter_next cfg tr) n iters h = Value ((rs, []), iters', h') \<and>
    gen_iter_size_hint cfg iters' = Value (0, Some u) \<and>
    (n = 0 \<longrightarrow> unat u = length (gen_slots iters)) \<and>
    yields_at_most (gen_iter_next cfg tr) iters' h' (unat u)"
proof -
  obtain rs iters' h' where calls: "calls (gen_iter_next cfg tr) n iters h = Value ((rs, []), iters', h')"
      "gen_ok good left sid h' iters'" "shrinks iters iters'"
    using gen_nexts_ok [OF ok, of n] by blast
  have "\<forall>x \<in> set (map iter_bases iters). length x < 32" using small by simp
  then have "\<forall>it \<in> set iters'. iter_ok good left sid h' it \<and> length (iter_bases it) < 32"
    using calls(2,3) small by (auto simp: gen_ok_def shrinks_def)
  moreover have "length iters' \<le> 16" using calls(3) few by (simp add: shrinks_def)
  ultimately obtain u where u: "gen_iter_size_hint cfg iters' = Value (0, Some u)"
      "unat u = length (gen_slots iters')"
    using sum_size_hints_ok [of iters' good left sid h' 0 cfg] by (auto simp: gen_iter_size_hint_def)
  have "length (filter (\<lambda>r. r \<noteq> None) rs') \<le> unat u"
    if "calls (gen_iter_next cfg tr) m iters' h' = Value ((rs', d), iters'', h'')" for m rs' d iters'' h''
  proof -
    let ?xs = "entries item sid h' (gen_slots iters')"
    have "rs' = map Some (take m ?xs) @ replicate (m - length ?xs) None"
      using gen_nexts_ok [OF calls(2), of m] that by auto
    moreover have "filter (\<lambda>r. r \<noteq> None) (replicate k None) = []" for k :: nat by simp
    ultimately have "length (filter (\<lambda>r. r \<noteq> None) rs') \<le> length ?xs" by (simp add: filter_map o_def)
    then show ?thesis using length_entries [of item sid h' "gen_slots iters'"] by (simp add: u(2))
  qed
  then have "yields_at_most (gen_iter_next cfg tr) iters' h' (unat u)"
    by (auto simp: yields_at_most_def)
  then show ?thesis using calls(1) u by auto
qed

end

lemma store_iters_small:
  assumes ok: "store_ok Q s" and depth: "\<forall>b \<in> set (buckets s). depth b < 32"
  shows "length (into_iter_new s) \<le> 16" and "\<forall>it \<in> set (into_iter_new s). length (iter_bases it) < 32"
    and "length (gen_slots (into_iter_new s)) = length (touched s)"
proof -
  have frame: "frame_ok s" using ok by (simp add: store_ok_def)
  have gen: "gen_slots (into_iter_new s) = concat (map touched_slots (rev (buckets s)))"
      "map iter_bases (into_iter_new s) = map bases (buckets s)"
    using store_gen_ok(2,3) [OF frame, of "\<lambda>_. True" "\<lambda>_. True"] frame by (auto simp: frame_ok_def)
  show "length (into_iter_new s) \<le> 16"
    using frame by (simp add: into_iter_new_def frame_ok_def BUCKET_COUNT_def)
  have "length (chain_bases k blk) \<le> k" for k blk
    by (induction k blk rule: chain_bases.induct) auto
  then have "length (bases b) \<le> depth b" for b by (simp add: bases_def)
  then have "\<forall>x \<in> set (map bases (buckets s)). length x < 32"
    using depth by (auto intro: le_less_trans)
  then have "\<forall>x \<in> set (map iter_bases (into_iter_new s)). length x < 32" by (simp only: gen(2))
  then show "\<forall>it \<in> set (into_iter_new s). length (iter_bases it) < 32" by simp
  have "length (concat (map f (rev bs))) = length (concat (map f bs))"
    for f :: "bucket \<Rightarrow> address list" and bs by (induction bs) simp_all
  then show "length (gen_slots (into_iter_new s)) = length (touched s)" by (simp add: gen(1) touched_def)
qed

text \<open>
  C20. \<open>size_hint\<close> is sound at every point of an iteration: as long as no bucket has grown to a
  head of 2^31 slots, it does not panic, its lower bound is 0, and its upper bound is never exceeded
  by the elements that further calls of \<open>next\<close> yield; before the first call it is the number of
  slots that were ever handed out. This holds for mutable iterators, and for owned ones if the store
  has no locks.
\<close>

theorem size_hint_bounds:
  assumes ok: "store_ok Q s" and depth: "\<forall>b \<in> set (buckets s). depth b < 32"
  shows "(\<exists>rs iters u. calls (iter_mut_next cfg) n (store_iter_mut s) (memory s) =
        Value ((rs, []), iters, memory s) \<and>
      iter_mut_size_hint cfg iters = Value (0, Some u) \<and> (n = 0 \<longrightarrow> unat u = length (touched s)) \<and>
      yields_at_most (iter_mut_next cfg) iters (memory s) (unat u)) \<and>
    (all_free s \<longrightarrow> (\<exists>rs iters h u.
      calls (into_iter_next cfg A panicking) n (store_into_iter s) (memory s) = Value ((rs, []), iters, h) \<and>
      into_iter_size_hint cfg iters = Value (0, Some u) \<and> (n = 0 \<longrightarrow> unat u = length (touched s)) \<and>
      yields_at_most (into_iter_next cfg A panicking) iters h (unat u)))"
proof
  have step: "iter_mut_next cfg = gen_iter_next cfg (mut_tracker cfg)"
      "into_iter_next cfg A panicking = gen_iter_next cfg (owned_tracker cfg A panicking)"
    by (intro ext; simp add: iter_mut_next_def into_iter_next_def)+
  have same: "iter_mut_new s = into_iter_new s" by (simp add: iter_mut_new_def into_iter_new_def)
  note iters = store_iters_small [OF ok depth]
  obtain rs its h u where *: "calls (iter_mut_next cfg) n (iter_mut_new s) (memory s) = Value ((rs, []), its, h)"
      "gen_iter_size_hint cfg its = Value (0, Some u)" "n = 0 \<longrightarrow> unat u = length (touched s)"
      "yields_at_most (iter_mut_next cfg) its h (unat u)"
    using borrowing.size_hint_ok [OF touched_filled [OF ok], of cfg n] iters unfolding step same by auto
  moreover have "h = memory s"
    using *(1) unfolding step by (rule calls_reads [rotated]) (rule mut_gen_reads [OF refl])
  ultimately show "\<exists>rs iters u. calls (iter_mut_next cfg) n (store_iter_mut s) (memory s) =
        Value ((rs, []), iters, memory s) \<and>
      iter_mut_size_hint cfg iters = Value (0, Some u) \<and> (n = 0 \<longrightarrow> unat u = length (touched s)) \<and>
      yields_at_most (iter_mut_next cfg) iters (memory s) (unat u)"
    unfolding store_iter_mut_def iter_mut_size_hint_def by blast
  show "all_free s \<longrightarrow> (\<exists>rs iters h u.
      calls (into_iter_next cfg A panicking) n (store_into_iter s) (memory s) = Value ((rs, []), iters, h) \<and>
      into_iter_size_hint cfg iters = Value (0, Some u) \<and> (n = 0 \<longrightarrow> unat u = length (touched s)) \<and>
      yields_at_most (into_iter_next cfg A panicking) iters h (unat u))"
    using owned.size_hint_ok [OF touched_unlocked [OF ok], where n = n and cfg = cfg and A = A and panicking = panicking]
      iters
    unfolding step store_into_iter_def into_iter_size_hint_def by auto
qed

section \<open>The properties on a store with one element\<close>

lemma one_free:
  obtains s :: "(nat, address list) store" and i where "store_ok vec_queue s" and "all_free s"
    and "abs_store s = [i \<mapsto> (42, Free)]"
proof -
  obtain s :: "(nat, address list) store" and i where "store_ok vec_queue s" "issued_ids s = {i}"
      "abs_store s = [i \<mapsto> (42, Free)]" by (rule one_element)
  with that show ?thesis by (simp add: all_free_def)
qed

lemma singleton_list:
  assumes "distinct (map fst xs)" and "\<And>j u. (j, u) \<in> set xs \<longleftrightarrow> j = i \<and> u = v"
  shows "xs = [(i, v)]"
proof -
  have "set xs = {(i, v)}" using assms(2) by auto
  moreover have "length xs = card (set xs)" using assms(1) by (metis distinct_card distinct_map)
  ultimately have "length xs = 1" by simp
  then obtain y where "xs = [y]" by (auto simp: length_Suc_conv)
  with \<open>set xs = {(i, v)}\<close> show ?thesis by simp
qed

theorem iter_mut_yields_witness:
  "\<exists>(s :: (nat, address list) store) i iters.
    calls (iter_mut_next debug_build) 2 (store_iter_mut s) (memory s) =
      Value (([Some (i, slot_address i), None], []), iters, memory s)"
proof -
  obtain s :: "(nat, address list) store" and i where s: "store_ok vec_queue s" "all_free s"
      "abs_store s = [i \<mapsto> (42, Free)]" by (rule one_free)
  from iter_mut_yields [OF s(1), of debug_build] obtain xs where xs: "distinct (map fst xs)"
      "\<And>j p. (j, p) \<in> set xs \<longleftrightarrow> j = i \<and> p = slot_address i"
      "\<forall>n. \<exists>iters. calls (iter_mut_next debug_build) n (store_iter_mut s) (memory s) =
        Value ((map Some (take n xs) @ replicate (n - length xs) None, []), iters, memory s)"
    using s(3) by (auto split: if_splits)
  have "xs = [(i, slot_address i)]" using xs(1,2) by (rule singleton_list)
  with xs(3) [rule_format, of 2] show ?thesis by auto
qed

theorem into_iter_yields_witness:
  "\<exists>(s :: (nat, address list) store) i iters h.
    calls (into_iter_next debug_build small_platform False) 2 (store_into_iter s) (memory s) =
      Value (([Some (i, 42), None], []), iters, h) \<and>
    into_iter_drop debug_build small_platform False iters h = Value []"
proof -
  obtain s :: "(nat, address list) store" and i where s: "store_ok vec_queue s" "all_free s"
      "abs_store s = [i \<mapsto> (42, Free)]" by (rule one_free)
  have "drop_defined debug_build small_platform"
    by (intro drop_definedI(2)) (simp add: small_platform_def)
  with into_iter_yields [OF s(1,2), of debug_build small_platform False]
  obtain xs where xs: "distinct (map fst xs)" "\<And>j v. (j, v) \<in> set xs \<longleftrightarrow> j = i \<and> v = 42"
      "\<forall>n. \<exists>iters h. calls (into_iter_next debug_build small_platform False) n (store_into_iter s) (memory s) =
          Value ((map Some (take n xs) @ replicate (n - length xs) None, []), iters, h) \<and>
        (\<exists>d. into_iter_drop debug_build small_platform False iters h = Value d \<and>
          mset d = mset (destroyed small_platform (map snd (drop n xs))))"
    using s(3) by (auto split: if_splits)
  have "xs = [(i, 42)]" using xs(1,2) by (rule singleton_list)
  with xs(3) [rule_format, of 2] show ?thesis by auto
qed

theorem store_drop_once_witness:
  "\<exists>s :: (nat, address list) store. store_drop debug_build small_platform False s = Value [42]"
proof -
  obtain s :: "(nat, address list) store" and i where s: "store_ok vec_queue s" "all_free s"
      "abs_store s = [i \<mapsto> (42, Free)]" by (rule one_free)
  have "drop_defined debug_build small_platform"
    by (intro drop_definedI(2)) (simp add: small_platform_def)
  from store_drop_once [OF s(1,2) this, of False] obtain xs d where xs: "distinct (map fst xs)"
      "\<forall>j v. (j, v) \<in> set xs \<longleftrightarrow> abs_store s j = Some (v, Free)"
      "store_drop debug_build small_platform False s = Value d"
      "mset d = mset (destroyed small_platform (map snd xs))"
    by blast
  have "xs = [(i, 42)]" using xs(1) by (rule singleton_list) (use xs(2) s(3) in auto)
  with xs(3,4) show ?thesis by (auto simp: destroyed_def small_platform_def)
qed

text \<open>A \<open>u64\<close> with a destructor: its \<open>Option\<close> has the discriminant in front.\<close>

theorem store_drop_undefined_witness:
  "\<exists>s :: (nat, address list) store. abs_store s \<noteq> Map.empty \<and>
    store_drop debug_build (small_platform\<lparr>option_offset := 8\<rparr>) False s = Fault UndefinedBehaviour"
proof -
  obtain s :: "(nat, address list) store" and i where s: "store_ok vec_queue s" "all_free s"
      "abs_store s = [i \<mapsto> (42, Free)]" by (rule one_free)
  have "abs_store s \<noteq> Map.empty" using s(3) by simp
  with store_drop_undefined [OF s(1,2), of debug_build "small_platform\<lparr>option_offset := 8\<rparr>" False] show ?thesis
    by (auto simp: debug_build_def small_platform_def)
qed

theorem size_hint_bounds_witness:
  "\<exists>(s :: (nat, address list) store) u v.
    iter_mut_size_hint debug_build (store_iter_mut s) = Value (0, Some u) \<and> unat u = 0 \<and>
    into_iter_size_hint debug_build (store_into_iter s) = Value (0, Some v) \<and> unat v = 0"
proof -
  obtain s :: "(nat, address list) store" where s: "store_ok vec_queue s" "abs_store s = Map.empty"
      "\<forall>b \<in> set (buckets s). depth b < 32" "touched s = []"
    by (rule new_store)
  then have "all_free s" by (simp add: all_free_def)
  with size_hint_bounds [OF s(1,3), of debug_build 0 small_platform False] s(4) show ?thesis by auto
qed

end
