(* ===== verification/RwHistory.thy ===== *)
theory RwHistory
  imports RwIterStore "HOL-Library.Multiset"
begin

text \<open>
  Histories of a store: what a client written in safe Rust can do with one, call by call. The
  client has the IDs that \<open>insert\<close> returned and owns the guards that were returned to it; Rust's
  ownership lets it use a guard until it is dropped, and lets it forget a guard without dropping
  it. \<open>api\<close> runs a call by the code, \<open>spec_api\<close> says what it does to the abstract store.
\<close>

section \<open>Calls\<close>

datatype 'e api_call =
    Insert 'e
  | Read elem_id timeout
  | Write elem_id timeout
  | Remove elem_id timeout
  | RemoveLocked write_lock
  | DerefRead read_lock
  | DerefWrite write_lock
  | Assign write_lock 'e
  | DropRead read_lock
  | DropWrite write_lock
  | ForgetRead read_lock
  | ForgetWrite write_lock
  | GetMut elem_id
  | AssignMut elem_id 'e
  | IterMut nat
  | Capacity

datatype 'e response =
    Inserted elem_id
  | ReadGuard "read_lock option block_result"
  | WriteGuard "write_lock option block_result"
  | Removed "'e option block_result"
  | Element 'e
  | Borrowed "'e option"
  | Found bool
  | Visited "(elem_id \<times> 'e) option list"
  | Capacities u32 u32
  | Done

record ('e, 'q) client =
  client_store :: "('e, 'q) store"
  generator :: u32
  read_guards :: "read_lock multiset"
  write_guards :: "write_lock multiset"

fun new_guards :: "'g option block_result \<Rightarrow> 'g multiset" where
  "new_guards (Ok (Some g)) = {#g#}"
| "new_guards _ = {#}"

text \<open>The client looks at the elements that an iterator gave it references to.\<close>

primrec read_visited ::
  "'e heap \<Rightarrow> (elem_id \<times> address) option list \<Rightarrow> (elem_id \<times> 'e) option list outcome" where
  "read_visited h [] = Value []"
| "read_visited h (r # rs) =
     obind (case r of None \<Rightarrow> Value None | Some (i, p) \<Rightarrow> omap (\<lambda>v. Some (i, v)) (read_element h p)) (\<lambda>x.
       omap ((#) x) (read_visited h rs))"

fun api ::
  "build \<Rightarrow> platform \<Rightarrow> 'q erasure_queue \<Rightarrow> nat \<Rightarrow> 'e api_call \<Rightarrow> ('e, 'q) client \<Rightarrow>
    ('e response \<times> ('e, 'q) client) outcome" where
  "api cfg A Q spur (Insert e) c =
     omap (\<lambda>(i, lcg, s). (Inserted i, c\<lparr>client_store := s, generator := lcg\<rparr>))
       (store_insert cfg A Q (generator c) e (client_store c))"
| "api cfg A Q spur (Read i t) c =
     omap (\<lambda>(r, s). (ReadGuard r,
         c\<lparr>client_store := s, read_guards := read_guards c + new_guards r\<rparr>))
       (read_with_timeout cfg spur i t (client_store c))"
| "api cfg A Q spur (Write i t) c =
     omap (\<lambda>(r, s). (WriteGuard r,
         c\<lparr>client_store := s, write_guards := write_guards c + new_guards r\<rparr>))
       (write_with_timeout cfg spur i t (client_store c))"
| "api cfg A Q spur (Remove i t) c =
     omap (\<lambda>(r, s). (Removed r, c\<lparr>client_store := s\<rparr>))
       (remove_with_timeout cfg Q spur i t (client_store c))"
| "api cfg A Q spur (RemoveLocked l) c =
     omap (\<lambda>(e, s). (Element e, c\<lparr>client_store := s, write_guards := write_guards c - {#l#}\<rparr>))
       (store_remove_locked cfg Q l (client_store c))"
| "api cfg A Q spur (DerefRead l) c =
     omap (\<lambda>e. (Element e, c)) (read_lock_deref cfg l (memory (client_store c)))"
| "api cfg A Q spur (DerefWrite l) c =
     omap (\<lambda>e. (Element e, c)) (write_lock_deref cfg l (memory (client_store c)))"
| "api cfg A Q spur (Assign l e) c =
     omap (\<lambda>h. (Done, c\<lparr>client_store := (client_store c)\<lparr>memory := h\<rparr>\<rparr>))
       (write_lock_assign cfg l e (memory (client_store c)))"
| "api cfg A Q spur (DropRead l) c =
     omap (\<lambda>s. (Done, c\<lparr>client_store := s, read_guards := read_guards c - {#l#}\<rparr>))
       (drop_read_lock cfg spur l (client_store c))"
| "api cfg A Q spur (DropWrite l) c =
     omap (\<lambda>s. (Done, c\<lparr>client_store := s, write_guards := write_guards c - {#l#}\<rparr>))
       (drop_write_lock cfg l (client_store c))"
| "api cfg A Q spur (ForgetRead l) c =
     Value (Done, c\<lparr>read_guards := read_guards c - {#l#}\<rparr>)"
| "api cfg A Q spur (ForgetWrite l) c =
     Value (Done, c\<lparr>write_guards := write_guards c - {#l#}\<rparr>)"
| "api cfg A Q spur (GetMut i) c =
     obind (store_get_mut cfg i (client_store c)) (\<lambda>r. case r of
         None \<Rightarrow> Value (Borrowed None, c)
       | Some p \<Rightarrow> omap (\<lambda>v. (Borrowed (Some v), c)) (read_element (memory (client_store c)) p))"
| "api cfg A Q spur (AssignMut i e) c =
     obind (store_get_mut cfg i (client_store c)) (\<lambda>r. case r of
         None \<Rightarrow> Value (Found False, c)
       | Some p \<Rightarrow> omap (\<lambda>h. (Found True, c\<lparr>client_store := (client_store c)\<lparr>memory := h\<rparr>\<rparr>))
           (write_element (memory (client_store c)) p e))"
| "api cfg A Q spur (IterMut n) c =
     obind (calls (iter_mut_next cfg) n (store_iter_mut (client_store c)) (memory (client_store c)))
       (\<lambda>((rs, _), _, h). omap (\<lambda>vs. (Visited vs, c\<lparr>client_store := (client_store c)\<lparr>memory := h\<rparr>\<rparr>))
         (read_visited h rs))"
| "api cfg A Q spur Capacity c =
     omap (\<lambda>(touched, allocated). (Capacities touched allocated, c)) (store_capacity cfg (client_store c))"

text \<open>
  The calls a client can make: an ID comes from an insert into this store (the crate's safety
  contract excludes others), a guard is one it owns, and \<open>get_mut\<close> and \<open>iter_mut\<close> borrow the store
  mutably, so there are no guards. An insert needs memory to grow a bucket; \<open>capacity\<close> needs numbers
  of slots that fit in 32 bits and buckets that have not grown to their largest block. The calls
  that consume the store are not part of a history; they end one.
\<close>

fun usable :: "platform \<Rightarrow> 'e api_call \<Rightarrow> ('e, 'q) client \<Rightarrow> bool" where
  "usable A (Insert e) c = (\<forall>b \<in> set (buckets (client_store c)). room A b)"
| "usable A (Read i t) c = (i \<in> issued_ids (client_store c))"
| "usable A (Write i t) c = (i \<in> issued_ids (client_store c))"
| "usable A (Remove i t) c = (i \<in> issued_ids (client_store c))"
| "usable A (RemoveLocked l) c = (l \<in># write_guards c)"
| "usable A (DerefRead l) c = (l \<in># read_guards c)"
| "usable A (DerefWrite l) c = (l \<in># write_guards c)"
| "usable A (Assign l e) c = (l \<in># write_guards c)"
| "usable A (DropRead l) c = (l \<in># read_guards c)"
| "usable A (DropWrite l) c = (l \<in># write_guards c)"
| "usable A (ForgetRead l) c = (l \<in># read_guards c)"
| "usable A (ForgetWrite l) c = (l \<in># write_guards c)"
| "usable A (GetMut i) c =
     (i \<in> issued_ids (client_store c) \<and> read_guards c = {#} \<and> write_guards c = {#})"
| "usable A (AssignMut i e) c =
     (i \<in> issued_ids (client_store c) \<and> read_guards c = {#} \<and> write_guards c = {#})"
| "usable A (IterMut n) c = (read_guards c = {#} \<and> write_guards c = {#})"
| "usable A Capacity c =
     ((\<forall>b \<in> set (buckets (client_store c)). depth b < 32) \<and>
      length (untouched (client_store c)) + length (touched (client_store c)) < 2 ^ 32)"

inductive history ::
  "build \<Rightarrow> platform \<Rightarrow> 'q erasure_queue \<Rightarrow> ('e, 'q) client \<Rightarrow>
    ('e api_call \<times> 'e response) list \<Rightarrow> ('e, 'q) client \<Rightarrow> bool"
  for cfg :: build and A :: platform and Q :: "'q erasure_queue" and c0 :: "('e, 'q) client" where
  start: "history cfg A Q c0 [] c0"
| call: "history cfg A Q c0 tr c \<Longrightarrow> usable A x c \<Longrightarrow> api cfg A Q spur x c = Value (r, c') \<Longrightarrow>
    history cfg A Q c0 (tr @ [(x, r)]) c'"

section \<open>The abstract client\<close>

record 'e abs_client =
  entries_of :: "'e abs_store"
  ids_of :: "elem_id set"
  reading :: "read_lock multiset"
  writing :: "write_lock multiset"

definition abs_client :: "('e, 'q) client \<Rightarrow> 'e abs_client" where
  "abs_client c = \<lparr>entries_of = abs_store (client_store c), ids_of = issued_ids (client_store c),
     reading = read_guards c, writing = write_guards c\<rparr>"

fun spec_api :: "'e api_call \<Rightarrow> 'e abs_client \<Rightarrow> ('e response \<times> 'e abs_client) outcome \<Rightarrow> bool"
where
  "spec_api (Insert e) a m =
     (\<exists>i. i \<notin> ids_of a \<and>
       m = Value (Inserted i,
         a\<lparr>entries_of := (entries_of a)(i \<mapsto> (e, Free)), ids_of := insert i (ids_of a)\<rparr>))"
| "spec_api (Read i t) a m =
     (m = omap (\<lambda>(r, f). (ReadGuard r, a\<lparr>entries_of := f, reading := reading a + new_guards r\<rparr>))
       (spec_read i t (entries_of a)))"
| "spec_api (Write i t) a m =
     (m = omap (\<lambda>(r, f). (WriteGuard r, a\<lparr>entries_of := f, writing := writing a + new_guards r\<rparr>))
       (spec_write i t (entries_of a)))"
| "spec_api (Remove i t) a m =
     (m = omap (\<lambda>(r, f). (Removed r, a\<lparr>entries_of := f\<rparr>)) (spec_remove i t (entries_of a)))"
| "spec_api (RemoveLocked l) a m =
     (\<exists>v. entries_of a (write_id l) = Some (v, Writer) \<and>
       m = Value (Element v, a\<lparr>entries_of := (entries_of a)(write_id l := None),
         writing := writing a - {#l#}\<rparr>))"
| "spec_api (DerefRead l) a m =
     (\<exists>v k. entries_of a (read_id l) = Some (v, Readers k) \<and> m = Value (Element v, a))"
| "spec_api (DerefWrite l) a m =
     (\<exists>v. entries_of a (write_id l) = Some (v, Writer) \<and> m = Value (Element v, a))"
| "spec_api (Assign l e) a m =
     (\<exists>v. entries_of a (write_id l) = Some (v, Writer) \<and>
       m = Value (Done, a\<lparr>entries_of := (entries_of a)(write_id l \<mapsto> (e, Writer))\<rparr>))"
| "spec_api (DropRead l) a m =
     (\<exists>v k. entries_of a (read_id l) = Some (v, Readers k) \<and>
       m = Value (Done, a\<lparr>entries_of := (entries_of a)(read_id l \<mapsto>
           (v, if k = 1 then Free else Readers (k - 1))),
         reading := reading a - {#l#}\<rparr>))"
| "spec_api (DropWrite l) a m =
     (\<exists>v. entries_of a (write_id l) = Some (v, Writer) \<and>
       m = Value (Done, a\<lparr>entries_of := (entries_of a)(write_id l \<mapsto> (v, Free)),
         writing := writing a - {#l#}\<rparr>))"
| "spec_api (ForgetRead l) a m = (m = Value (Done, a\<lparr>reading := reading a - {#l#}\<rparr>))"
| "spec_api (ForgetWrite l) a m = (m = Value (Done, a\<lparr>writing := writing a - {#l#}\<rparr>))"
| "spec_api (GetMut i) a m = (m = Value (Borrowed (map_option fst (entries_of a i)), a))"
| "spec_api (AssignMut i e) a m =
     (m = (case entries_of a i of
         None \<Rightarrow> Value (Found False, a)
       | Some (v, l) \<Rightarrow> Value (Found True, a\<lparr>entries_of := (entries_of a)(i \<mapsto> (e, l))\<rparr>)))"
| "spec_api (IterMut n) a m =
     (\<exists>xs. distinct (map fst xs) \<and> (\<forall>i v. (i, v) \<in> set xs \<longleftrightarrow> (\<exists>l. entries_of a i = Some (v, l))) \<and>
       m = Value (Visited (map Some (take n xs) @ replicate (n - length xs) None), a))"
| "spec_api Capacity a m =
     (\<exists>t n. card (dom (entries_of a)) \<le> unat t \<and> unat t \<le> unat n \<and> m = Value (Capacities t n, a))"

inductive spec_history ::
  "'e abs_client \<Rightarrow> ('e api_call \<times> 'e response) list \<Rightarrow> 'e abs_client \<Rightarrow> bool"
  for a0 :: "'e abs_client" where
  start: "spec_history a0 [] a0"
| call: "spec_history a0 tr a \<Longrightarrow> spec_api x a (Value (r, a')) \<Longrightarrow>
    spec_history a0 (tr @ [(x, r)]) a'"

section \<open>Guards and locks\<close>

text \<open>
  A guard stands for a lock on an element that is present. When guards were forgotten there may be
  more readers than guards, and a writer without a guard; when none was (\<open>x\<close>), every lock has its
  guard.
\<close>

fun guards_fit :: "bool \<Rightarrow> ('e \<times> lock_state) option \<Rightarrow> nat \<Rightarrow> nat \<Rightarrow> bool" where
  "guards_fit x (Some (v, Readers k)) rd wr = (rd \<le> k \<and> wr = 0 \<and> (x \<longrightarrow> rd = k))"
| "guards_fit x (Some (v, Writer)) rd wr = (rd = 0 \<and> wr \<le> 1 \<and> (x \<longrightarrow> wr = 1))"
| "guards_fit x _ rd wr = (rd = 0 \<and> wr = 0)"

definition guards_ok :: "bool \<Rightarrow> 'e abs_client \<Rightarrow> bool" where
  "guards_ok x a \<longleftrightarrow>
     (\<forall>l \<in># reading a. read_id l \<in> ids_of a) \<and> (\<forall>l \<in># writing a. write_id l \<in> ids_of a) \<and>
     (\<forall>i. guards_fit x (entries_of a i) (count (reading a) (ReadLock i))
        (count (writing a) (WriteLock i)))"

definition client_ok :: "'q erasure_queue \<Rightarrow> bool \<Rightarrow> ('e, 'q) client \<Rightarrow> bool" where
  "client_ok Q x c \<longleftrightarrow> store_ok Q (client_store c) \<and> guards_ok x (abs_client c)"

fun forgets :: "'e api_call \<Rightarrow> bool" where
  "forgets (ForgetRead l) = True"
| "forgets (ForgetWrite l) = True"
| "forgets _ = False"

lemma abs_client_simps [simp]:
  "entries_of (abs_client c) = abs_store (client_store c)"
  "ids_of (abs_client c) = issued_ids (client_store c)"
  "reading (abs_client c) = read_guards c" "writing (abs_client c) = write_guards c"
  by (simp_all add: abs_client_def)

lemma guarded_read:
  assumes "guards_ok x a" and "l \<in># reading a"
  obtains i v k where "l = ReadLock i" and "i \<in> ids_of a" and "entries_of a i = Some (v, Readers k)"
    and "count (reading a) l \<le> k" and "x \<longrightarrow> count (reading a) l = k" and "count (writing a) (WriteLock i) = 0"
proof -
  obtain i where l: "l = ReadLock i" by (cases l)
  then have fit: "guards_fit x (entries_of a i) (count (reading a) l) (count (writing a) (WriteLock i))"
    and "i \<in> ids_of a" and "0 < count (reading a) l"
    using assms by (auto simp: guards_ok_def)
  with l show ?thesis
    by (cases "(x, entries_of a i, count (reading a) l, count (writing a) (WriteLock i))"
        rule: guards_fit.cases) (auto intro: that simp del: count_greater_zero_iff)
qed

lemma guarded_write:
  assumes "guards_ok x a" and "l \<in># writing a"
  obtains i v where "l = WriteLock i" and "i \<in> ids_of a" and "entries_of a i = Some (v, Writer)"
    and "count (writing a) l = 1" and "count (reading a) (ReadLock i) = 0"
proof -
  obtain i where l: "l = WriteLock i" by (cases l)
  then have fit: "guards_fit x (entries_of a i) (count (reading a) (ReadLock i)) (count (writing a) l)"
    and "i \<in> ids_of a" and "0 < count (writing a) l"
    using assms by (auto simp: guards_ok_def)
  with l show ?thesis
    by (cases "(x, entries_of a i, count (reading a) (ReadLock i), count (writing a) l)"
        rule: guards_fit.cases) (auto intro: that simp del: count_greater_zero_iff)
qed

text \<open>A call changes the entry of one ID and the guards of that ID.\<close>

lemma guards_ok_at:
  assumes ok: "guards_ok x a" and i: "i \<in> ids_of a'" and ids: "ids_of a \<subseteq> ids_of a'"
    and entries: "\<And>j. j \<noteq> i \<Longrightarrow> entries_of a' j = entries_of a j"
    and rd: "\<And>j. j \<noteq> i \<Longrightarrow> count (reading a') (ReadLock j) = count (reading a) (ReadLock j)"
    and wr: "\<And>j. j \<noteq> i \<Longrightarrow> count (writing a') (WriteLock j) = count (writing a) (WriteLock j)"
    and fit: "guards_fit x (entries_of a' i) (count (reading a') (ReadLock i))
      (count (writing a') (WriteLock i))"
  shows "guards_ok x a'"
  unfolding guards_ok_def
proof (intro conjI ballI allI)
  fix l assume l: "l \<in># reading a'"
  show "read_id l \<in> ids_of a'"
  proof (cases "read_id l = i")
    case False
    then have "count (reading a) l = count (reading a') l" using rd [of "read_id l"] by simp
    then have "l \<in># reading a" using l by (metis count_greater_zero_iff)
    then show ?thesis using ok ids by (auto simp: guards_ok_def)
  qed (use i in simp)
next
  fix l assume l: "l \<in># writing a'"
  show "write_id l \<in> ids_of a'"
  proof (cases "write_id l = i")
    case False
    then have "count (writing a) l = count (writing a') l" using wr [of "write_id l"] by simp
    then have "l \<in># writing a" using l by (metis count_greater_zero_iff)
    then show ?thesis using ok ids by (auto simp: guards_ok_def)
  qed (use i in simp)
next
  fix j
  show "guards_fit x (entries_of a' j) (count (reading a') (ReadLock j)) (count (writing a') (WriteLock j))"
    using ok fit entries [of j] rd [of j] wr [of j] by (cases "j = i") (auto simp: guards_ok_def)
qed

lemma guards_fit_at:
  "guards_ok x a \<Longrightarrow> guards_fit x (entries_of a i) (count (reading a) (ReadLock i))
     (count (writing a) (WriteLock i))"
  by (simp add: guards_ok_def)

lemma no_guards:
  assumes "guards_ok x a" and "i \<notin> ids_of a"
  shows "count (reading a) (ReadLock i) = 0" and "count (writing a) (WriteLock i) = 0"
  using assms by (force simp: guards_ok_def not_in_iff [symmetric])+

lemma spec_keeps_guards:
  assumes ok: "guards_ok x (abs_client c)" and u: "usable A call c"
    and step: "spec_api call (abs_client c) (Value (r, a'))" and kept: "x \<longrightarrow> \<not> forgets call"
  shows "guards_ok x a'"
proof (cases call)
  case (Insert e)
  with step obtain i where "i \<notin> issued_ids (client_store c)"
      "a' = (abs_client c)\<lparr>entries_of := (abs_store (client_store c))(i \<mapsto> (e, Free)),
        ids_of := insert i (issued_ids (client_store c))\<rparr>"
    by auto
  with no_guards [OF ok, of i] show ?thesis
    by (intro guards_ok_at [OF ok, of i]) auto
next
  case (Read i t)
  then show ?thesis
    using step u guards_fit_at [OF ok, of i]
    by (intro guards_ok_at [OF ok, of i])
      (auto simp: spec_read_def spec_wait_def omap_Value_iff split: option.splits lock_state.splits if_splits)
next
  case (Write i t)
  then show ?thesis
    using step u guards_fit_at [OF ok, of i]
    by (intro guards_ok_at [OF ok, of i])
      (auto simp: spec_write_def spec_wait_def omap_Value_iff split: option.splits lock_state.splits if_splits)
next
  case (Remove i t)
  then show ?thesis
    using step u guards_fit_at [OF ok, of i]
    by (intro guards_ok_at [OF ok, of i])
      (auto simp: spec_remove_def spec_wait_def omap_Value_iff split: option.splits lock_state.splits if_splits)
next
  case (RemoveLocked l)
  with u obtain i v where "l = WriteLock i" "i \<in> issued_ids (client_store c)"
      "count (write_guards c) l = 1" "count (read_guards c) (ReadLock i) = 0"
    using guarded_write [OF ok, of l] by auto
  with RemoveLocked step show ?thesis by (intro guards_ok_at [OF ok, of i]) auto
next
  case (Assign l e)
  with u obtain i v where "l = WriteLock i" "i \<in> issued_ids (client_store c)"
      "count (write_guards c) l = 1" "count (read_guards c) (ReadLock i) = 0"
    using guarded_write [OF ok, of l] by auto
  with Assign step show ?thesis by (intro guards_ok_at [OF ok, of i]) auto
next
  case (DropWrite l)
  with u obtain i v where "l = WriteLock i" "i \<in> issued_ids (client_store c)"
      "count (write_guards c) l = 1" "count (read_guards c) (ReadLock i) = 0"
    using guarded_write [OF ok, of l] by auto
  with DropWrite step show ?thesis by (intro guards_ok_at [OF ok, of i]) auto
next
  case (ForgetWrite l)
  with u obtain i v where "l = WriteLock i" "i \<in> issued_ids (client_store c)"
      "abs_store (client_store c) i = Some (v, Writer)"
      "count (write_guards c) l = 1" "count (read_guards c) (ReadLock i) = 0"
    using guarded_write [OF ok, of l] by auto
  with ForgetWrite step kept show ?thesis by (intro guards_ok_at [OF ok, of i]) auto
next
  case (DropRead l)
  with u have l: "l \<in># reading (abs_client c)" by simp
  then obtain i v k where "l = ReadLock i" "i \<in> ids_of (abs_client c)"
      "entries_of (abs_client c) i = Some (v, Readers k)"
      "count (reading (abs_client c)) l \<le> k" "x \<longrightarrow> count (reading (abs_client c)) l = k"
      "count (writing (abs_client c)) (WriteLock i) = 0"
    by (rule guarded_read [OF ok])
  moreover have "0 < count (read_guards c) l" using l by simp
  ultimately show ?thesis using DropRead step
    by (intro guards_ok_at [OF ok, of i]) (auto simp del: count_greater_zero_iff)
next
  case (ForgetRead l)
  with u have "l \<in># reading (abs_client c)" by simp
  then obtain i v k where "l = ReadLock i" "i \<in> ids_of (abs_client c)"
      "entries_of (abs_client c) i = Some (v, Readers k)"
      "count (reading (abs_client c)) l \<le> k" "x \<longrightarrow> count (reading (abs_client c)) l = k"
      "count (writing (abs_client c)) (WriteLock i) = 0"
    by (rule guarded_read [OF ok])
  with ForgetRead step kept show ?thesis by (intro guards_ok_at [OF ok, of i]) auto
next
  case (AssignMut i e)
  then show ?thesis
    using step u guards_fit_at [OF ok, of i]
    by (cases "abs_store (client_store c) i"; cases "snd (the (abs_store (client_store c) i))")
      (auto intro!: guards_ok_at [OF ok, of i] simp: ok)
qed (use ok step in auto)

section \<open>The code implements the abstract client\<close>

text \<open>What a call did, seen in the abstract store.\<close>

definition absorb :: "('e response \<times> ('e, 'q) client) outcome \<Rightarrow> ('e response \<times> 'e abs_client) outcome"
where
  "absorb = omap (\<lambda>(r, c). (r, abs_client c))"

lemma absorb_simps [simp]:
  "absorb (Value (r, c)) = Value (r, abs_client c)"
  "absorb (Fault f) = Fault f"
  "absorb Hang = Hang"
  by (simp_all add: absorb_def)

text \<open>
  A call of the store that refines an abstract one, in a client: \<open>g\<close> makes the response and the
  new client of its result.
\<close>

lemma refines_call:
  assumes ref: "refines Q s impl spec"
    and f: "\<And>r s'. issued_ids s' = issued_ids s \<Longrightarrow>
      (case g (r, s') of (x, c) \<Rightarrow> (x, abs_client c)) = f (r, abs_store s')"
    and g: "\<And>r s'. client_store (snd (g (r, s'))) = s'"
  shows "absorb (omap g impl) = omap f spec \<and>
    (\<forall>x c. omap g impl = Value (x, c) \<longrightarrow> store_ok Q (client_store c))"
proof (cases impl)
  case (Value rs)
  obtain r s' where rs: "rs = (r, s')" by (cases rs)
  have spec: "spec = Value (r, abs_store s')" "store_ok Q s'" "issued_ids s' = issued_ids s"
    using ref by (auto simp: refines_def Value rs)
  obtain x c where "g (r, s') = (x, c)" by fastforce
  then show ?thesis using f [OF spec(3), of r] g [of r s'] spec(2) by (simp add: Value rs spec(1))
qed (use ref in \<open>auto simp: refines_def\<close>)

lemma assign_mut_step:
  assumes ok: "store_ok Q s" and i: "i \<in> issued_ids s" and a: "abs_store s i = Some (v, l)"
  shows "\<exists>h. write_element (memory s) (slot_address i) e = Value h \<and> store_ok Q (s\<lparr>memory := h\<rparr>) \<and>
    issued_ids (s\<lparr>memory := h\<rparr>) = issued_ids s \<and>
    abs_store (s\<lparr>memory := h\<rparr>) = (abs_store s)(i \<mapsto> (e, l))"
  using ok i
proof (cases rule: issued_cases)
  case (gone sl n r j)
  with a show ?thesis by simp
next
  case (present n r u)
  then have l: "l = (if r = 0 then Free else if r = 2147483647 then Writer else Readers r)" using a by simp
  let ?h = "memory (put_slot s (slot_address i) \<lparr>slot_header = pack n r (ordinal i), slot_value = Some e\<rparr>)"
  have "write_element (memory s) (slot_address i) e = Value ?h"
    using present by (simp add: write_element_def put_slot_def)
  moreover have "s\<lparr>memory := ?h\<rparr> =
      put_slot s (slot_address i) \<lparr>slot_header = pack n r (ordinal i), slot_value = Some e\<rparr>"
    by (simp add: put_slot_def)
  moreover have "store_ok Q (s\<lparr>memory := ?h\<rparr>) \<and> issued_ids (s\<lparr>memory := ?h\<rparr>) = issued_ids s \<and>
      abs_store (s\<lparr>memory := ?h\<rparr>) = (abs_store s)(i \<mapsto> (e, l))"
    using put_present [OF ok present(5,4,1) _ present(3,2,3,2) refl, of e] l unfolding calculation(2) by simp
  ultimately show ?thesis by blast
qed

lemma read_visited_live:
  assumes ok: "store_ok Q s" and "set xs \<subseteq> set (live_list s)"
  shows "read_visited (memory s) (map Some (map (\<lambda>(i, v). borrow i v) xs) @ replicate n None) =
    Value (map Some xs @ replicate n None)"
  using assms(2)
proof (induction xs)
  case Nil
  show ?case by (induction n) simp_all
next
  case (Cons x xs)
  obtain i v where x: "x = (i, v)" by (cases x)
  then obtain l where "abs_store s i = Some (v, l)" using live_list_spec(2) [OF ok] Cons.prems by auto
  with get_mut_step [OF ok present_issued [OF ok]] have "read_element (memory s) (slot_address i) = Value v"
    by blast
  with x Cons show ?case by (simp add: borrow_def)
qed

lemma api_refines:
  assumes Q: "fifo Q" and ok: "client_ok Q y c" and u: "usable A x c"
  shows "spec_api x (abs_client c) (absorb (api cfg A Q spur x c)) \<and>
    (\<forall>r c'. api cfg A Q spur x c = Value (r, c') \<longrightarrow> store_ok Q (client_store c'))"
proof -
  have s: "store_ok Q (client_store c)" and g: "guards_ok y (abs_client c)"
    using ok by (simp_all add: client_ok_def)
  show ?thesis
  proof (cases x)
    case (Insert e)
    with u have "\<forall>b \<in> set (buckets (client_store c)). room A b" by simp
    from insert_step [OF Q s this, of cfg "generator c" e] Insert show ?thesis
      by (auto simp: abs_client_def)
  next
    case (Read i t)
    with u have "i \<in> issued_ids (client_store c)" by simp
    note * = read_step [OF s this, of cfg spur t]
    show ?thesis
      unfolding Read api.simps spec_api.simps abs_client_simps
      by (rule refines_call [OF *]) (auto simp: abs_client_def)
  next
    case (Write i t)
    with u have "i \<in> issued_ids (client_store c)" by simp
    note * = write_step [OF s this, of cfg spur t]
    show ?thesis
      unfolding Write api.simps spec_api.simps abs_client_simps
      by (rule refines_call [OF *]) (auto simp: abs_client_def)
  next
    case (Remove i t)
    with u have "i \<in> issued_ids (client_store c)" by simp
    note * = remove_step [OF Q s this, of cfg spur t]
    show ?thesis
      unfolding Remove api.simps spec_api.simps abs_client_simps
      by (rule refines_call [OF *]) (auto simp: abs_client_def)
  next
    case (RemoveLocked l)
    with u have "l \<in># writing (abs_client c)" by simp
    then obtain i v where "l = WriteLock i" "i \<in> ids_of (abs_client c)"
        "entries_of (abs_client c) i = Some (v, Writer)"
      by (rule guarded_write [OF g])
    with write_guard_step [OF Q s, of i v cfg v] RemoveLocked show ?thesis
      by (auto simp: abs_client_def)
  next
    case (DerefWrite l)
    with u have "l \<in># writing (abs_client c)" by simp
    then obtain i v where "l = WriteLock i" "i \<in> ids_of (abs_client c)"
        "entries_of (abs_client c) i = Some (v, Writer)"
      by (rule guarded_write [OF g])
    with write_guard_step [OF Q s, of i v cfg v] DerefWrite s show ?thesis by auto
  next
    case (Assign l e)
    with u have "l \<in># writing (abs_client c)" by simp
    then obtain i v where "l = WriteLock i" "i \<in> ids_of (abs_client c)"
        "entries_of (abs_client c) i = Some (v, Writer)"
      by (rule guarded_write [OF g])
    with write_guard_step [OF Q s, of i v cfg e] Assign show ?thesis
      by (auto simp: abs_client_def)
  next
    case (DropWrite l)
    with u have "l \<in># writing (abs_client c)" by simp
    then obtain i v where "l = WriteLock i" "i \<in> ids_of (abs_client c)"
        "entries_of (abs_client c) i = Some (v, Writer)"
      by (rule guarded_write [OF g])
    with write_guard_step [OF Q s, of i v cfg v] DropWrite show ?thesis
      by (auto simp: abs_client_def)
  next
    case (DerefRead l)
    with u have "l \<in># reading (abs_client c)" by simp
    then obtain i v k where "l = ReadLock i" "i \<in> ids_of (abs_client c)"
        "entries_of (abs_client c) i = Some (v, Readers k)"
      by (rule guarded_read [OF g])
    with read_guard_step [OF s, of i v k cfg spur] DerefRead s show ?thesis by auto
  next
    case (DropRead l)
    with u have "l \<in># reading (abs_client c)" by simp
    then obtain i v k where "l = ReadLock i" "i \<in> ids_of (abs_client c)"
        "entries_of (abs_client c) i = Some (v, Readers k)"
      by (rule guarded_read [OF g])
    with read_guard_step [OF s, of i v k cfg spur] DropRead show ?thesis
      by (auto simp: abs_client_def)
  next
    case (GetMut i)
    with u get_mut_step [OF s, of i cfg] s show ?thesis
      by (auto split: option.split)
  next
    case (AssignMut i e)
    with u have i: "i \<in> issued_ids (client_store c)" by simp
    show ?thesis
    proof (cases "abs_store (client_store c) i")
      case None
      with get_mut_step [OF s i, of cfg] s AssignMut show ?thesis by simp
    next
      case (Some x)
      obtain v l where x: "abs_store (client_store c) i = Some (v, l)" using Some by (cases x) simp
      from get_mut_step [OF s i, of cfg] x have "store_get_mut cfg i (client_store c) = Value (Some (slot_address i))"
        by simp
      with assign_mut_step [OF s i x, of e] AssignMut x show ?thesis by (auto simp: abs_client_def)
    qed
  next
    case (IterMut n)
    let ?s = "client_store c"
    obtain iters where "calls (iter_mut_next cfg) n (iter_mut_new ?s) (memory ?s) =
        Value ((map Some (take n (map (\<lambda>(i, v). borrow i v) (live_list ?s))) @
          replicate (n - length (map (\<lambda>(i, v). borrow i v) (live_list ?s))) None, []), iters, memory ?s)"
      using iter_mut_calls [OF s, of cfg n] by blast
    moreover have "read_visited (memory ?s) (map Some (take n (map (\<lambda>(i, v). borrow i v) (live_list ?s))) @
        replicate (n - length (map (\<lambda>(i, v). borrow i v) (live_list ?s))) None) =
      Value (map Some (take n (live_list ?s)) @ replicate (n - length (live_list ?s)) None)"
      using read_visited_live [OF s, of "take n (live_list ?s)" "n - length (live_list ?s)"]
      by (simp add: take_map set_take_subset)
    ultimately show ?thesis
      using live_list_spec [OF s] s IterMut
      by (auto simp: store_iter_mut_def intro!: exI [of _ "live_list ?s"])
  next
    case Capacity
    let ?s = "client_store c"
    from Capacity u have depth: "\<forall>b \<in> set (buckets ?s). depth b < 32" by simp
    obtain t n where cap: "store_capacity cfg ?s = Value (t, n)" "unat t = length (touched ?s)"
        "unat n = length (untouched ?s) + length (touched ?s)"
      using capacity_exact [OF s depth, of cfg] Capacity u by auto
    have "card (dom (abs_store ?s)) \<le> length (touched ?s)"
      using length_entries [of Pair "store_ident ?s" "memory ?s" "gen_slots (into_iter_new ?s)"]
      by (simp flip: length_live_list [OF s] store_iters_small(3) [OF s depth] add: live_list_def)
    then have "card (dom (abs_store ?s)) \<le> unat t \<and> unat t \<le> unat n" using cap by simp
    with cap(1) s Capacity show ?thesis by auto
  qed (use s in \<open>auto simp: abs_client_def\<close>)
qed

definition new_client :: "build \<Rightarrow> 'q erasure_queue \<Rightarrow> u64 \<Rightarrow> u32 \<Rightarrow> ('e, 'q) client" where
  "new_client cfg Q next_store_id lcg =
     \<lparr>client_store = fst (store_new cfg Q next_store_id), generator = lcg,
       read_guards = {#}, write_guards = {#}\<rparr>"

lemma new_client_ok:
  assumes "fifo Q"
  shows "client_ok Q True (new_client cfg Q n lcg :: ('e, 'q) client)"
    and "abs_client (new_client cfg Q n lcg :: ('e, 'q) client) =
      \<lparr>entries_of = Map.empty, ids_of = {}, reading = {#}, writing = {#}\<rparr>"
proof -
  obtain s :: "('e, 'q) store" and c where new: "store_new cfg Q n = (s, c)" by fastforce
  note facts = store_new_ok [OF assms new]
  show "client_ok Q True (new_client cfg Q n lcg :: ('e, 'q) client)"
    "abs_client (new_client cfg Q n lcg :: ('e, 'q) client) =
      \<lparr>entries_of = Map.empty, ids_of = {}, reading = {#}, writing = {#}\<rparr>"
    using facts new by (simp_all add: client_ok_def guards_ok_def new_client_def abs_client_def)
qed

definition unforgetting :: "('e api_call \<times> 'e response) list \<Rightarrow> bool" where
  "unforgetting tr \<longleftrightarrow> (\<forall>(x, r) \<in> set tr. \<not> forgets x)"

lemma unforgetting_snoc [simp]: "unforgetting (tr @ [(x, r)]) \<longleftrightarrow> unforgetting tr \<and> \<not> forgets x"
  by (auto simp: unforgetting_def)

lemma guards_ok_weaken: "guards_ok x a \<Longrightarrow> guards_ok (x \<and> y) a"
  unfolding guards_ok_def
proof (elim conjE, intro conjI allI)
  fix i assume "\<forall>i. guards_fit x (entries_of a i) (count (reading a) (ReadLock i)) (count (writing a) (WriteLock i))"
  then have "guards_fit x (entries_of a i) (count (reading a) (ReadLock i)) (count (writing a) (WriteLock i))" ..
  then show "guards_fit (x \<and> y) (entries_of a i) (count (reading a) (ReadLock i)) (count (writing a) (WriteLock i))"
    by (cases "(x, entries_of a i, count (reading a) (ReadLock i), count (writing a) (WriteLock i))"
        rule: guards_fit.cases) auto
qed

lemma history_simulates:
  assumes Q: "fifo Q" and h: "history cfg A Q c0 tr c" and ok: "client_ok Q True c0"
  shows "client_ok Q (unforgetting tr) c \<and> spec_history (abs_client c0) tr (abs_client c)"
  using h
proof (induction rule: history.induct)
  case start
  then show ?case using ok by (simp add: spec_history.start unforgetting_def)
next
  case (call tr c x spur r c')
  then have ih: "client_ok Q (unforgetting tr) c" "spec_history (abs_client c0) tr (abs_client c)" by simp_all
  from api_refines [OF Q ih(1) call.hyps(2), of cfg spur]
  have step: "spec_api x (abs_client c) (Value (r, abs_client c'))" "store_ok Q (client_store c')"
    using call.hyps(3) by auto
  have "guards_ok (unforgetting tr) (abs_client c)" using ih(1) by (simp add: client_ok_def)
  then have "guards_ok (unforgetting tr \<and> \<not> forgets x) (abs_client c)" by (rule guards_ok_weaken)
  then have "guards_ok (unforgetting tr \<and> \<not> forgets x) (abs_client c')"
    using spec_keeps_guards [OF _ call.hyps(2) step(1)] by simp
  with step ih(2) show ?case by (auto simp: client_ok_def intro: spec_history.call)
qed

text \<open>
  C11. Refinement of histories: whatever calls a client makes on a new store, one after the other
  (insert, read, write and remove with any timeout, remove_locked, dereferencing, assigning through,
  dropping and forgetting guards, reading and assigning through get_mut, any number of steps of
  iter_mut, capacity; with IDs of this store, guards it owns, and memory for inserts), with any
  spurious failures, the responses it gets are responses that the abstract store can give to the
  same calls, starting empty. So a sequence of calls never finds an element that was not inserted or
  was removed, never gets a stale or a foreign one for an ID whose slot was reused, and never gets
  two guards that exclude each other. The calls that consume the store are not among these calls.
\<close>

theorem history_refines:
  assumes "fifo Q" and "history cfg A Q (new_client cfg Q n lcg) tr c"
  shows "spec_history \<lparr>entries_of = Map.empty, ids_of = {}, reading = {#}, writing = {#}\<rparr> tr
    (abs_client c)"
  using history_simulates [OF assms new_client_ok(1) [OF assms(1)]]
  by (simp add: new_client_ok(2) [OF assms(1)])

theorem history_refines_witness:
  "\<exists>i. spec_history \<lparr>entries_of = Map.empty, ids_of = {}, reading = {#}, writing = {#}\<rparr>
     [(Insert (42 :: nat), Inserted i)]
     \<lparr>entries_of = [i \<mapsto> (42, Free)], ids_of = {i}, reading = {#}, writing = {#}\<rparr>"
proof -
  obtain s :: "(nat, address list) store" where s: "store_new debug_build vec_queue 0 = (s, 1)"
      "store_ok vec_queue s" "issued_ids s = {}" "abs_store s = Map.empty"
      "\<forall>b \<in> set (buckets s). room small_platform b"
    by (rule new_store)
  let ?c = "new_client debug_build vec_queue 0 7 :: (nat, address list) client"
  have c: "client_store ?c = s" "generator ?c = 7" by (simp_all add: new_client_def s)
  obtain i lcg' s' where s': "store_insert debug_build small_platform vec_queue 7 42 s = Value (i, lcg', s')"
      "issued_ids s' = {i}" "abs_store s' = [i \<mapsto> (42, Free)]"
    using insert_step [OF vec.fifo_axioms s(2,5), of debug_build 7 42] s(3,4) by auto
  have "history debug_build small_platform vec_queue ?c ([] @ [(Insert 42, Inserted i)])
      (?c\<lparr>client_store := s', generator := lcg'\<rparr>)"
    by (rule history.call [OF history.start, where spur = 0]) (simp_all add: c s s')
  from history_refines [OF vec.fifo_axioms this] show ?thesis
    by (auto simp: abs_client_def s' new_client_def)
qed

section \<open>What a client can run into\<close>

lemma spec_faults:
  assumes "spec_api x a (Fault f)"
  shows "f = TooManyReaders \<and>
    (\<exists>i t v. x = Read i t \<and> entries_of a i = Some (v, Readers (unat MAX_CONCURRENT_READS)))"
  using assms
  by (cases x) (auto simp: omap_def spec_read_def spec_write_def spec_remove_def spec_wait_def
      split: option.splits lock_state.splits if_splits)

lemma spec_hangs:
  assumes "spec_api x a Hang"
  shows "\<exists>i v l. (x = Read i BlockIndefinitely \<or> x = Write i BlockIndefinitely \<or>
      x = Remove i BlockIndefinitely) \<and> entries_of a i = Some (v, l) \<and> l \<noteq> Free"
  using assms
  by (cases x) (auto simp: omap_def spec_read_def spec_write_def spec_remove_def spec_wait_def
      split: option.splits lock_state.splits if_splits)

text \<open>
  C12. Safe use is safe: at any point of any history, none of these calls (as for
  \<open>history_refines\<close>: with IDs of this store, guards the client owns, memory for inserts, and bucket
  sizes that \<open>capacity\<close> can add up) panics or has undefined behaviour, in any build, debug assertions
  included, except for a read beyond the limit of readers; a call does not return only when it was
  told to wait without a timeout for an element that is locked; and of the guards the client holds,
  those for writing are for different elements, none of which has a guard for reading.
\<close>

theorem history_safe:
  assumes "fifo Q" and "history cfg A Q (new_client cfg Q n lcg) tr c" and "usable A x c"
  shows "(\<forall>f. api cfg A Q spur x c = Fault f \<longrightarrow> f = TooManyReaders \<and>
      (\<exists>i t v. x = Read i t \<and>
        abs_store (client_store c) i = Some (v, Readers (unat MAX_CONCURRENT_READS)))) \<and>
    (api cfg A Q spur x c = Hang \<longrightarrow> (\<exists>i v l. (x = Read i BlockIndefinitely \<or>
        x = Write i BlockIndefinitely \<or> x = Remove i BlockIndefinitely) \<and>
      abs_store (client_store c) i = Some (v, l) \<and> l \<noteq> Free)) \<and>
    (\<forall>i. WriteLock i \<in># write_guards c \<longrightarrow>
      count (write_guards c) (WriteLock i) = 1 \<and> ReadLock i \<notin># read_guards c)"
proof -
  have ok: "client_ok Q (unforgetting tr) c"
    using history_simulates [OF assms(1,2) new_client_ok(1) [OF assms(1)]] by simp
  then have g: "guards_ok (unforgetting tr) (abs_client c)" by (simp add: client_ok_def)
  have "count (write_guards c) (WriteLock i) = 1 \<and> ReadLock i \<notin># read_guards c"
    if "WriteLock i \<in># write_guards c" for i
    using guarded_write [OF g, of "WriteLock i"] that by (auto simp: count_eq_zero_iff)
  moreover have "spec_api x (abs_client c) (absorb (api cfg A Q spur x c))"
    using api_refines [OF assms(1) ok assms(3)] by simp
  ultimately show ?thesis
    using spec_faults [of x "abs_client c"] spec_hangs [of x "abs_client c"]
    by (metis absorb_simps(2,3) abs_client_simps(1))
qed

theorem history_safe_witness:
  "\<exists>(c :: (nat, address list) client) c'.
    api debug_build small_platform vec_queue 0 (Insert 42) c \<noteq> Hang \<and>
    (\<forall>f. api debug_build small_platform vec_queue 0 (Insert 42) c \<noteq> Fault f) \<and>
    api debug_build small_platform vec_queue 0 (Insert 42) c = Value c'"
proof -
  obtain s :: "(nat, address list) store" where s: "store_new debug_build vec_queue 0 = (s, 1)"
      "\<forall>b \<in> set (buckets s). room small_platform b"
    by (rule new_store)
  let ?c = "new_client debug_build vec_queue 0 7 :: (nat, address list) client"
  have "usable small_platform (Insert 42) ?c" using s by (simp add: new_client_def)
  from history_safe [OF vec.fifo_axioms history.start this, where spur = 0] show ?thesis
    by (cases "api debug_build small_platform vec_queue 0 (Insert 42) ?c") blast+
qed

section \<open>The end of a store\<close>

lemma abs_readers_pos:
  assumes ok: "store_ok Q s" and a: "abs_store s i = Some (v, Readers k)"
  shows "0 < k"
  using ok present_issued [OF ok a]
  by (cases rule: issued_cases) (use a in \<open>auto split: if_splits\<close>)

text \<open>
  C13. The end of a history: when no guard was ever forgotten and the client holds none, no element
  is locked, so the store can be consumed. Dropping it, where dropping is defined for the element
  type and build, neither panics nor has undefined behaviour and runs the destructors of exactly
  the elements that the history left in the store, each once; turning it into an owned iterator
  instead, \<open>next\<close> returns exactly these elements.
\<close>

theorem history_ends_clean:
  assumes "fifo Q" and "history cfg A Q (new_client cfg Q n lcg) tr c"
    and "unforgetting tr" and "read_guards c = {#}" and "write_guards c = {#}"
  shows "\<exists>xs. distinct (map fst xs) \<and>
    (\<forall>i. abs_store (client_store c) i = map_option (\<lambda>v. (v, Free)) (map_of xs i)) \<and>
    (drop_defined cfg A \<longrightarrow> (\<exists>d. store_drop cfg A panicking (client_store c) = Value d \<and>
      mset d = mset (destroyed A (map snd xs)))) \<and>
    (\<forall>m. \<exists>iters h. calls (into_iter_next cfg A panicking) m (store_into_iter (client_store c))
        (memory (client_store c)) =
      Value ((map Some (take m xs) @ replicate (m - length xs) None, []), iters, h))"
proof -
  let ?s = "client_store c"
  have ok: "client_ok Q True c"
    using history_simulates [OF assms(1,2) new_client_ok(1) [OF assms(1)]] assms(3) by simp
  then have s: "store_ok Q ?s" by (simp add: client_ok_def)
  have free: "all_free ?s"
    unfolding all_free_def
  proof (intro allI impI)
    fix i v l assume "abs_store ?s i = Some (v, l)"
    moreover have "guards_fit True (abs_store ?s i) 0 0"
      using guards_fit_at [of True "abs_client c" i] ok assms(4,5) by (simp add: client_ok_def)
    ultimately show "l = Free"
      using abs_readers_pos [OF s, of i v] by (cases l) auto
  qed
  have ids: "distinct (map fst (live_list ?s))" using live_list_spec(1) [OF s] .
  have "abs_store ?s i = map_option (\<lambda>v. (v, Free)) (map_of (live_list ?s) i)" for i
  proof (cases "map_of (live_list ?s) i")
    case None
    then have "\<forall>v. (i, v) \<notin> set (live_list ?s)" by (force simp: map_of_eq_None_iff)
    then show ?thesis using None live_list_spec(2) [OF s] by (cases "abs_store ?s i") auto
  next
    case (Some v)
    show ?thesis using Some map_of_SomeD [OF Some] live_list_free [OF s free, of i v] by simp
  qed
  moreover have "drop_defined cfg A \<longrightarrow> (\<exists>d. store_drop cfg A panicking ?s = Value d \<and>
      mset d = mset (destroyed A (map snd (live_list ?s))))"
    using store_drop_step [OF s free, of cfg A panicking] by (auto simp: drops_def)
  moreover have "\<exists>iters h. calls (into_iter_next cfg A panicking) m (store_into_iter ?s) (memory ?s) =
      Value ((map Some (take m (live_list ?s)) @ replicate (m - length (live_list ?s)) None, []), iters, h)" for m
    using into_iter_calls [OF s free, of cfg A panicking m] by (auto simp: store_into_iter_def)
  ultimately show ?thesis using ids by blast
qed

theorem history_ends_clean_witness:
  "\<exists>c :: (nat, address list) client. store_drop debug_build small_platform False (client_store c) = Value [42]"
proof -
  obtain s :: "(nat, address list) store" where s: "store_new debug_build vec_queue 0 = (s, 1)"
      "store_ok vec_queue s" "issued_ids s = {}" "abs_store s = Map.empty"
      "\<forall>b \<in> set (buckets s). room small_platform b"
    by (rule new_store)
  let ?c = "new_client debug_build vec_queue 0 7 :: (nat, address list) client"
  have c: "client_store ?c = s" "generator ?c = 7" by (simp_all add: new_client_def s)
  obtain i lcg' s' where s': "store_insert debug_build small_platform vec_queue 7 42 s = Value (i, lcg', s')"
      "abs_store s' = [i \<mapsto> (42, Free)]"
    using insert_step [OF vec.fifo_axioms s(2,5), of debug_build 7 42] s(3,4) by auto
  let ?c' = "?c\<lparr>client_store := s', generator := lcg'\<rparr>"
  have "history debug_build small_platform vec_queue ?c ([] @ [(Insert 42, Inserted i)]) ?c'"
    by (rule history.call [OF history.start, where spur = 0]) (simp_all add: c s s')
  moreover have "drop_defined debug_build small_platform"
    by (intro drop_definedI(2)) (simp add: small_platform_def)
  moreover have "unforgetting ([] @ [(Insert (42 :: nat), Inserted i)])" by (simp add: unforgetting_def)
  moreover have "read_guards ?c' = {#}" "write_guards ?c' = {#}" by (simp_all add: new_client_def)
  ultimately obtain xs d where xs: "distinct (map fst xs)"
      "\<forall>j. abs_store (client_store ?c') j = map_option (\<lambda>v. (v, Free)) (map_of xs j)"
      "store_drop debug_build small_platform False (client_store ?c') = Value d"
      "mset d = mset (destroyed small_platform (map snd xs))"
    using history_ends_clean [OF vec.fifo_axioms, of debug_build small_platform 0 7 _ ?c' False] by meson
  have "(j, v) \<in> set xs \<longleftrightarrow> j = i \<and> v = 42" for j v
    using map_of_eq_Some_iff [OF xs(1), of j v] spec [OF xs(2), of j] s'(2)
    by (cases "map_of xs j") (auto split: if_splits)
  then have "xs = [(i, 42)]" by (rule singleton_list [OF xs(1)])
  with xs(3,4) have "store_drop debug_build small_platform False (client_store ?c') = Value [42]"
    by (simp add: destroyed_def small_platform_def)
  then show ?thesis by blast
qed

end
