(* ===== verification/RwShared.thy ===== *)
theory RwShared
  imports RwGuarantees
begin

text \<open>
  A slot shared by threads: the header with its interleavings (\<open>sys_step\<close>) together with the
  element next to it. Elements are accessed without synchronisation of their own, by the steps of
  \<open>Block::insert\<close>, \<open>Block::remove\<close> and \<open>Block::remove_locked\<close> around a header operation and
  through guards; a \<open>job\<close> is where a thread is between the header operations of such a call. The
  element is modelled by its ownership: reading it out of the slot leaves \<open>None\<close> behind.
\<close>

section \<open>Threads at work on a slot\<close>

text \<open>
  \<open>Fill\<close> and \<open>Occupy\<close> are the two halves of \<open>insert\<close>; \<open>Take\<close> is \<open>remove\<close> after the header matched,
  \<open>Push\<close> the recycling of the slot; \<open>TakeLocked\<close> and \<open>TakenLocked\<close> are \<open>remove_locked\<close> before and
  after the element was read.
\<close>

datatype 'e job =
    Idle
  | Fill 'e
  | Occupy
  | Take bool
  | Push
  | TakeLocked u32
  | TakenLocked u32

record ('e, 'q) shared =
  header_of :: "'q sys"
  cell :: "'e option"
  jobs :: "nat \<Rightarrow> 'e job"
  available :: bool

definition shared_init :: "'q parker \<Rightarrow> ('e, 'q) shared" where
  "shared_init P = \<lparr>header_of = sys_init P, cell = None, jobs = (\<lambda>_. Idle), available = True\<rparr>"

definition free :: "('e, 'q) shared \<Rightarrow> nat \<Rightarrow> bool" where
  "free s t \<longleftrightarrow> pcs (header_of s) t = None \<and> jobs s t = Idle"

text \<open>The operations of a header that a client's call consists of as a whole.\<close>

fun direct :: "header_op \<Rightarrow> bool" where
  "direct OpOccupy = False"
| "direct (OpRemoveLocked i) = False"
| "direct _ = True"

fun after_return :: "op_result \<Rightarrow> 'e job" where
  "after_return (ResRemove (Ok (RemoveMatched may_reuse))) = Take may_reuse"
| "after_return (ResReuse may_reuse) = (if may_reuse then Push else Idle)"
| "after_return _ = Idle"

inductive shared_step ::
  "build \<Rightarrow> 'q parker \<Rightarrow> nat \<Rightarrow> ('e, 'q) shared \<Rightarrow> ('e, 'q) shared \<Rightarrow> bool"
  for cfg :: build and P :: "'q parker" and N :: nat where
  direct: "t < N \<Longrightarrow> free s t \<Longrightarrow> direct c \<Longrightarrow> call_event cfg t c (header_of s) = Some h \<Longrightarrow>
    shared_step cfg P N s (s\<lparr>header_of := h\<rparr>)"
| run: "exec_event cfg P N (Run t ch) (header_of s) = Some h \<Longrightarrow>
    shared_step cfg P N s (s\<lparr>header_of := h\<rparr>)"
| return: "t < N \<Longrightarrow> pcs (header_of s) t = Some (Finished r) \<Longrightarrow>
    exec_event cfg P N (Return t) (header_of s) = Some h \<Longrightarrow>
    shared_step cfg P N s (s\<lparr>header_of := h, jobs := (jobs s)(t := after_return r)\<rparr>)"
| unwind: "pcs (header_of s) t = Some (Failed f) \<Longrightarrow>
    exec_event cfg P N (Return t) (header_of s) = Some h \<Longrightarrow>
    shared_step cfg P N s (s\<lparr>header_of := h\<rparr>)"
| insert: "t < N \<Longrightarrow> free s t \<Longrightarrow> available s \<Longrightarrow>
    shared_step cfg P N s (s\<lparr>available := False, jobs := (jobs s)(t := Fill e)\<rparr>)"
| fill: "jobs s t = Fill e \<Longrightarrow>
    shared_step cfg P N s (s\<lparr>cell := Some e, jobs := (jobs s)(t := Occupy)\<rparr>)"
| occupy: "jobs s t = Occupy \<Longrightarrow> call_event cfg t OpOccupy (header_of s) = Some h \<Longrightarrow>
    shared_step cfg P N s (s\<lparr>header_of := h, jobs := (jobs s)(t := Idle)\<rparr>)"
| take: "jobs s t = Take may_reuse \<Longrightarrow>
    shared_step cfg P N s
      (s\<lparr>cell := None, jobs := (jobs s)(t := if may_reuse then Push else Idle)\<rparr>)"
| push: "jobs s t = Push \<Longrightarrow>
    shared_step cfg P N s (s\<lparr>available := True, jobs := (jobs s)(t := Idle)\<rparr>)"
| assign: "t < N \<Longrightarrow> free s t \<Longrightarrow> i \<in># writes (header_of s) t \<Longrightarrow>
    shared_step cfg P N s (s\<lparr>cell := Some e\<rparr>)"
| remove_locked: "t < N \<Longrightarrow> free s t \<Longrightarrow> i \<in># writes (header_of s) t \<Longrightarrow>
    shared_step cfg P N s (s\<lparr>jobs := (jobs s)(t := TakeLocked i)\<rparr>)"
| take_locked: "jobs s t = TakeLocked i \<Longrightarrow>
    shared_step cfg P N s (s\<lparr>cell := None, jobs := (jobs s)(t := TakenLocked i)\<rparr>)"
| unlock_removed: "jobs s t = TakenLocked i \<Longrightarrow>
    call_event cfg t (OpRemoveLocked i) (header_of s) = Some h \<Longrightarrow>
    shared_step cfg P N s (s\<lparr>header_of := h, jobs := (jobs s)(t := Idle)\<rparr>)"

inductive shared_reachable ::
  "build \<Rightarrow> 'q parker \<Rightarrow> nat \<Rightarrow> ('e, 'q) shared \<Rightarrow> bool"
  for cfg :: build and P :: "'q parker" and N :: nat where
  start: "shared_reachable cfg P N (shared_init P)"
| step: "shared_reachable cfg P N s \<Longrightarrow> shared_step cfg P N s s' \<Longrightarrow> shared_reachable cfg P N s'"

section \<open>Accesses to the element\<close>

text \<open>
  The accesses a thread may perform next: to write the element in \<open>insert\<close> or through a write
  guard, and to read it (or move it out) in a removal or through a guard.
\<close>

definition may_write :: "('e, 'q) shared \<Rightarrow> nat \<Rightarrow> bool" where
  "may_write s t \<longleftrightarrow> (\<exists>e. jobs s t = Fill e) \<or> free s t \<and> writes (header_of s) t \<noteq> {#}"

definition may_read :: "('e, 'q) shared \<Rightarrow> nat \<Rightarrow> bool" where
  "may_read s t \<longleftrightarrow> (\<exists>b. jobs s t = Take b) \<or> (\<exists>i. jobs s t = TakeLocked i) \<or>
     free s t \<and> (reads (header_of s) t \<noteq> {#} \<or> writes (header_of s) t \<noteq> {#})"

section \<open>What a step of a header does to the element's owner\<close>

text \<open>Between the step that vacates or occupies a header and the next, the element is with a thread.\<close>

fun full_pc :: "pc \<Rightarrow> nat" where
  "full_pc OccupyFetchOr = 1"
| "full_pc (ParkCancel (BlockTransition e n t (CallRemove i)) (Transitioned True)) = 1"
| "full_pc (Finished (ResRemove (Ok (RemoveMatched b)))) = 1"
| "full_pc _ = 0"

fun gone_pc :: "pc \<Rightarrow> nat" where
  "gone_pc (RemoveLockedSwap i n) = 1"
| "gone_pc _ = 0"

inductive effect :: "pc \<Rightarrow> u64 \<Rightarrow> pc \<Rightarrow> u64 \<Rightarrow> bool" where
  keep: "is_occupied w' = is_occupied w \<Longrightarrow> id_from_bits w' = id_from_bits w \<Longrightarrow>
    full_pc p' = full_pc p \<Longrightarrow> gone_pc p' = gone_pc p \<Longrightarrow>
    (full_pc p' \<noteq> 0 \<longrightarrow> pc_tokens p' = pc_tokens p) \<Longrightarrow> effect p w p' w'"
| vacate: "w = pack True 0 i \<Longrightarrow> w' = pack False 0 (i + 1) \<Longrightarrow>
    full_pc p = 0 \<Longrightarrow> full_pc p' = 1 \<Longrightarrow> gone_pc p = 0 \<Longrightarrow> gone_pc p' = 0 \<Longrightarrow>
    pc_tokens p' = of_bool (i + 1 \<noteq> RESERVED_ID) \<Longrightarrow> effect p w p' w'"
| vacate_locked: "w = pack n 2147483647 i \<Longrightarrow> w' = pack False 0 (i + 1) \<Longrightarrow>
    full_pc p = 0 \<Longrightarrow> full_pc p' = 0 \<Longrightarrow> gone_pc p = 1 \<Longrightarrow> gone_pc p' = 0 \<Longrightarrow> effect p w p' w'"
| occupy: "w = pack False 0 i \<Longrightarrow> w' = pack True 0 i \<Longrightarrow>
    full_pc p = 1 \<Longrightarrow> full_pc p' = 0 \<Longrightarrow> gone_pc p = 0 \<Longrightarrow> gone_pc p' = 0 \<Longrightarrow> effect p w p' w'"

lemma full_transition_result [simp]:
  "full_pc (Finished (transition_result k (Ok True))) = (case k of CallLockWrite i \<Rightarrow> 0 | CallRemove x \<Rightarrow> 1)"
  "full_pc (Finished (transition_result k (Ok False))) = 0"
  "full_pc (Finished (transition_result k (Err e))) = 0"
  "gone_pc (Finished r) = 0"
  by (cases k; simp)+

lemma full_Transitioned:
  "full_pc (ParkCancel (BlockTransition e n t k) (Transitioned b)) =
     full_pc (Finished (transition_result k (Ok b)))"
  "pc_tokens (ParkCancel (BlockTransition e n t k) (Transitioned b)) =
     pc_tokens (Finished (transition_result k (Ok b)))"
  by (cases k; cases b; simp)+

lemma effect_same:
  "full_pc p = 0 \<Longrightarrow> full_pc p' = 0 \<Longrightarrow> gone_pc p = 0 \<Longrightarrow> gone_pc p' = 0 \<Longrightarrow> effect p w p' w"
  by (rule effect.keep) simp_all

lemma effect_transition:
  assumes inv: "inv P N s" and ok: "trans_ok (word s) (word s) new k"
    and p: "full_pc p = 0" "gone_pc p = 0" and p': "gone_pc p' = 0"
      "full_pc p' = (case k of CallLockWrite i \<Rightarrow> 0 | CallRemove x \<Rightarrow> 1)"
      "pc_tokens p' = (case k of CallLockWrite i \<Rightarrow> 0 | CallRemove x \<Rightarrow> of_bool (x \<noteq> RESERVED_ID))"
  shows "effect p (word s) p' new"
proof (cases k)
  case (CallLockWrite i)
  with ok p p' show ?thesis by (intro effect.keep) (auto simp: bits_pack)
next
  case (CallRemove x)
  with ok obtain i where "word s = pack True 0 i" "x = i + 1" "new = pack False 0 (i + 1)"
    by (auto simp: bits_pack)
  with CallRemove p p' show ?thesis by (intro effect.vacate [of _ i]) simp_all
qed

lemma effect_cas:
  assumes inv: "inv P N s" and ok: "trans_ok (word s) e new k"
    and cas: "word s = e \<and> w' = new \<and> gone_pc p' = 0 \<and>
        full_pc p' = (case k of CallLockWrite i \<Rightarrow> 0 | CallRemove x \<Rightarrow> 1) \<and>
        pc_tokens p' = (case k of CallLockWrite i \<Rightarrow> 0 | CallRemove x \<Rightarrow> of_bool (x \<noteq> RESERVED_ID)) \<or>
      w' = word s \<and> full_pc p' = 0 \<and> gone_pc p' = 0"
    and p: "full_pc p = 0" "gone_pc p = 0"
  shows "effect p (word s) p' w'"
  using cas
proof
  assume "w' = word s \<and> full_pc p' = 0 \<and> gone_pc p' = 0"
  with p show ?thesis by (auto intro: effect_same)
next
  assume *: "word s = e \<and> w' = new \<and> gone_pc p' = 0 \<and>
        full_pc p' = (case k of CallLockWrite i \<Rightarrow> 0 | CallRemove x \<Rightarrow> 1) \<and>
        pc_tokens p' = (case k of CallLockWrite i \<Rightarrow> 0 | CallRemove x \<Rightarrow> of_bool (x \<noteq> RESERVED_ID))"
  then have "trans_ok (word s) (word s) new k" using ok by simp
  from effect_transition [OF inv this p] * show ?thesis by simp
qed

lemma hstep_effect:
  assumes inv: "inv P N s" and t: "t < N" and p: "pcs s t = Some p"
    and step: "hstep cfg P t ch p (word s, queue s) = Some (p', w', q')"
  shows "effect p (word s) p' w'"
proof -
  note ok = inv_pc_ok [OF inv t p]
  have cas: "effect p (word s) p' w'"
    if "read_cas cfg ch i c to (word s) = (p', w')" "id_from_bits c = i"
      "\<not> is_write_locked c" "issued (word s) i" "full_pc p = 0" "gone_pc p = 0" for i c to
    using that(1-3) inv_issued(1) [OF inv that(4)]
  proof (cases rule: read_cas_cases)
    case (3 n r)
    with inv_issued(2) [OF inv that(4)] that(5,6) show ?thesis by (intro effect.keep) auto
  qed (use that(5,6) in \<open>auto intro: effect_same\<close>)
  show ?thesis
  proof (cases p)
    case (LockReadCurrent i c to)
    with step ok cas show ?thesis by (auto split: if_splits prod.splits intro: effect_same)
  next
    case (LockReadMatched i c to)
    with step ok cas show ?thesis by (auto split: prod.splits)
  next
    case (Transition e new to k)
    show ?thesis
      by (rule effect_cas [OF inv, of e new k])
        (use step ok Transition in \<open>cases ch; auto simp: compare_exchange_def split: if_splits caller.split\<close>)+
  next
    case (ParkClosure b)
    show ?thesis
    proof (cases b)
      case (BlockTransition e new to k)
      show ?thesis
        by (rule effect_cas [OF inv, of e new k])
          (use step ok ParkClosure BlockTransition in \<open>auto simp: compare_exchange_def split: if_splits caller.split\<close>)
    qed (use step ParkClosure in \<open>auto intro: effect_same split: if_splits\<close>)
  next
    case (ParkMark b e)
    obtain n r i where e: "e = pack n r i" and r: "r < 2147483648" by (rule word_cases)
    have pos: "0 < r" using ok ParkMark e r by (auto simp: bits_simps)
    show ?thesis
      by (rule effect.keep) (use step ParkMark e r pos in \<open>auto simp: mark_thread_blocking_def
          compare_exchange_def debug_assert_def bits_simps split: if_splits outcome.splits\<close>)
  next
    case (UnlockReadCurrent i c)
    then have "i \<in># rds s t" using p by (simp add: rds_def)
    with inv t obtain n r where w: "word s = pack n (Suc r) i" "Suc r < 2147483647"
      by (rule inv_read_held)
    then have occ: "is_occupied (word s)" "id_from_bits (word s) = i" by simp_all
    show ?thesis
    proof (cases "word s = c \<and> ch \<noteq> Spurious")
      case True
      have "unlock_read_new cfg i c = Value (\<not> n \<and> r = 0, pack (n \<or> r = 0) r i)"
        using True w unlock_read_new_pack [of r cfg i n] by auto
      with True step UnlockReadCurrent occ w(2) show ?thesis
        by (cases ch) (auto simp: compare_exchange_def intro!: effect.keep split: if_splits)
    next
      case False
      then have "cas_weak ch (word s) c x = (Err (word s), word s)" for x
        by (cases ch) (auto simp: compare_exchange_def)
      with step UnlockReadCurrent show ?thesis
        by (auto intro: effect_same split: outcome.splits prod.splits)
    qed
  next
    case (UnlockWriteSwap i)
    have "i \<in># wrs s t" using p UnlockWriteSwap by (simp add: wrs_def)
    with inv t obtain n where "word s = pack n 2147483647 i" "i \<noteq> RESERVED_ID" by (rule inv_write_held)
    with step UnlockWriteSwap show ?thesis
      by (intro effect.keep) (auto simp: bits_pack swap_checks_eval)
  next
    case (RemoveLockedSwap i x)
    have "i \<in># wrs s t" using p RemoveLockedSwap by (simp add: wrs_def)
    with inv t obtain n where "word s = pack n 2147483647 i" "i \<noteq> RESERVED_ID" by (rule inv_write_held)
    with step RemoveLockedSwap ok show ?thesis
      by (intro effect.vacate_locked) (auto simp: bits_pack swap_checks_eval)
  next
    case OccupyFetchOr
    then have "toks s t \<noteq> 0 \<or> token s" using p by (simp add: toks_def)
    with inv t obtain i where "word s = pack False 0 i" "i \<noteq> RESERVED_ID" by (rule inv_token_held)
    with step OccupyFetchOr show ?thesis
      by (intro effect.occupy) (auto simp: debug_assert_holds bits_simps)
  next
    case (ParkCancel b r)
    with step ok show ?thesis
      by (cases "(b, r)" rule: after_block.cases)
        (auto simp: full_Transitioned intro!: effect.keep split: caller.splits)
  next
    case (ParkAsleep b)
    with step show ?thesis
      by (cases b) (auto intro: effect_same split: choice.splits result.splits option.splits)
  next
    case (Unpark r)
    with step ok show ?thesis by (auto intro: effect_same)
  qed (use step in \<open>auto split: result.splits choice.splits option.splits intro: effect_same\<close>)
qed

section \<open>The invariant of a shared slot\<close>

fun full_job :: "'e job \<Rightarrow> nat" where
  "full_job Occupy = 1"
| "full_job (Take b) = 1"
| "full_job _ = 0"

fun gone_job :: "'e job \<Rightarrow> nat" where
  "gone_job (TakenLocked i) = 1"
| "gone_job _ = 0"

fun job_tokens :: "'e job \<Rightarrow> nat" where
  "job_tokens (Fill e) = 1"
| "job_tokens Occupy = 1"
| "job_tokens (Take b) = of_bool b"
| "job_tokens Push = 1"
| "job_tokens _ = 0"

fun job_guard :: "'e job \<Rightarrow> u32 multiset" where
  "job_guard (TakeLocked i) = {#i#}"
| "job_guard (TakenLocked i) = {#i#}"
| "job_guard _ = {#}"

text \<open>The threads that own the element of an unoccupied header, or took that of a locked one.\<close>

definition carry :: "('e, 'q) shared \<Rightarrow> nat \<Rightarrow> nat" where
  "carry s t = full_job (jobs s t) + opt_pc 0 full_pc (pcs (header_of s) t)"

definition gone :: "('e, 'q) shared \<Rightarrow> nat \<Rightarrow> nat" where
  "gone s t = gone_job (jobs s t) + opt_pc 0 gone_pc (pcs (header_of s) t)"

text \<open>A thread that emptied a slot for the last time: its IDs are used up.\<close>

definition spent :: "('e, 'q) shared \<Rightarrow> nat \<Rightarrow> bool" where
  "spent s t \<longleftrightarrow> jobs s t = Take False \<or>
     (\<exists>p. pcs (header_of s) t = Some p \<and> full_pc p \<noteq> 0 \<and> pc_tokens p = 0)"

definition cell_ok :: "bool \<Rightarrow> nat \<Rightarrow> nat \<Rightarrow> bool \<Rightarrow> bool" where
  "cell_ok occupied carried taken full \<longleftrightarrow>
     (if occupied then carried = 0 \<and> (full \<longleftrightarrow> taken = 0)
      else carried \<le> 1 \<and> (full \<longleftrightarrow> carried = 1))"

definition shared_inv :: "'q parker \<Rightarrow> nat \<Rightarrow> ('e, 'q) shared \<Rightarrow> bool" where
  "shared_inv P N s \<longleftrightarrow>
     inv P N (header_of s) \<and>
     (\<forall>t. jobs s t \<noteq> Idle \<longrightarrow> t < N \<and> pcs (header_of s) t = None) \<and>
     (\<forall>t. job_guard (jobs s t) \<subseteq># writes (header_of s) t) \<and>
     of_bool (token (header_of s)) = of_bool (available s) + (\<Sum>t<N. job_tokens (jobs s t)) \<and>
     (\<forall>t<N. spent s t \<longrightarrow> id_from_bits (word (header_of s)) = RESERVED_ID) \<and>
     cell_ok (is_occupied (word (header_of s))) (\<Sum>t<N. carry s t) (\<Sum>t<N. gone s t)
       (cell s \<noteq> None)"

lemma gone_pc_le: "gone_pc p \<le> size (pc_writes p)"
  by (cases p) auto

lemma gone_le_wrs:
  assumes "shared_inv P N s"
  shows "gone s t \<le> size (wrs (header_of s) t)"
proof (cases "jobs s t = Idle")
  case True
  then show ?thesis
    by (cases "pcs (header_of s) t") (auto simp: gone_def wrs_def intro: trans_le_add2 gone_pc_le)
next
  case False
  then have "pcs (header_of s) t = None" and "job_guard (jobs s t) \<subseteq># writes (header_of s) t"
    using assms by (auto simp: shared_inv_def)
  from this(1) size_mset_mono [OF this(2)] show ?thesis
    by (cases "jobs s t") (auto simp: gone_def wrs_def)
qed

lemma no_writer_none_gone:
  assumes "shared_inv P N s" and "total_writes N (header_of s) = 0"
  shows "(\<Sum>t<N. gone s t) = 0"
proof (intro sum.neutral ballI)
  fix t assume "t \<in> {..<N}"
  then have "size (wrs (header_of s) t) = 0" using assms(2) by (simp add: total_writes_def)
  then show "gone s t = 0" using gone_le_wrs [OF assms(1), of t] by simp
qed

text \<open>
  The shape of every preservation proof: thread \<open>t\<close> moves and the others stay.
\<close>

lemma shared_move:
  assumes sh: "shared_inv P N s" and t: "t < N" and inv: "inv P N (header_of s')"
    and frame: "\<And>u. u \<noteq> t \<Longrightarrow> jobs s' u = jobs s u \<and>
      pcs (header_of s') u = pcs (header_of s) u \<and> writes (header_of s') u = writes (header_of s) u"
    and quiet: "jobs s' t \<noteq> Idle \<Longrightarrow> pcs (header_of s') t = None"
    and guard: "job_guard (jobs s' t) \<subseteq># writes (header_of s') t"
    and tokens: "\<And>K. of_bool (token (header_of s)) = of_bool (available s) + (K + job_tokens (jobs s t)) \<Longrightarrow>
      of_bool (token (header_of s')) = of_bool (available s') + (K + job_tokens (jobs s' t))"
    and spent: "spent s' t \<Longrightarrow> id_from_bits (word (header_of s')) = RESERVED_ID"
    and ids: "id_from_bits (word (header_of s')) = id_from_bits (word (header_of s)) \<or>
      (\<Sum>t<N. carry s t) = 0"
    and cells: "\<And>C G. (\<Sum>t<N. carry s t) = C + carry s t \<Longrightarrow> (\<Sum>t<N. gone s t) = G + gone s t \<Longrightarrow>
      cell_ok (is_occupied (word (header_of s))) (C + carry s t) (G + gone s t) (cell s \<noteq> None) \<Longrightarrow>
      cell_ok (is_occupied (word (header_of s'))) (C + carry s' t) (G + gone s' t) (cell s' \<noteq> None)"
  shows "shared_inv P N s'"
proof -
  have same: "carry s' u = carry s u" "gone s' u = gone s u" "spent s' u = spent s u"
    "job_tokens (jobs s' u) = job_tokens (jobs s u)" if "u \<noteq> t" for u
    using frame [OF that] by (simp_all add: carry_def gone_def spent_def)
  obtain C where C: "(\<Sum>u<N. carry s u) = C + carry s t" "(\<Sum>u<N. carry s' u) = C + carry s' t"
    by (rule sum_change [OF t, of "carry s'" "carry s"]) (simp_all add: same)
  obtain G where G: "(\<Sum>u<N. gone s u) = G + gone s t" "(\<Sum>u<N. gone s' u) = G + gone s' t"
    by (rule sum_change [OF t, of "gone s'" "gone s"]) (simp_all add: same)
  obtain K where K: "(\<Sum>u<N. job_tokens (jobs s u)) = K + job_tokens (jobs s t)"
      "(\<Sum>u<N. job_tokens (jobs s' u)) = K + job_tokens (jobs s' t)"
    by (rule sum_change [OF t, of "\<lambda>u. job_tokens (jobs s' u)" "\<lambda>u. job_tokens (jobs s u)"])
      (simp_all add: same)
  have "id_from_bits (word (header_of s')) = RESERVED_ID" if u: "u < N" "spent s' u" for u
  proof (cases "u = t")
    case False
    then have "spent s u" using u(2) same(3) by simp
    then have "id_from_bits (word (header_of s)) = RESERVED_ID" "carry s u \<noteq> 0"
      using sh u(1) by (auto simp: shared_inv_def spent_def carry_def)
    then show ?thesis using ids u(1) by auto
  qed (use u spent in simp)
  moreover have "jobs s' u \<noteq> Idle \<longrightarrow> u < N \<and> pcs (header_of s') u = None" for u
    using sh t frame [of u] quiet by (cases "u = t") (auto simp: shared_inv_def)
  moreover have "job_guard (jobs s' u) \<subseteq># writes (header_of s') u" for u
    using sh frame [of u] guard by (cases "u = t") (auto simp: shared_inv_def)
  ultimately show ?thesis
    using sh inv tokens [of K] cells [of C G] C G K by (simp add: shared_inv_def)
qed

section \<open>Every step keeps it\<close>

lemma shared_inv_header: "shared_inv P N s \<Longrightarrow> inv P N (header_of s)"
  by (simp add: shared_inv_def)

lemma shared_inv_cell:
  "shared_inv P N s \<Longrightarrow> cell_ok (is_occupied (word (header_of s))) (\<Sum>t<N. carry s t)
     (\<Sum>t<N. gone s t) (cell s \<noteq> None)"
  by (simp add: shared_inv_def)

lemma no_writers:
  assumes "inv P N h" and "\<not> is_occupied (word h) \<or> word h = pack True 0 i"
  shows "total_writes N h = 0"
proof -
  have c: "counts_ok (header_view (word h)) (total_reads N h) (total_writes N h) (total_tokens N h)"
    using assms(1) by (simp add: inv_def)
  from assms(2) show ?thesis
  proof
    assume "\<not> is_occupied (word h)"
    then show ?thesis using counts_ok_unoccupied [OF c] by simp
  qed (use c in \<open>simp add: header_view_pack\<close>)
qed

lemma shared_run:
  assumes sh: "shared_inv P N s" and t: "t < N" and p: "pcs (header_of s) t = Some p"
    and step: "hstep cfg P t ch p (word (header_of s), queue (header_of s)) = Some (p', w', q')"
    and inv: "inv P N ((header_of s)\<lparr>word := w', queue := q', pcs := (pcs (header_of s))(t \<mapsto> p')\<rparr>)"
  shows "shared_inv P N (s\<lparr>header_of := (header_of s)\<lparr>word := w', queue := q',
    pcs := (pcs (header_of s))(t \<mapsto> p')\<rparr>\<rparr>)" (is "shared_inv P N ?s")
proof -
  let ?w = "word (header_of s)"
  have idle: "jobs s t = Idle" using sh p by (auto simp: shared_inv_def)
  have at: "carry s t = full_pc p" "gone s t = gone_pc p" "carry ?s t = full_pc p'"
      "gone ?s t = gone_pc p'"
    using idle p by (simp_all add: carry_def gone_def)
  have spent: "spent s t \<longleftrightarrow> full_pc p \<noteq> 0 \<and> pc_tokens p = 0"
    "spent ?s t \<longleftrightarrow> full_pc p' \<noteq> 0 \<and> pc_tokens p' = 0"
    using idle p by (auto simp: spent_def)
  note none = no_writer_none_gone [OF sh no_writers [OF shared_inv_header [OF sh]]]
  note cells = shared_inv_cell [OF sh]
  from hstep_effect [OF shared_inv_header [OF sh] t p step] show ?thesis
  proof cases
    case keep
    have "spent ?s t \<longrightarrow> spent s t" using keep spent by auto
    then have "spent ?s t \<longrightarrow> id_from_bits w' = RESERVED_ID"
      using sh t keep by (auto simp: shared_inv_def)
    then show ?thesis
      using keep at idle inv by (intro shared_move [OF sh t]) simp_all
  next
    case (vacate i)
    have carried: "(\<Sum>t<N. carry s t) = 0" and "cell s \<noteq> None"
      using cells vacate none by (auto simp: cell_ok_def)
    then show ?thesis
      using vacate at idle inv spent none [of i]
      by (intro shared_move [OF sh t]) (auto simp: cell_ok_def)
  next
    case (vacate_locked n i)
    have "(\<Sum>t<N. carry s t) = 0" using cells vacate_locked by (auto simp: cell_ok_def)
    then show ?thesis
      using vacate_locked at idle inv spent
      by (intro shared_move [OF sh t]) (auto simp: cell_ok_def)
  next
    case (occupy i)
    then show ?thesis
      using at idle inv spent none
      by (intro shared_move [OF sh t]) (auto simp: cell_ok_def)
  qed
qed

lemma call_event_frame:
  assumes "call_event cfg t c h = Some h'"
  shows "word h' = word h" and "pcs h' = (pcs h)(t \<mapsto> entry cfg c)"
    and "u \<noteq> t \<Longrightarrow> writes h' u = writes h u"
    and "token h' \<longleftrightarrow> token h \<and> c \<noteq> OpOccupy" and "c = OpOccupy \<Longrightarrow> token h"
  using assms by (cases c; auto simp: call_event_def call_def simp del: entry.simps split: if_splits)+

lemma direct_entry: "direct c \<Longrightarrow> full_pc (entry cfg c) = 0 \<and> gone_pc (entry cfg c) = 0"
  by (cases c) (auto simp: debug_assert_def checked_add_def)

definition frees :: "op_result \<Rightarrow> bool" where
  "frees r \<longleftrightarrow> r = ResRemove (Ok (RemoveMatched True)) \<or> r = ResReuse True"

lemma grant_frame:
  "word (grant t r h) = word h" "u \<noteq> t \<Longrightarrow> writes (grant t r h) u = writes h u"
  "token (grant t r h) \<longleftrightarrow> token h \<or> frees r"
  by (cases "(t, r, h)" rule: grant.cases; auto simp: frees_def)+

lemma after_return_owns:
  "full_job (after_return r) = full_pc (Finished r)" "gone_job (after_return r) = 0"
  "job_tokens (after_return r) = of_bool (frees r)" "job_guard (after_return r) = {#}"
  "after_return r = Take False \<longleftrightarrow> full_pc (Finished r) \<noteq> 0 \<and> pc_tokens (Finished r) = 0"
  by (cases r rule: after_return.cases; auto simp: frees_def)+

lemma frees_once:
  assumes "inv P N h" and "t < N" and "pcs h t = Some (Finished r)" and "frees r"
  shows "\<not> token h"
proof -
  obtain R W K where "counts_ok (header_view (word h)) (R + size (rds h t)) (W + size (wrs h t))
      (K + toks h t + of_bool (token h))"
    using assms(1,2) by (rule inv_counts)
  moreover have "toks h t = 1" using assms(3,4) by (auto simp: toks_def frees_def)
  ultimately show ?thesis by (cases "header_view (word h)") (auto simp: of_bool_def split: if_splits)
qed

text \<open>Whoever may fill a slot is the only one that has anything to do with its element.\<close>

lemma token_holder_alone:
  assumes sh: "shared_inv P N s" and t: "t < N" and job: "job_tokens (jobs s t) = 1"
    and none: "full_job (jobs s t) = 0"
  shows "\<not> is_occupied (word (header_of s))" and "\<not> available s" and "(\<Sum>u<N. carry s u) = 0"
    and "u < N \<Longrightarrow> u \<noteq> t \<Longrightarrow> job_tokens (jobs s u) = 0"
proof -
  let ?h = "header_of s"
  have inv: "inv P N ?h" using sh by (rule shared_inv_header)
  have tokens: "of_bool (token ?h) = of_bool (available s) + (\<Sum>u<N. job_tokens (jobs s u))"
    using sh by (simp add: shared_inv_def)
  have sum: "(\<Sum>u<N. job_tokens (jobs s u)) = 1 + (\<Sum>u\<in>{..<N} - {t}. job_tokens (jobs s u))"
    using t job by (subst sum.remove [of _ t]) auto
  then have token: "token ?h" "\<not> available s" and rest: "(\<Sum>u\<in>{..<N} - {t}. job_tokens (jobs s u)) = 0"
    using tokens by (auto simp: of_bool_def split: if_splits)
  obtain i where w: "word ?h = pack False 0 i" "i \<noteq> RESERVED_ID"
    using inv_token_held [OF inv t] token(1) by blast
  show "\<not> is_occupied (word ?h)" "\<not> available s" using w token(2) by simp_all
  have others: "job_tokens (jobs s u) = 0" if "u < N" "u \<noteq> t" for u using rest that by simp
  then show "u < N \<Longrightarrow> u \<noteq> t \<Longrightarrow> job_tokens (jobs s u) = 0" .
  have "total_tokens N ?h = 1"
    using inv w by (simp add: inv_def header_view_pack)
  then have toks: "toks ?h u = 0" if "u < N" for u
    using token(1) that by (simp add: total_tokens_def)
  have unspent: "\<not> spent s u" if "u < N" for u
    using sh that w by (auto simp: shared_inv_def)
  have "opt_pc 0 full_pc (pcs ?h u) = 0" if "u < N" for u
    using toks [OF that] unspent [OF that]
    by (cases "pcs ?h u") (auto simp: spent_def toks_def)
  moreover have "full_job (jobs s u) = 0" if "u < N" for u
  proof (cases "u = t")
    case False
    then show ?thesis
      using others [OF that False] unspent [OF that]
      by (cases "jobs s u") (auto simp: spent_def)
  qed (use none in simp)
  ultimately show "(\<Sum>u<N. carry s u) = 0" by (simp add: carry_def)
qed

lemma writer_alone:
  assumes sh: "shared_inv P N s" and t: "t < N" and i: "i \<in># writes (header_of s) t"
  shows "is_occupied (word (header_of s))" and "i \<noteq> RESERVED_ID"
    and "u < N \<Longrightarrow> u \<noteq> t \<Longrightarrow> gone s u = 0" and "(\<Sum>u<N. gone s u) = gone s t"
    and "reads (header_of s) u = {#} \<or> \<not> u < N"
    and "u < N \<Longrightarrow> u \<noteq> t \<Longrightarrow> writes (header_of s) u = {#}"
proof -
  let ?h = "header_of s"
  have inv: "inv P N ?h" using sh by (rule shared_inv_header)
  note held = wrs_writes [OF i]
  obtain n where w: "word ?h = pack n 2147483647 i" "i \<noteq> RESERVED_ID"
    using inv t held by (rule inv_write_held)
  then show "is_occupied (word ?h)" "i \<noteq> RESERVED_ID" by simp_all
  have totals: "total_reads N ?h = 0" "(\<Sum>u<N. size (wrs ?h u)) = 1"
    using inv w by (simp_all add: inv_def header_view_pack total_writes_def)
  have "size (wrs ?h t) \<noteq> 0" using held by auto
  from sum_one_unique(2) [OF totals(2) t this]
  have others: "size (wrs ?h u) = 0" if "u < N" "u \<noteq> t" for u using that .
  then show gone: "u < N \<Longrightarrow> u \<noteq> t \<Longrightarrow> gone s u = 0" for u
    using gone_le_wrs [OF sh, of u] by simp
  have "(\<Sum>u<N. gone s u) = gone s t + (\<Sum>u\<in>{..<N} - {t}. gone s u)"
    using t by (subst sum.remove [of _ t]) auto
  then show "(\<Sum>u<N. gone s u) = gone s t" using gone by simp
  show "reads ?h u = {#} \<or> \<not> u < N"
    using totals(1) by (auto simp: total_reads_def rds_def)
  show "u < N \<Longrightarrow> u \<noteq> t \<Longrightarrow> writes ?h u = {#}" using others [of u] by (simp add: wrs_def)
qed

context parking
begin

lemma shared_step_inv:
  assumes step: "shared_step cfg P N s s'" and sh: "shared_inv P N s"
  shows "shared_inv P N s'"
  using step
proof cases
  case (direct t c h)
  have pcs: "pcs (header_of s) t = None" "jobs s t = Idle" using direct by (simp_all add: free_def)
  then have "exec_event cfg P N (Call t c) (header_of s) = Some h" using direct by simp
  note inv = sys_step_inv [OF exec_event_step [OF this] shared_inv_header [OF sh]]
  have "c \<noteq> OpOccupy" using direct by auto
  then show ?thesis
    using direct inv pcs call_event_frame [OF direct(5)] direct_entry [OF direct(4), of cfg]
    by (intro shared_move [OF sh direct(2)]) (auto simp: carry_def gone_def spent_def simp del: entry.simps)
next
  case (run t ch h)
  then obtain p p' w' q' where *: "t < N" "pcs (header_of s) t = Some p"
      "hstep cfg P t ch p (word (header_of s), queue (header_of s)) = Some (p', w', q')"
      "h = (header_of s)\<lparr>word := w', queue := q', pcs := (pcs (header_of s))(t \<mapsto> p')\<rparr>"
    by (auto split: if_splits option.splits)
  note inv = sys_step_inv [OF exec_event_step [OF run(2)] shared_inv_header [OF sh]]
  show ?thesis
    using shared_run [OF sh *(1-3)] inv unfolding run(1) *(4) by blast
next
  case (return t r h)
  have idle: "jobs s t = Idle" using sh return by (auto simp: shared_inv_def)
  have h: "h = grant t r ((header_of s)\<lparr>pcs := (pcs (header_of s))(t := None)\<rparr>)"
    using return by simp
  note inv = sys_step_inv [OF exec_event_step [OF return(4)] shared_inv_header [OF sh]]
  have once: "frees r \<Longrightarrow> \<not> token (header_of s)"
    using frees_once [OF shared_inv_header [OF sh] return(2,3)] .
  have spent: "full_pc (Finished r) \<noteq> 0 \<and> pc_tokens (Finished r) = 0 \<Longrightarrow>
      id_from_bits (word (header_of s)) = RESERVED_ID"
    using sh return(2,3) by (auto simp: shared_inv_def spent_def)
  show ?thesis
    unfolding return(1)
  proof (rule shared_move [OF sh return(2)])
    show "inv P N (header_of (s\<lparr>header_of := h, jobs := (jobs s)(t := after_return r)\<rparr>))"
      using inv by simp
  qed (use return(3) idle once spent in \<open>auto simp: h grant_pcs grant_frame carry_def gone_def
      spent_def after_return_owns\<close>)
next
  case (unwind t f h)
  then have t: "t < N" by (auto split: if_splits)
  have idle: "jobs s t = Idle" using sh unwind by (auto simp: shared_inv_def)
  note inv = sys_step_inv [OF exec_event_step [OF unwind(3)] shared_inv_header [OF sh]]
  have h: "h = (header_of s)\<lparr>pcs := (pcs (header_of s))(t := None)\<rparr>" using unwind t by simp
  show ?thesis
    unfolding unwind(1)
    by (rule shared_move [OF sh t])
      (use inv idle unwind(2) in \<open>auto simp: h carry_def gone_def spent_def\<close>)
next
  case (insert t e)
  then show ?thesis
    using shared_inv_header [OF sh]
    by (intro shared_move [OF sh insert(2)]) (auto simp: free_def carry_def gone_def spent_def)
next
  case (fill t e)
  have t: "t < N" "pcs (header_of s) t = None" using sh fill by (auto simp: shared_inv_def)
  have "\<not> is_occupied (word (header_of s))" "(\<Sum>u<N. carry s u) = 0"
    using token_holder_alone [OF sh t(1)] fill by auto
  then show ?thesis
    using shared_inv_header [OF sh] fill t
    by (intro shared_move [OF sh t(1)]) (auto simp: carry_def gone_def spent_def cell_ok_def)
next
  case (occupy t h)
  have t: "t < N" "pcs (header_of s) t = None" using sh occupy by (auto simp: shared_inv_def)
  then have "exec_event cfg P N (Call t OpOccupy) (header_of s) = Some h" using occupy by simp
  note inv = sys_step_inv [OF exec_event_step [OF this] shared_inv_header [OF sh]]
  show ?thesis
    using occupy inv t call_event_frame [OF occupy(3)]
    by (intro shared_move [OF sh t(1)]) (auto simp: carry_def gone_def spent_def)
next
  case (take t b)
  have t: "t < N" "pcs (header_of s) t = None" using sh take by (auto simp: shared_inv_def)
  show ?thesis
    using shared_inv_header [OF sh] take t
    by (intro shared_move [OF sh t(1)]) (auto simp: carry_def gone_def spent_def cell_ok_def split: if_splits)
next
  case (push t)
  have t: "t < N" "pcs (header_of s) t = None" using sh push by (auto simp: shared_inv_def)
  have "\<not> available s" using token_holder_alone(2) [OF sh t(1)] push by simp
  then show ?thesis
    using shared_inv_header [OF sh] push t
    by (intro shared_move [OF sh t(1)]) (auto simp: carry_def gone_def spent_def)
next
  case (assign t i e)
  have "is_occupied (word (header_of s))" "(\<Sum>u<N. gone s u) = 0"
    using writer_alone [OF sh assign(2,4)] assign by (auto simp: gone_def free_def)
  then show ?thesis
    using shared_inv_header [OF sh] assign sh
    by (intro shared_move [OF sh assign(2)])
      (auto simp: carry_def gone_def spent_def cell_ok_def free_def shared_inv_def)
next
  case (remove_locked t i)
  then show ?thesis
    using shared_inv_header [OF sh]
    by (intro shared_move [OF sh remove_locked(2)]) (auto simp: free_def carry_def gone_def spent_def)
next
  case (take_locked t i)
  have t: "t < N" "pcs (header_of s) t = None" "i \<in># writes (header_of s) t"
    using sh take_locked by (auto simp: shared_inv_def dest!: spec [where x = t])
  then show ?thesis
    using shared_inv_header [OF sh] take_locked writer_alone(1) [OF sh t(1,3)]
    by (intro shared_move [OF sh t(1)]) (auto simp: carry_def gone_def spent_def cell_ok_def)
next
  case (unlock_removed t i h)
  have t: "t < N" "pcs (header_of s) t = None" "i \<in># writes (header_of s) t"
    using sh unlock_removed by (auto simp: shared_inv_def dest!: spec [where x = t])
  note entry = entry_simps(4) [OF writer_alone(2) [OF sh t(1,3)], of cfg]
  have "exec_event cfg P N (Call t (OpRemoveLocked i)) (header_of s) = Some h"
    using unlock_removed t by simp
  note inv = sys_step_inv [OF exec_event_step [OF this] shared_inv_header [OF sh]]
  show ?thesis
    using unlock_removed inv t call_event_frame [OF unlock_removed(3), unfolded entry]
    by (intro shared_move [OF sh t(1)]) (auto simp: carry_def gone_def spent_def)
qed

lemma shared_reachable_inv: "shared_reachable cfg P N s \<Longrightarrow> shared_inv P N s"
proof (induction rule: shared_reachable.induct)
  case start
  show ?case
    using init_inv [of N]
    by (simp add: shared_inv_def shared_init_def sys_init_def carry_def gone_def spent_def cell_ok_def bits_pack)
next
  case (step s s')
  then show ?case by (blast intro: shared_step_inv)
qed

lemma shared_step_header:
  assumes step: "shared_step cfg P N s s'" and sh: "shared_inv P N s"
  shows "header_of s' = header_of s \<or> sys_step cfg P N (header_of s) (header_of s')"
  using step
proof cases
  case (direct t c h)
  then have "exec_event cfg P N (Call t c) (header_of s) = Some h" by (simp add: free_def)
  from exec_event_step [OF this] direct(1) show ?thesis by simp
next
  case (run t ch h)
  from exec_event_step [OF run(2)] run(1) show ?thesis by simp
next
  case (return t r h)
  from exec_event_step [OF return(4)] return(1) show ?thesis by simp
next
  case (unwind t f h)
  from exec_event_step [OF unwind(3)] unwind(1) show ?thesis by simp
next
  case (occupy t h)
  then have "exec_event cfg P N (Call t OpOccupy) (header_of s) = Some h"
    using sh by (auto simp: shared_inv_def)
  from exec_event_step [OF this] occupy(1) show ?thesis by simp
next
  case (unlock_removed t i h)
  then have "exec_event cfg P N (Call t (OpRemoveLocked i)) (header_of s) = Some h"
    using sh by (auto simp: shared_inv_def)
  from exec_event_step [OF this] unlock_removed(1) show ?thesis by simp
qed simp_all

lemma shared_reachable_header: "shared_reachable cfg P N s \<Longrightarrow> reachable cfg P N (header_of s)"
proof (induction rule: shared_reachable.induct)
  case start
  show ?case by (simp add: shared_init_def reachable.start)
next
  case (step s s')
  from shared_step_header [OF step.hyps(2) shared_reachable_inv [OF step.hyps(1)]] step.IH
  show ?case by (auto intro: reachable.step)
qed

end

section \<open>Memory safety of a shared slot\<close>

lemma reader_there:
  assumes sh: "shared_inv P N s" and t: "t < N" and i: "i \<in># reads (header_of s) t"
  shows "is_occupied (word (header_of s))" and "(\<Sum>u<N. gone s u) = 0"
    and "u < N \<Longrightarrow> writes (header_of s) u = {#}"
proof -
  obtain r b where view: "header_view (word (header_of s)) = ReadLocked i r b"
      and none: "total_writes N (header_of s) = 0"
    using shared_inv_header [OF sh] t rds_reads [OF i] by (rule read_held_view)
  then show "is_occupied (word (header_of s))" by (auto simp: header_view_def split: if_splits)
  show "(\<Sum>u<N. gone s u) = 0" by (rule no_writer_none_gone [OF sh none])
  show "u < N \<Longrightarrow> writes (header_of s) u = {#}" using none by (auto simp: total_writes_def wrs_def)
qed

lemma occupied_carries_none:
  assumes "shared_inv P N s" and "is_occupied (word (header_of s))" and "t < N"
  shows "carry s t = 0"
  using assms shared_inv_cell [OF assms(1)] by (auto simp: cell_ok_def)

lemma take_vacant:
  assumes "shared_inv P N s" and "jobs s t = Take b"
  shows "\<not> is_occupied (word (header_of s))" and "(\<Sum>u<N. carry s u) = 1"
proof -
  have t: "t < N" using assms by (auto simp: shared_inv_def)
  have "carry s t \<noteq> 0" using assms(2) by (simp add: carry_def)
  then show "\<not> is_occupied (word (header_of s))"
    using occupied_carries_none [OF assms(1) _ t] by auto
  moreover have "carry s t \<le> (\<Sum>u<N. carry s u)" using t by (intro member_le_sum) auto
  ultimately show "(\<Sum>u<N. carry s u) = 1"
    using shared_inv_cell [OF assms(1)] \<open>carry s t \<noteq> 0\<close> by (auto simp: cell_ok_def)
qed

lemma take_locked_guard:
  "shared_inv P N s \<Longrightarrow> jobs s t = TakeLocked i \<Longrightarrow> t < N \<and> i \<in># writes (header_of s) t"
  by (auto simp: shared_inv_def dest!: spec [where x = t])

text \<open>
  C1. No data race on an element. However the operations of any number of threads interleave, one
  atomic access at a time: while a thread is about to write a slot's element, as the inserter
  that fills it or through a write guard, no other thread can read or write it, whether through
  a guard, to move it out in a removal, or to insert the next element.
\<close>

theorem no_data_race:
  assumes "parking P" and "shared_reachable cfg P N s" and "t < N" and "u < N" and "t \<noteq> u"
    and "may_write s t"
  shows "\<not> may_read s u \<and> \<not> may_write s u"
proof -
  have sh: "shared_inv P N s" using assms(1,2) by (rule parking.shared_reachable_inv)
  from assms(6) [unfolded may_write_def] show ?thesis
  proof (elim disjE exE conjE)
    fix e assume fill: "jobs s t = Fill e"
    then have alone: "\<not> is_occupied (word (header_of s))" "(\<Sum>v<N. carry s v) = 0"
        "job_tokens (jobs s u) = 0"
      using token_holder_alone(1,3) [OF sh assms(3)] token_holder_alone(4) [OF sh assms(3), of u]
        assms(4,5) by auto
    then have "reads (header_of s) u = {#}" "writes (header_of s) u = {#}"
      using reader_there(1) [OF sh assms(4)] writer_alone(1) [OF sh assms(4)]
      by (metis multiset_nonemptyE)+
    moreover have "jobs s u \<noteq> TakeLocked i" for i
      using take_locked_guard [OF sh, of u i] calculation by auto
    moreover have "jobs s u \<noteq> Take b" for b using take_vacant(2) [OF sh, of u b] alone(2) by auto
    ultimately show ?thesis using alone(3) by (auto simp: may_read_def may_write_def)
  next
    assume "writes (header_of s) t \<noteq> {#}"
    then obtain i where i: "i \<in># writes (header_of s) t" by blast
    note alone = writer_alone [OF sh assms(3) i]
    then have "writes (header_of s) u = {#}" "reads (header_of s) u = {#}"
      using assms(4,5) by auto
    moreover have "jobs s u \<noteq> TakeLocked i" for i
      using take_locked_guard [OF sh, of u i] calculation by auto
    moreover have "jobs s u \<noteq> Take b" for b using take_vacant(1) [OF sh, of u b] alone(1) by auto
    moreover have "jobs s u \<noteq> Fill e" for e
      using token_holder_alone(1) [OF sh assms(4)] alone(1) by auto
    ultimately show ?thesis by (auto simp: may_read_def may_write_def)
  qed
qed

theorem no_data_race_witness:
  "\<exists>s :: (nat, loom_park) shared. may_write s 0 \<and> \<not> may_read s 1 \<and> \<not> may_write s 1"
proof -
  let ?init = "shared_init loom_parker :: (nat, loom_park) shared"
  let ?s = "?init\<lparr>available := False, jobs := (jobs ?init)(0 := Fill 42)\<rparr>"
  have "shared_step debug_build loom_parker 2 ?init ?s"
    by (rule shared_step.insert) (simp_all add: free_def shared_init_def sys_init_def)
  then have reach: "shared_reachable debug_build loom_parker 2 ?s"
    by (rule shared_reachable.step [OF shared_reachable.start])
  have "may_write ?s 0" by (simp add: may_write_def)
  with no_data_race [OF loom.parking_axioms reach, of 0 1] show ?thesis by auto
qed

text \<open>
  C2. Elements are never used after they are gone and never lost. In every interleaving: whoever
  is about to read an element, through a guard or to move it out, finds one in the slot, so none
  is read uninitialised or moved out twice; an insert fills an empty slot, so it overwrites none;
  and while a thread holds a read guard no step of any thread changes the element or takes it.
\<close>

theorem element_pinned:
  assumes "parking P" and "shared_reachable cfg P N s" and "t < N"
  shows "(may_read s t \<longrightarrow> cell s \<noteq> None) \<and> (\<forall>e. jobs s t = Fill e \<longrightarrow> cell s = None) \<and>
    (\<forall>s'. reads (header_of s) t \<noteq> {#} \<and> shared_step cfg P N s s' \<longrightarrow> cell s' = cell s)"
proof (intro conjI impI allI)
  have sh: "shared_inv P N s" using assms(1,2) by (rule parking.shared_reachable_inv)
  note cells = shared_inv_cell [OF sh]
  show "cell s \<noteq> None" if "may_read s t"
    using that unfolding may_read_def
  proof (elim disjE exE conjE)
    fix b assume "jobs s t = Take b"
    then show ?thesis using take_vacant [OF sh] cells by (auto simp: cell_ok_def)
  next
    fix i assume job: "jobs s t = TakeLocked i"
    then have "gone s t = 0" using sh by (auto simp: gone_def shared_inv_def)
    then show ?thesis
      using take_locked_guard [OF sh job] writer_alone(1,4) [OF sh, of t i] cells
      by (auto simp: cell_ok_def)
  next
    assume "reads (header_of s) t \<noteq> {#}"
    then show ?thesis
      using reader_there(1,2) [OF sh assms(3)] cells by (metis cell_ok_def multiset_nonemptyE)
  next
    assume "free s t" and "writes (header_of s) t \<noteq> {#}"
    then show ?thesis
      using writer_alone(1,4) [OF sh assms(3)] cells
      by (auto simp: cell_ok_def gone_def free_def elim!: multiset_nonemptyE)
  qed
  show "cell s = None" if "jobs s t = Fill e" for e
    using token_holder_alone [OF sh assms(3)] that cells by (auto simp: cell_ok_def)
  fix s' assume *: "reads (header_of s) t \<noteq> {#} \<and> shared_step cfg P N s s'"
  then obtain i where i: "i \<in># reads (header_of s) t" by blast
  note there = reader_there [OF sh assms(3) i]
  from conjunct2 [OF *] show "cell s' = cell s"
  proof cases
    case (fill u e)
    then have "u < N" using sh by (auto simp: shared_inv_def)
    then show ?thesis using token_holder_alone(1) [OF sh, of u] fill there(1) by auto
  next
    case (take u b)
    then show ?thesis using take_vacant(1) [OF sh] there(1) by blast
  next
    case (assign u j e)
    then show ?thesis using there(3) by auto
  next
    case (take_locked u j)
    then show ?thesis using take_locked_guard [OF sh] there(3) by fastforce
  qed simp_all
qed

theorem element_pinned_witness:
  "\<exists>s :: (nat, loom_park) shared. jobs s 0 = Fill 42 \<and> cell s = None"
proof -
  let ?init = "shared_init loom_parker :: (nat, loom_park) shared"
  let ?s = "?init\<lparr>available := False, jobs := (jobs ?init)(0 := Fill 42)\<rparr>"
  have "shared_step debug_build loom_parker 2 ?init ?s"
    by (rule shared_step.insert) (simp_all add: free_def shared_init_def sys_init_def)
  then have reach: "shared_reachable debug_build loom_parker 2 ?s"
    by (rule shared_reachable.step [OF shared_reachable.start])
  from element_pinned [OF loom.parking_axioms reach, of 0] show ?thesis
    by (intro exI [of _ ?s]) simp
qed

end
