(* ===== verification/RwPool.thy ===== *)
theory RwPool
  imports RwShared RwInsert
begin

text \<open>
  The store shared by threads: sixteen buckets that hand out slots in any interleaving of the two
  paths of \<open>next_insert_location\<close> (\<open>race_step\<close>), the queue of reusable slots, and every slot
  with its header and its element (\<open>shared_step\<close>). A thread that inserts takes its slot from the
  queue or from a bucket; a thread that has emptied a slot pushes it. The heap is used for the
  allocation of blocks only; from its allocation on, a slot is its entry in \<open>slots\<close>.
\<close>

section \<open>The shared store\<close>

record ('e, 'p, 'q) pool =
  pool_buckets :: "nat \<Rightarrow> bucket"
  pool_heap :: "'e heap"
  pool_pending :: "nat \<Rightarrow> nat"
  pool_given :: "nat \<Rightarrow> address list"
  recycled :: 'q
  slots :: "address \<Rightarrow> ('e, 'p) shared"

definition lane :: "('e, 'p, 'q) pool \<Rightarrow> nat \<Rightarrow> 'e race" where
  "lane s k = \<lparr>race_bucket = pool_buckets s k, race_heap = pool_heap s,
     pending = pool_pending s k, given = pool_given s k\<rparr>"

definition set_lane :: "nat \<Rightarrow> 'e race \<Rightarrow> ('e, 'p, 'q) pool \<Rightarrow> ('e, 'p, 'q) pool" where
  "set_lane k r s = s\<lparr>pool_buckets := (pool_buckets s)(k := race_bucket r),
     pool_heap := race_heap r, pool_pending := (pool_pending s)(k := pending r),
     pool_given := (pool_given s)(k := given r)\<rparr>"

definition pool_init :: "store_id \<Rightarrow> 'p parker \<Rightarrow> 'q erasure_queue \<Rightarrow> ('e, 'p, 'q) pool" where
  "pool_init sid P Q = \<lparr>pool_buckets = (\<lambda>_. bucket_new sid),
     pool_heap = \<lparr>cells = (\<lambda>_. None), allocations = 0\<rparr>, pool_pending = (\<lambda>_. 0),
     pool_given = (\<lambda>_. []), recycled = q_new Q, slots = (\<lambda>_. shared_init P)\<rparr>"

text \<open>A thread takes a slot to put an element into it.\<close>

definition start_insert :: "nat \<Rightarrow> 'e \<Rightarrow> ('e, 'p) shared \<Rightarrow> ('e, 'p) shared" where
  "start_insert t e x = x\<lparr>available := False, jobs := (jobs x)(t := Fill e)\<rparr>"

definition end_remove :: "nat \<Rightarrow> ('e, 'p) shared \<Rightarrow> ('e, 'p) shared" where
  "end_remove t x = x\<lparr>available := True, jobs := (jobs x)(t := Idle)\<rparr>"

inductive pool_step ::
  "build \<Rightarrow> platform \<Rightarrow> 'p parker \<Rightarrow> 'q erasure_queue \<Rightarrow> nat \<Rightarrow> nat \<Rightarrow>
    ('e, 'p, 'q) pool \<Rightarrow> ('e, 'p, 'q) pool \<Rightarrow> bool"
  for cfg :: build and A :: platform and P :: "'p parker" and Q :: "'q erasure_queue"
    and N :: nat and T :: nat where
  slot: "shared_step cfg P N (slots s p) x \<Longrightarrow> available x = available (slots s p) \<Longrightarrow>
    pool_step cfg A P Q N T s (s\<lparr>slots := (slots s)(p := x)\<rparr>)"
| recycle: "jobs (slots s p) t = Push \<Longrightarrow>
    pool_step cfg A P Q N T s (s\<lparr>recycled := q_push Q p (recycled s),
      slots := (slots s)(p := end_remove t (slots s p))\<rparr>)"
| reuse: "t < N \<Longrightarrow> (\<And>p. free (slots s p) t) \<Longrightarrow> q_pop Q (recycled s) = Some (p, q') \<Longrightarrow>
    pool_step cfg A P Q N T s (s\<lparr>recycled := q',
      slots := (slots s)(p := start_insert t e (slots s p))\<rparr>)"
| miss: "k < BUCKET_COUNT \<Longrightarrow> race_step cfg A T (lane s k) r \<Longrightarrow> given r = pool_given s k \<Longrightarrow>
    pool_step cfg A P Q N T s (set_lane k r s)"
| hit: "t < N \<Longrightarrow> (\<And>p. free (slots s p) t) \<Longrightarrow> k < BUCKET_COUNT \<Longrightarrow>
    race_step cfg A T (lane s k) r \<Longrightarrow> given r = p # pool_given s k \<Longrightarrow>
    pool_step cfg A P Q N T s ((set_lane k r s)\<lparr>slots := (slots s)(p := start_insert t e (slots s p))\<rparr>)"

inductive pool_reachable ::
  "build \<Rightarrow> platform \<Rightarrow> 'p parker \<Rightarrow> 'q erasure_queue \<Rightarrow> nat \<Rightarrow> nat \<Rightarrow> store_id \<Rightarrow>
    ('e, 'p, 'q) pool \<Rightarrow> bool"
  for cfg :: build and A :: platform and P :: "'p parker" and Q :: "'q erasure_queue"
    and N :: nat and T :: nat and sid :: store_id where
  start: "pool_reachable cfg A P Q N T sid (pool_init sid P Q)"
| step: "pool_reachable cfg A P Q N T sid s \<Longrightarrow> pool_step cfg A P Q N T s s' \<Longrightarrow>
    pool_reachable cfg A P Q N T sid s'"

section \<open>Its invariant\<close>

definition all_given :: "('e, 'p, 'q) pool \<Rightarrow> address set" where
  "all_given s = (\<Union>k<BUCKET_COUNT. set (pool_given s k))"

definition lanes_ok :: "nat \<Rightarrow> store_id \<Rightarrow> ('e, 'p, 'q) pool \<Rightarrow> bool" where
  "lanes_ok T sid s \<longleftrightarrow>
     (\<forall>k<BUCKET_COUNT. race_inv T sid (lane s k)) \<and>
     (\<forall>j<BUCKET_COUNT. \<forall>k<BUCKET_COUNT. j \<noteq> k \<longrightarrow>
        set (bases (pool_buckets s j)) \<inter> set (bases (pool_buckets s k)) = {})"

definition pool_inv ::
  "build \<Rightarrow> 'p parker \<Rightarrow> 'q erasure_queue \<Rightarrow> nat \<Rightarrow> nat \<Rightarrow> store_id \<Rightarrow>
    ('e, 'p, 'q) pool \<Rightarrow> bool" where
  "pool_inv cfg P Q N T sid s \<longleftrightarrow>
     lanes_ok T sid s \<and> (\<forall>p. shared_reachable cfg P N (slots s p)) \<and>
     distinct (q_items Q (recycled s)) \<and> set (q_items Q (recycled s)) \<subseteq> all_given s \<and>
     (\<forall>p. available (slots s p) \<longleftrightarrow> p \<in> set (q_items Q (recycled s)) \<or> p \<notin> all_given s)"

section \<open>Buckets hand out unused slots\<close>

lemma lane_simps [simp]:
  "race_bucket (lane s k) = pool_buckets s k" "race_heap (lane s k) = pool_heap s"
  "pending (lane s k) = pool_pending s k" "given (lane s k) = pool_given s k"
  by (simp_all add: lane_def)

lemma lane_set_lane:
  "lane (set_lane k r s) j = (if j = k then r else (lane s j)\<lparr>race_heap := race_heap r\<rparr>)"
  by (simp add: lane_def set_lane_def)

lemma set_lane_simps [simp]:
  "slots (set_lane k r s) = slots s" "recycled (set_lane k r s) = recycled s"
  "pool_buckets (set_lane k r s) = (pool_buckets s)(k := race_bucket r)"
  "pool_given (set_lane k r s) = (pool_given s)(k := given r)"
  by (simp_all add: set_lane_def)

lemma given_bases:
  assumes "race_inv T sid r" and "p \<in> set (given r)"
  shows "allocation p \<in> set (bases (race_bucket r))"
  using assms slots_base [of sid "race_bucket r" p] by (auto simp: race_inv_def)

lemma lanes_gives:
  assumes ok: "lanes_ok T sid s" and k: "k < BUCKET_COUNT"
    and given: "given r = p # pool_given s k" "pending r \<le> pool_pending s k"
    and out: "hands_out sid p (pool_buckets s k) (pool_heap s) (race_bucket r) (race_heap r)"
  shows "lanes_ok T sid (set_lane k r s) \<and> p \<notin> all_given s"
proof -
  have inv: "race_inv T sid (lane s j)" if "j < BUCKET_COUNT" for j
    using ok that by (simp add: lanes_ok_def)
  have r: "race_inv T sid r"
    using race_inv_gives [OF inv [OF k], of r p] given out by simp
  have others: "race_inv T sid ((lane s j)\<lparr>race_heap := race_heap r\<rparr>)" if "j < BUCKET_COUNT" for j
    using race_inv_heap [OF inv [OF that], of "race_heap r"] out by (simp add: hands_out_def)
  have apart: "set (bases (race_bucket r)) \<inter> set (bases (pool_buckets s j)) = {}"
    if j: "j < BUCKET_COUNT" "j \<noteq> k" for j
  proof -
    have "m < allocations (pool_heap s)" if "m \<in> set (bases (pool_buckets s j))" for m
      using inv [OF j(1)] that by (auto simp: race_inv_def bases_allocated_def)
    moreover have "set (bases (race_bucket r)) \<subseteq>
        set (bases (pool_buckets s k)) \<union> {allocations (pool_heap s)..}"
      using out by (auto simp: hands_out_def)
    moreover have "set (bases (pool_buckets s j)) \<inter> set (bases (pool_buckets s k)) = {}"
      using ok j k by (simp add: lanes_ok_def)
    ultimately show ?thesis by fastforce
  qed
  have "lanes_ok T sid (set_lane k r s)"
    using ok r others apart by (auto simp: lanes_ok_def lane_set_lane)
  moreover have "p \<notin> set (pool_given s j)" if j: "j < BUCKET_COUNT" for j
  proof (cases "j = k")
    case True
    have "bucket_ok sid (race_bucket r)" "given r = touched_slots (race_bucket r)"
      using r by (simp_all add: race_inv_def)
    with slots_distinct [of sid "race_bucket r"] given(1) True show ?thesis by simp
  next
    case False
    have "allocation p \<in> set (bases (race_bucket r))" using given_bases [OF r, of p] given(1) by simp
    with apart [OF j False] given_bases [OF inv [OF j], of p] show ?thesis by auto
  qed
  ultimately show ?thesis by (auto simp: all_given_def)
qed

lemma lanes_misses:
  assumes ok: "lanes_ok T sid s" and k: "k < BUCKET_COUNT" and inv: "race_inv T sid r"
    and same: "race_heap r = pool_heap s" "bases (race_bucket r) = bases (pool_buckets s k)"
  shows "lanes_ok T sid (set_lane k r s)"
proof -
  have frame: "(lane s j)\<lparr>race_heap := pool_heap s\<rparr> = lane s j" for j by (simp add: lane_def)
  show ?thesis using assms by (auto simp: lanes_ok_def lane_set_lane frame)
qed

lemma lane_step:
  assumes ok: "lanes_ok T sid s" and k: "k < BUCKET_COUNT" and step: "race_step cfg A T (lane s k) r"
    and T: "T < 2147483647" and memory: "\<And>k. k < 32 \<Longrightarrow> block_fits A (2 ^ k)"
    and depth: "length (pool_given s k) < 2147483647"
  shows "lanes_ok T sid (set_lane k r s)"
    and "given r = p # pool_given s k \<Longrightarrow> p \<notin> all_given s"
proof -
  have inv: "race_inv T sid (lane s k)" using ok k by (simp add: lanes_ok_def)
  then have "depth (pool_buckets s k) < 32"
    using depth by (intro depth_bound [of sid]) (simp_all add: race_inv_def)
  then have small: "depth (race_bucket (lane s k)) < 32" by simp
  consider (gives) q where "given r = q # pool_given s k" "pending r \<le> pool_pending s k"
      "hands_out sid q (pool_buckets s k) (pool_heap s) (race_bucket r) (race_heap r)"
    | (misses) "given r = pool_given s k" "race_heap r = pool_heap s" "race_inv T sid r"
      "bases (race_bucket r) = bases (pool_buckets s k)"
    using race_step_effect [OF step inv T memory small] by auto
  then have "lanes_ok T sid (set_lane k r s) \<and> (given r = p # pool_given s k \<longrightarrow> p \<notin> all_given s)"
  proof cases
    case (gives q)
    with lanes_gives [OF ok k, of r q] show ?thesis by auto
  next
    case misses
    with lanes_misses [OF ok k, of r] show ?thesis by simp
  qed
  then show "lanes_ok T sid (set_lane k r s)" "given r = p # pool_given s k \<Longrightarrow> p \<notin> all_given s"
    by simp_all
qed

lemma all_given_hit:
  "k < BUCKET_COUNT \<Longrightarrow> given r = p # pool_given s k \<Longrightarrow>
    all_given (set_lane k r s) = insert p (all_given s)"
  by (auto simp: all_given_def split: if_splits)

lemma all_given_miss: "given r = pool_given s k \<Longrightarrow> all_given (set_lane k r s) = all_given s"
  by (auto simp: all_given_def split: if_splits)

lemma all_given_slots [simp]:
  "all_given (s\<lparr>slots := f\<rparr>) = all_given s" "all_given (s\<lparr>recycled := q\<rparr>) = all_given s"
  by (simp_all add: all_given_def)

lemma lanes_ok_slots [simp]:
  "lanes_ok T sid (s\<lparr>slots := f\<rparr>) = lanes_ok T sid s"
  "lanes_ok T sid (s\<lparr>recycled := q\<rparr>) = lanes_ok T sid s"
  by (simp_all add: lanes_ok_def lane_def)

section \<open>A slot in the queue is nobody's\<close>

lemma available_idle:
  assumes sh: "shared_inv P N x" and av: "available x"
  shows "\<not> is_occupied (word (header_of x))" and "id_from_bits (word (header_of x)) \<noteq> RESERVED_ID"
    and "cell x = None" and "t < N \<Longrightarrow> job_tokens (jobs x t) = 0"
    and "t < N \<Longrightarrow> \<not> may_read x t \<and> \<not> may_write x t"
proof -
  let ?h = "header_of x"
  have inv: "inv P N ?h" using sh by (rule shared_inv_header)
  have "of_bool (token ?h) = of_bool (available x) + (\<Sum>t<N. job_tokens (jobs x t))"
    using sh by (simp add: shared_inv_def)
  then have token: "token ?h" and sum: "(\<Sum>t<N. job_tokens (jobs x t)) = 0"
    using av by (auto simp: of_bool_def split: if_splits)
  then show jobs: "t < N \<Longrightarrow> job_tokens (jobs x t) = 0" for t by simp
  have counts: "counts_ok (header_view (word ?h)) (total_reads N ?h) (total_writes N ?h) (total_tokens N ?h)"
    using inv by (simp add: inv_def)
  obtain n r i where w: "word ?h = pack n r i" "r < 2147483648" by (rule word_cases)
  have w: "word ?h = pack False 0 i" "i \<noteq> RESERVED_ID" "total_tokens N ?h = 1"
    using counts w token
    by (cases "i = RESERVED_ID"; auto simp: header_view_pack total_tokens_def split: if_splits)+
  then show vacant: "\<not> is_occupied (word ?h)" "id_from_bits (word ?h) \<noteq> RESERVED_ID" by simp_all
  have toks: "toks ?h u = 0" if "u < N" for u
    using token w(3) that by (simp add: total_tokens_def)
  have unspent: "\<not> spent x u" if "u < N" for u
    using sh that vacant(2) by (auto simp: shared_inv_def)
  have carry: "carry x u = 0" if "u < N" for u
  proof -
    have "opt_pc 0 full_pc (pcs ?h u) = 0"
      using toks [OF that] unspent [OF that] by (cases "pcs ?h u") (auto simp: spent_def toks_def)
    moreover have "full_job (jobs x u) = 0"
      using jobs [OF that] unspent [OF that] by (cases "jobs x u") (auto simp: spent_def)
    ultimately show ?thesis by (simp add: carry_def)
  qed
  then show "cell x = None" using shared_inv_cell [OF sh] vacant(1) by (auto simp: cell_ok_def)
  assume t: "t < N"
  then have "reads ?h t = {#}" "writes ?h t = {#}"
    using reader_there(1) [OF sh t] writer_alone(1) [OF sh t] vacant(1) by (metis multiset_nonemptyE)+
  moreover have "jobs x t \<noteq> Take b" for b using carry [OF t] by (auto simp: carry_def)
  moreover have "jobs x t \<noteq> TakeLocked j" for j
    using take_locked_guard [OF sh, of t j] calculation by auto
  ultimately show "\<not> may_read x t \<and> \<not> may_write x t"
    using jobs [OF t] by (auto simp: may_read_def may_write_def)
qed

section \<open>Every step keeps the invariant\<close>

definition small :: "('e, 'p, 'q) pool \<Rightarrow> bool" where
  "small s \<longleftrightarrow> (\<forall>k<BUCKET_COUNT. length (pool_given s k) < 2147483647)"

lemma pool_step_given:
  "pool_step cfg A P Q N T s s' \<Longrightarrow> length (pool_given s k) \<le> length (pool_given s' k)"
  by (cases rule: pool_step.cases) auto

lemma pool_step_small: "pool_step cfg A P Q N T s s' \<Longrightarrow> small s' \<Longrightarrow> small s"
  unfolding small_def using pool_step_given by (meson le_less_trans)

lemma pool_step_inv:
  assumes P: "parking P" and Q: "fifo Q" and step: "pool_step cfg A P Q N T s s'"
    and inv: "pool_inv cfg P Q N T sid s" and T: "T < 2147483647"
    and memory: "\<And>k. k < 32 \<Longrightarrow> block_fits A (2 ^ k)" and small: "small s"
  shows "pool_inv cfg P Q N T sid s'"
proof -
  have lanes: "lanes_ok T sid s" and reach: "\<And>p. shared_reachable cfg P N (slots s p)"
    and queue: "distinct (q_items Q (recycled s))" "set (q_items Q (recycled s)) \<subseteq> all_given s"
    and av: "\<And>p. available (slots s p) \<longleftrightarrow> p \<in> set (q_items Q (recycled s)) \<or> p \<notin> all_given s"
    using inv by (simp_all add: pool_inv_def)
  have insert: "shared_reachable cfg P N (start_insert t e (slots s p))"
    if "t < N" "free (slots s p) t" "available (slots s p)" for t e p
    using shared_step.insert [OF that, of cfg P e] reach [of p]
    by (auto simp: start_insert_def intro: shared_reachable.step)
  from step show ?thesis
  proof cases
    case (slot p x)
    then have "shared_reachable cfg P N x" using reach [of p] by (blast intro: shared_reachable.step)
    then show ?thesis using slot lanes reach queue av by (simp add: pool_inv_def)
  next
    case (recycle p t)
    have sh: "shared_inv P N (slots s p)" using P reach by (rule parking.shared_reachable_inv)
    then have "t < N" using recycle by (auto simp: shared_inv_def)
    then have "\<not> available (slots s p)"
      using token_holder_alone(2) [OF sh] recycle by simp
    moreover have "shared_reachable cfg P N (end_remove t (slots s p))"
      using shared_step.push [OF recycle(2), of cfg P N] reach [of p]
      by (auto simp: end_remove_def intro: shared_reachable.step)
    ultimately show ?thesis
      using recycle lanes reach queue av
      by (auto simp: pool_inv_def fifo.push_last [OF Q] end_remove_def)
  next
    case (reuse t p q' e)
    have items: "q_items Q (recycled s) = p # q_items Q q'"
      using fifo.pop_first [OF Q reuse(4)] .
    then have "shared_reachable cfg P N (start_insert t e (slots s p))"
      using insert [OF reuse(2,3)] av [of p] by simp
    then show ?thesis
      using reuse lanes reach queue av items by (auto simp: pool_inv_def start_insert_def)
  next
    case (miss k r)
    have "length (pool_given s k) < 2147483647" using small miss by (simp add: small_def)
    with lane_step(1) [OF lanes miss(2,3) T memory]
    show ?thesis using miss reach queue av by (simp add: pool_inv_def all_given_miss)
  next
    case (hit t k r p e)
    have bound: "length (pool_given s k) < 2147483647" using small hit by (simp add: small_def)
    note step = lane_step [OF lanes hit(4,5) T memory bound]
    have p: "p \<notin> all_given s" using step(2) hit(6) by simp
    then have "shared_reachable cfg P N (start_insert t e (slots s p))"
      using insert [OF hit(2,3)] av [of p] by simp
    with step(1) p show ?thesis
      using hit reach queue av
      by (auto simp: pool_inv_def all_given_hit [OF hit(4,6)] start_insert_def)
  qed
qed

lemma pool_init_inv:
  assumes Q: "fifo Q" and s: "s = pool_init sid P Q"
  shows "pool_inv cfg P Q N T sid s"
proof -
  have "race_inv T sid (lane s k)" for k
    using race_inv_init [of T sid] by (simp add: s lane_def pool_init_def race_init_def)
  then have "lanes_ok T sid s"
    by (simp add: lanes_ok_def) (simp add: s pool_init_def bucket_new_ok)
  then show ?thesis
    by (simp add: pool_inv_def s pool_init_def fifo.new_empty [OF Q] all_given_def
        shared_reachable.start) (simp add: shared_init_def)
qed

lemma pool_reachable_inv:
  assumes P: "parking P" and Q: "fifo Q" and "pool_reachable cfg A P Q N T sid s"
    and T: "T < 2147483647" and memory: "\<And>k. k < 32 \<Longrightarrow> block_fits A (2 ^ k)" and "small s"
  shows "pool_inv cfg P Q N T sid s"
  using assms(3,6)
proof (induction rule: pool_reachable.induct)
  case start
  show ?case using Q refl by (rule pool_init_inv)
next
  case (step s s')
  have "small s" using pool_step_small step by blast
  with step pool_step_inv [OF P Q step.hyps(2) _ T memory] show ?case by blast
qed

text \<open>The slots that an insert may be given next: the head of the queue, or a bucket's next slot.\<close>

definition next_for_insert ::
  "build \<Rightarrow> platform \<Rightarrow> 'q erasure_queue \<Rightarrow> nat \<Rightarrow> ('e, 'p, 'q) pool \<Rightarrow> address \<Rightarrow> bool" where
  "next_for_insert cfg A Q T s p \<longleftrightarrow>
     (\<exists>q'. q_pop Q (recycled s) = Some (p, q')) \<or>
     (\<exists>k<BUCKET_COUNT. \<exists>r. race_step cfg A T (lane s k) r \<and> given r = p # pool_given s k)"

text \<open>
  C10. The store under threads: in every interleaving of inserts, removals, locks and guards on a
  store, with fewer than 2^31 - 1 threads between the two paths of a bucket and fewer than 2^31 - 1
  slots handed out by one, the slot that an insert is given, from the queue of reusable slots or
  from any of the buckets, is used by nobody: its header is unoccupied with IDs left, there is no
  element in it, and no thread can access its element. The queue holds no slot twice; and every
  slot of the store runs the protocol of a shared slot, so that no access to an element races.
\<close>

theorem insert_gets_unused_slot:
  assumes "parking P" and "fifo Q" and "pool_reachable cfg A P Q N T sid s"
    and "T < 2147483647" and "\<And>k. k < 32 \<Longrightarrow> block_fits A (2 ^ k)"
    and "\<And>k. k < BUCKET_COUNT \<Longrightarrow> length (pool_given s k) < 2147483647"
  shows "distinct (q_items Q (recycled s)) \<and> (\<forall>p. shared_reachable cfg P N (slots s p)) \<and>
    (\<forall>p. next_for_insert cfg A Q T s p \<longrightarrow>
      \<not> is_occupied (word (header_of (slots s p))) \<and>
      id_from_bits (word (header_of (slots s p))) \<noteq> RESERVED_ID \<and> cell (slots s p) = None \<and>
      (\<forall>t<N. \<not> may_read (slots s p) t \<and> \<not> may_write (slots s p) t))"
proof -
  have small: "small s" using assms(6) by (simp add: small_def)
  have inv: "pool_inv cfg P Q N T sid s"
    using assms(1-5) small by (rule pool_reachable_inv)
  then have av: "\<And>p. available (slots s p) \<longleftrightarrow> p \<in> set (q_items Q (recycled s)) \<or> p \<notin> all_given s"
    and lanes: "lanes_ok T sid s" and reach: "\<And>p. shared_reachable cfg P N (slots s p)"
    and dist: "distinct (q_items Q (recycled s))"
    by (simp_all add: pool_inv_def)
  have free: "available (slots s p)" if "next_for_insert cfg A Q T s p" for p
    using that unfolding next_for_insert_def
  proof (elim disjE exE conjE)
    fix q' assume "q_pop Q (recycled s) = Some (p, q')"
    from fifo.pop_first [OF assms(2) this] show ?thesis by (simp add: av)
  next
    fix k r assume *: "k < BUCKET_COUNT" "race_step cfg A T (lane s k) r" "given r = p # pool_given s k"
    from lane_step(2) [OF lanes *(1,2) assms(4,5) assms(6) [OF *(1)] *(3)]
    show ?thesis by (simp add: av)
  qed
  have "shared_inv P N (slots s p)" for p
    using assms(1) reach by (rule parking.shared_reachable_inv)
  from available_idle [OF this free] dist reach show ?thesis by blast
qed

text \<open>
  A state in which a slot can be taken: a thread has missed in an empty bucket, so the slow path will
  grow the bucket and hand out its first slot.
\<close>

lemma pool_with_slot:
  fixes P :: "'p parker" and Q :: "'q erasure_queue"
  assumes "0 < T" and "\<And>k. k < 32 \<Longrightarrow> block_fits A (2 ^ k)"
  shows "\<exists>(s :: ('e, 'p, 'q) pool) p. pool_reachable cfg A P Q N T sid s \<and> (\<forall>k. pool_given s k = []) \<and> next_for_insert cfg A Q T s p"
proof -
  let ?init = "pool_init sid P Q :: ('e, 'p, 'q) pool"
  let ?r = "(lane ?init 0)\<lparr>race_bucket := bucket_new sid, pending := Suc 0\<rparr>"
  let ?s = "set_lane 0 ?r ?init"
  have k: "0 < BUCKET_COUNT" by (simp add: BUCKET_COUNT_def)
  have bucket: "race_bucket (lane ?init 0) = bucket_new sid" "pending (lane ?init 0) = 0"
    by (simp_all add: pool_init_def)
  have "inner_next_insert_location cfg (bucket_new sid) = Value (None, bucket_new sid)"
    by (simp add: inner_next_insert_location_def bucket_new_def)
  then have "race_step cfg A T (lane ?init 0) ?r"
    using race_step.fast_miss [of cfg "lane ?init 0" "bucket_new sid" T A] bucket assms(1) by simp
  then have "pool_step cfg A P Q N T ?init ?s" using k by (intro pool_step.miss) simp_all
  with pool_reachable.start have reach: "pool_reachable cfg A P Q N T sid ?s" by (rule pool_reachable.step)
  have lane: "lane ?s 0 = ?r" by (simp add: lane_set_lane)
  have new: "room A (bucket_new sid)" "bases_allocated (race_heap ?r) (bucket_new sid)"
      "untouched_fresh (race_heap ?r) (bucket_new sid)"
    using assms(2) [of 0] by (simp_all add: room_def bucket_new_ok bases_allocated_def untouched_fresh_def)
  have "unat (next_unused_slot (bucket_new sid)) < 4294967295" by (simp add: bucket_new_def)
  from next_insert_location_slow_spec [OF bucket_new_ok(1) new this, of cfg] obtain p b' h'
    where slow: "next_insert_location_slow cfg A (bucket_new sid) (race_heap ?r) = Value (p, b', h')" by blast
  then have "race_step cfg A T (lane ?s 0) (?r\<lparr>race_bucket := b', race_heap := h', pending := 0, given := [p]\<rparr>)"
    using race_step.slow [of cfg A ?r p b' h' T] unfolding lane by (simp add: pool_init_def lane_def)
  then have "next_for_insert cfg A Q T ?s p"
    using k unfolding next_for_insert_def
    by (intro disjI2 exI [of _ 0] conjI exI [of _ "?r\<lparr>race_bucket := b', race_heap := h', pending := 0, given := [p]\<rparr>"])
      (simp_all add: pool_init_def)
  with reach show ?thesis by (auto simp: pool_init_def)
qed

theorem insert_gets_unused_slot_witness:
  "\<exists>(s :: (nat, loom_park, address list) pool) p.
     pool_reachable debug_build small_platform loom_parker vec_queue 2 1 None s \<and>
     next_for_insert debug_build small_platform vec_queue 1 s p \<and>
     \<not> is_occupied (word (header_of (slots s p))) \<and> cell (slots s p) = None \<and>
     \<not> may_write (slots s p) 0 \<and> \<not> may_write (slots s p) 1"
proof -
  have fits: "block_fits small_platform (2 ^ k)" if "k < 32" for k
    using that by (intro small_platform_fits power_increasing) simp_all
  then obtain s :: "(nat, loom_park, address list) pool" and p
    where s: "pool_reachable debug_build small_platform loom_parker vec_queue 2 1 None s"
      "\<forall>k. pool_given s k = []" "next_for_insert debug_build small_platform vec_queue 1 s p"
    using pool_with_slot [of 1 small_platform debug_build loom_parker vec_queue 2 None] by auto
  from insert_gets_unused_slot [OF loom.parking_axioms vec.fifo_axioms s(1) _ fits] s(2,3)
  have "\<not> is_occupied (word (header_of (slots s p))) \<and> cell (slots s p) = None \<and>
      (\<forall>t<2. \<not> may_read (slots s p) t \<and> \<not> may_write (slots s p) t)"
    by simp
  with s show ?thesis by (intro exI [of _ s] exI [of _ p]) simp
qed

end
