(* ===== verification/RwOrdering.thy ===== *)
theory RwOrdering
  imports RwShared
begin

text \<open>
  The memory orderings of the header's accesses (\<open>src/src/header.rs\<close>, the calls of
  \<open>src/src/util/sync/atomic.rs\<close>). A sequentially consistent run of the shared slot of
  \<open>RwShared\<close> is annotated with the happens-before order of the language: every thread has the
  set of accesses to the element that happen before its next step, and the header's word carries
  the set that its release sequence publishes. An access to the element that conflicts with
  an earlier one and is not ordered after it is a data race, which is undefined behaviour whatever
  the run's values are.

  Synchronisation through the queue of reusable slots and between clients outside the crate
  (\<open>Meet\<close>, which may happen at any time or never) is part of the model. What the lock of a parking
  queue synchronises is not: nothing below needs it.
\<close>

section \<open>The orderings of the source\<close>

record orderings =
  load_ordering :: memory_ordering
  exchange_success :: memory_ordering
  exchange_failure :: memory_ordering
  rmw_ordering :: memory_ordering

definition source_orderings :: orderings where
  "source_orderings = \<lparr>load_ordering = Relaxed, exchange_success = Release,
     exchange_failure = Relaxed, rmw_ordering = AcqRel\<rparr>"

text \<open>The same with exchanges that also acquire when they succeed.\<close>

definition acquiring_orderings :: orderings where
  "acquiring_orderings = source_orderings\<lparr>exchange_success := AcqRel\<rparr>"

definition exchange_ordering :: "orderings \<Rightarrow> choice \<Rightarrow> u64 \<Rightarrow> u64 \<Rightarrow> memory_ordering" where
  "exchange_ordering D ch w expected =
     (if ch \<noteq> Spurious \<and> w = expected then exchange_success D else exchange_failure D)"

text \<open>
  The ordering of the access to the word that a program counter is about to make, if it makes one.
\<close>

definition exchange_of :: "'a outcome \<Rightarrow> orderings \<Rightarrow> choice \<Rightarrow> u64 \<Rightarrow> u64 \<Rightarrow> memory_ordering option" where
  "exchange_of new D ch w expected =
     (case new of Value _ \<Rightarrow> Some (exchange_ordering D ch w expected) | _ \<Rightarrow> None)"

fun header_access :: "build \<Rightarrow> orderings \<Rightarrow> choice \<Rightarrow> pc \<Rightarrow> u64 \<Rightarrow> memory_ordering option" where
  "header_access cfg D ch (LockReadLoad i t) w = Some (load_ordering D)"
| "header_access cfg D ch (LockReadCurrent i current t) w =
     (if id_from_bits current \<noteq> i \<or> is_write_locked current then None
      else exchange_of (increment_readers cfg current) D ch w current)"
| "header_access cfg D ch (LockReadMatched i current t) w =
     exchange_of (increment_readers cfg current) D ch w current"
| "header_access cfg D ch (Transition expected new t k) w = Some (exchange_ordering D ch w expected)"
| "header_access cfg D ch (ParkClosure (BlockRead i t)) w = Some (load_ordering D)"
| "header_access cfg D ch (ParkClosure (BlockTransition expected new t k)) w =
     Some (exchange_ordering D Go w expected)"
| "header_access cfg D ch (ParkMark b expected) w =
     exchange_of (mark_thread_blocking cfg expected) D Go w expected"
| "header_access cfg D ch (UnlockReadLoad i) w = Some (load_ordering D)"
| "header_access cfg D ch (UnlockReadCurrent i current) w =
     exchange_of (unlock_read_new cfg i current) D ch w current"
| "header_access cfg D ch (UnlockWriteSwap i) w = Some (rmw_ordering D)"
| "header_access cfg D ch OccupyFetchOr w = Some (rmw_ordering D)"
| "header_access cfg D ch (RemoveLockedSwap i next_id) w = Some (rmw_ordering D)"
| "header_access cfg D ch p w = None"

section \<open>Runs with their happens-before order\<close>

text \<open>
  The accesses to the element are numbered in the order of the run; \<open>written\<close> holds the numbers of
  those that write it. \<open>knows t\<close> are the accesses that happen before the next step of \<open>t\<close>, \<open>released\<close>
  those that happen before an access that acquires the header's word, \<open>queued\<close> those that happen
  before the slot is taken out of the queue of reusable slots.
\<close>

record ('e, 'q) traced =
  slot_of :: "('e, 'q) shared"
  events :: nat
  written :: "nat set"
  knows :: "nat \<Rightarrow> nat set"
  released :: "nat set"
  queued :: "nat set"

definition traced_init :: "'q parker \<Rightarrow> ('e, 'q) traced" where
  "traced_init P = \<lparr>slot_of = shared_init P, events = 0, written = {}, knows = (\<lambda>_. {}),
     released = {}, queued = {}\<rparr>"

definition learn :: "nat \<Rightarrow> nat set \<Rightarrow> ('e, 'q) traced \<Rightarrow> ('e, 'q) traced" where
  "learn t K c = c\<lparr>knows := (knows c)(t := knows c t \<union> K)\<rparr>"

text \<open>
  An access to the word. Every write to it is a read-modify-write, so each extends the release
  sequences of all earlier ones and nothing that was released is lost.
\<close>

definition synchronise :: "nat \<Rightarrow> memory_ordering option \<Rightarrow> ('e, 'q) traced \<Rightarrow> ('e, 'q) traced" where
  "synchronise t a c =
     (case a of
        None \<Rightarrow> c
      | Some o1 \<Rightarrow>
          let c' = (if acquires o1 then learn t (released c) c else c) in
          if releases o1 then c'\<lparr>released := released c' \<union> knows c' t\<rparr> else c')"

definition access_element :: "nat \<Rightarrow> bool \<Rightarrow> ('e, 'q) traced \<Rightarrow> ('e, 'q) traced" where
  "access_element t is_write c =
     learn t {events c}
       (c\<lparr>events := Suc (events c), written := written c \<union> (if is_write then {events c} else {})\<rparr>)"

abbreviation on_header :: "('e, 'q) traced \<Rightarrow> 'q sys \<Rightarrow> ('e, 'q) traced" where
  "on_header c h \<equiv> c\<lparr>slot_of := (slot_of c)\<lparr>header_of := h\<rparr>\<rparr>"

abbreviation set_job :: "nat \<Rightarrow> 'e job \<Rightarrow> ('e, 'q) shared \<Rightarrow> ('e, 'q) shared" where
  "set_job t j s \<equiv> s\<lparr>jobs := (jobs s)(t := j)\<rparr>"

text \<open>What can happen next, and the run after it; \<open>None\<close> when it cannot happen.\<close>

datatype 'e happening =
    CallHeader nat header_op
  | RunHeader nat choice
  | ReturnHeader nat
  | Meet nat nat
  | Obtain nat 'e
  | FillSlot nat
  | OccupySlot nat
  | TakeElement nat
  | Recycle nat
  | ReadGuarded nat
  | AssignGuarded nat u32 'e
  | StartRemoveLocked nat u32
  | TakeElementLocked nat
  | UnlockRemoved nat

fun happen ::
  "build \<Rightarrow> 'q parker \<Rightarrow> nat \<Rightarrow> orderings \<Rightarrow> 'e happening \<Rightarrow> ('e, 'q) traced \<Rightarrow> ('e, 'q) traced option"
where
  "happen cfg P N D (CallHeader t c) r =
     (if t < N \<and> free (slot_of r) t \<and> direct c
      then map_option (on_header r) (call_event cfg t c (header_of (slot_of r))) else None)"
| "happen cfg P N D (RunHeader t ch) r =
     (case pcs (header_of (slot_of r)) t of
        None \<Rightarrow> None
      | Some p \<Rightarrow>
          map_option
            (\<lambda>h. synchronise t (header_access cfg D ch p (word (header_of (slot_of r)))) (on_header r h))
            (exec_event cfg P N (Run t ch) (header_of (slot_of r))))"
| "happen cfg P N D (ReturnHeader t) r =
     (case pcs (header_of (slot_of r)) t of
        Some (Finished res) \<Rightarrow>
          map_option (\<lambda>h. r\<lparr>slot_of := set_job t (after_return res) ((slot_of r)\<lparr>header_of := h\<rparr>)\<rparr>)
            (exec_event cfg P N (Return t) (header_of (slot_of r)))
      | Some (Failed f) \<Rightarrow>
          map_option (on_header r) (exec_event cfg P N (Return t) (header_of (slot_of r)))
      | _ \<Rightarrow> None)"
| "happen cfg P N D (Meet t u) r =
     (if t < N \<and> u < N \<and> free (slot_of r) t \<and> free (slot_of r) u
      then Some (learn t (knows r u) r) else None)"
| "happen cfg P N D (Obtain t e) r =
     (if t < N \<and> free (slot_of r) t \<and> available (slot_of r)
      then Some (learn t (queued r)
             (r\<lparr>slot_of := set_job t (Fill e) ((slot_of r)\<lparr>available := False\<rparr>)\<rparr>)) else None)"
| "happen cfg P N D (FillSlot t) r =
     (case jobs (slot_of r) t of
        Fill e \<Rightarrow> Some (access_element t True
          (r\<lparr>slot_of := set_job t Occupy ((slot_of r)\<lparr>cell := Some e\<rparr>)\<rparr>))
      | _ \<Rightarrow> None)"
| "happen cfg P N D (OccupySlot t) r =
     (if jobs (slot_of r) t = Occupy
      then map_option (\<lambda>h. r\<lparr>slot_of := set_job t Idle ((slot_of r)\<lparr>header_of := h\<rparr>)\<rparr>)
             (call_event cfg t OpOccupy (header_of (slot_of r)))
      else None)"
| "happen cfg P N D (TakeElement t) r =
     (case jobs (slot_of r) t of
        Take may_reuse \<Rightarrow> Some (access_element t False
          (r\<lparr>slot_of := set_job t (if may_reuse then Push else Idle) ((slot_of r)\<lparr>cell := None\<rparr>)\<rparr>))
      | _ \<Rightarrow> None)"
| "happen cfg P N D (Recycle t) r =
     (if jobs (slot_of r) t = Push
      then Some (r\<lparr>slot_of := set_job t Idle ((slot_of r)\<lparr>available := True\<rparr>),
                   queued := queued r \<union> knows r t\<rparr>)
      else None)"
| "happen cfg P N D (ReadGuarded t) r =
     (if t < N \<and> free (slot_of r) t \<and>
         (reads (header_of (slot_of r)) t \<noteq> {#} \<or> writes (header_of (slot_of r)) t \<noteq> {#})
      then Some (access_element t False r) else None)"
| "happen cfg P N D (AssignGuarded t i e) r =
     (if t < N \<and> free (slot_of r) t \<and> i \<in># writes (header_of (slot_of r)) t
      then Some (access_element t True (r\<lparr>slot_of := (slot_of r)\<lparr>cell := Some e\<rparr>\<rparr>)) else None)"
| "happen cfg P N D (StartRemoveLocked t i) r =
     (if t < N \<and> free (slot_of r) t \<and> i \<in># writes (header_of (slot_of r)) t
      then Some (r\<lparr>slot_of := set_job t (TakeLocked i) (slot_of r)\<rparr>) else None)"
| "happen cfg P N D (TakeElementLocked t) r =
     (case jobs (slot_of r) t of
        TakeLocked i \<Rightarrow> Some (access_element t False
          (r\<lparr>slot_of := set_job t (TakenLocked i) ((slot_of r)\<lparr>cell := None\<rparr>)\<rparr>))
      | _ \<Rightarrow> None)"
| "happen cfg P N D (UnlockRemoved t) r =
     (case jobs (slot_of r) t of
        TakenLocked i \<Rightarrow>
          map_option (\<lambda>h. r\<lparr>slot_of := set_job t Idle ((slot_of r)\<lparr>header_of := h\<rparr>)\<rparr>)
            (call_event cfg t (OpRemoveLocked i) (header_of (slot_of r)))
      | _ \<Rightarrow> None)"

inductive traced_reachable ::
  "build \<Rightarrow> 'q parker \<Rightarrow> nat \<Rightarrow> orderings \<Rightarrow> ('e, 'q) traced \<Rightarrow> bool"
  for cfg :: build and P :: "'q parker" and N :: nat and D :: orderings where
  start: "traced_reachable cfg P N D (traced_init P)"
| step: "traced_reachable cfg P N D r \<Longrightarrow> happen cfg P N D x r = Some r' \<Longrightarrow>
    traced_reachable cfg P N D r'"

fun happen_all ::
  "build \<Rightarrow> 'q parker \<Rightarrow> nat \<Rightarrow> orderings \<Rightarrow> 'e happening list \<Rightarrow> ('e, 'q) traced \<Rightarrow>
    ('e, 'q) traced option"
where
  "happen_all cfg P N D [] r = Some r"
| "happen_all cfg P N D (x # xs) r =
     (case happen cfg P N D x r of None \<Rightarrow> None | Some r' \<Rightarrow> happen_all cfg P N D xs r')"

lemma happen_all_reachable:
  "happen_all cfg P N D xs r = Some r' \<Longrightarrow> traced_reachable cfg P N D r \<Longrightarrow>
    traced_reachable cfg P N D r'"
  by (induction xs arbitrary: r) (auto split: option.splits intro: traced_reachable.step)

text \<open>Forgetting the order gives a run of the shared slot.\<close>

lemma synchronise_slot [simp]: "slot_of (synchronise t a r) = slot_of r"
  by (simp add: synchronise_def learn_def Let_def split: option.split)

lemma access_slot [simp]: "slot_of (access_element t w r) = slot_of r"
  by (simp add: access_element_def learn_def)

lemma learn_simps [simp]:
  "slot_of (learn t K r) = slot_of r" "events (learn t K r) = events r"
  "written (learn t K r) = written r" "queued (learn t K r) = queued r"
  "released (learn t K r) = released r"
  "knows (learn t K r) u = (if u = t then knows r t \<union> K else knows r u)"
  by (simp_all add: learn_def)

lemma access_simps [simp]:
  "events (access_element t w r) = Suc (events r)" "queued (access_element t w r) = queued r"
  "released (access_element t w r) = released r"
  "written (access_element t w r) = written r \<union> (if w then {events r} else {})"
  "knows (access_element t w r) u = (if u = t then insert (events r) (knows r t) else knows r u)"
  by (auto simp: access_element_def)

lemma synchronise_simps [simp]:
  "events (synchronise t a r) = events r" "written (synchronise t a r) = written r"
  "queued (synchronise t a r) = queued r"
  "knows (synchronise t None r) = knows r" "released (synchronise t None r) = released r"
  "knows (synchronise t (Some o1) r) u =
     (if u = t \<and> acquires o1 then knows r t \<union> released r else knows r u)"
  "released (synchronise t (Some o1) r) =
     (if releases o1 then released r \<union> knows r t else released r)"
  by (auto simp: synchronise_def Let_def split: option.split)

lemma synchronise_grows:
  "knows r u \<subseteq> knows (synchronise t a r) u" "released r \<subseteq> released (synchronise t a r)"
  "u \<noteq> t \<Longrightarrow> knows (synchronise t a r) u = knows r u"
  by (cases a; auto)+

lemma happen_shared:
  assumes "happen cfg P N D x r = Some r'"
  shows "slot_of r' = slot_of r \<or> shared_step cfg P N (slot_of r) (slot_of r')"
proof (cases x)
  case (CallHeader t c)
  with assms show ?thesis by (auto split: if_splits intro: shared_step.direct)
next
  case (RunHeader t ch)
  with assms show ?thesis
    by (auto simp del: exec_event.simps split: option.splits intro: shared_step.run)
next
  case (ReturnHeader t)
  with assms obtain p where p: "pcs (header_of (slot_of r)) t = Some p"
    by (auto split: option.splits)
  with assms ReturnHeader show ?thesis
    by (cases p) (auto split: if_splits intro!: disjI2 shared_step.return shared_step.unwind)
next
  case (Obtain t e)
  with assms show ?thesis by (auto split: if_splits intro: shared_step.insert)
next
  case (FillSlot t)
  with assms show ?thesis by (auto split: job.splits intro: shared_step.fill)
next
  case (OccupySlot t)
  with assms show ?thesis
    by (auto split: if_splits intro: shared_step.occupy)
next
  case (TakeElement t)
  with assms show ?thesis by (auto split: job.splits intro: shared_step.take)
next
  case (Recycle t)
  with assms show ?thesis by (auto split: if_splits intro: shared_step.push)
next
  case (AssignGuarded t i e)
  with assms show ?thesis by (auto split: if_splits intro: shared_step.assign)
next
  case (StartRemoveLocked t i)
  with assms show ?thesis by (auto split: if_splits intro: shared_step.remove_locked)
next
  case (TakeElementLocked t)
  with assms show ?thesis by (auto split: job.splits intro: shared_step.take_locked)
next
  case (UnlockRemoved t)
  with assms show ?thesis by (auto split: job.splits intro: shared_step.unlock_removed)
qed (use assms in \<open>auto split: if_splits\<close>)

end
