(* ===== verification/RwHappensBefore.thy ===== *)
theory RwHappensBefore
  imports RwOrdering
begin

text \<open>
  Which orderings make the accesses to an element ordered: the invariant of the runs of
  \<open>RwOrdering\<close> when the successful exchanges of the header acquire, and the race that is left
  with the orderings the source has.
\<close>

section \<open>What a step synchronises\<close>

text \<open>
  A program counter that owns the element outright: as a writer, or as the one who vacated the
  header or is about to occupy it. A word is open while readers may come in.
\<close>

definition owns_pc :: "pc \<Rightarrow> bool" where
  "owns_pc p \<longleftrightarrow> pc_writes p \<noteq> {#} \<or> pc_tokens p \<noteq> 0 \<or> full_pc p \<noteq> 0"

definition open_word :: "u64 \<Rightarrow> bool" where
  "open_word w \<longleftrightarrow> is_occupied w \<and> \<not> is_write_locked w"

lemma open_word_pack [simp]:
  "r < 2147483648 \<Longrightarrow> open_word (pack n r i) \<longleftrightarrow> (n \<or> 0 < r) \<and> r \<noteq> 2147483647"
  by (auto simp: open_word_def)

lemma owns_transition_result [simp]:
  "owns_pc (Finished (transition_result k (Ok True)))"
  "\<not> owns_pc (Finished (transition_result k (Ok False)))"
  "\<not> owns_pc (Finished (transition_result k (Err e)))"
  by (cases k; simp add: owns_pc_def)+

lemma owns_Transitioned [simp]:
  "owns_pc (ParkCancel (BlockTransition e n t k) (Transitioned b)) =
     owns_pc (Finished (transition_result k (Ok b)))"
  by (cases k; cases b; simp add: owns_pc_def)

lemma owns_read [simp]:
  "\<not> owns_pc (Finished (ResRead i r))" "\<not> owns_pc (ParkCancel (BlockRead i t) x)"
  "\<not> owns_pc (LockReadMatched i c t)"
  by (simp_all add: owns_pc_def)

lemma tokens_ResReuse [simp]:
  "pc_tokens (Unpark (ResReuse b)) = of_bool b" "pc_tokens (Finished (ResReuse b)) = of_bool b"
  by (cases b; simp)+

inductive syncs :: "orderings \<Rightarrow> pc \<Rightarrow> u64 \<Rightarrow> memory_ordering option \<Rightarrow> pc \<Rightarrow> u64 \<Rightarrow> bool"
  for D :: orderings where
  idle: "open_word w' = open_word w \<Longrightarrow> (owns_pc p' \<longrightarrow> owns_pc p) \<Longrightarrow>
    (pc_reads p' \<noteq> {#} \<longrightarrow> pc_reads p \<noteq> {#}) \<Longrightarrow> (pc_reads p \<noteq> {#} \<longrightarrow> pc_reads p' \<noteq> {#}) \<Longrightarrow>
    syncs D p w a p' w'"
| join_readers: "open_word w \<Longrightarrow> open_word w' \<Longrightarrow> \<not> owns_pc p' \<Longrightarrow> pc_reads p = {#} \<Longrightarrow>
    syncs D p w (Some (exchange_success D)) p' w'"
| leave_readers: "open_word w \<Longrightarrow> open_word w' \<Longrightarrow> \<not> owns_pc p' \<Longrightarrow> pc_reads p' = {#} \<Longrightarrow>
    syncs D p w (Some (exchange_success D)) p' w'"
| take_over: "w = pack True 0 i \<Longrightarrow> \<not> open_word w' \<Longrightarrow> pc_reads p' = {#} \<Longrightarrow>
    syncs D p w (Some (exchange_success D)) p' w'"
| give_up: "owns_pc p \<Longrightarrow> pc_reads p' = {#} \<Longrightarrow> syncs D p w (Some (rmw_ordering D)) p' w'"

lemma syncs_same:
  "w' = w \<Longrightarrow> \<not> owns_pc p' \<Longrightarrow> pc_reads p' = pc_reads p \<Longrightarrow> syncs D p w a p' w'"
  by (rule syncs.idle) simp_all

lemma syncs_cas:
  assumes "trans_ok w e new k" and "exchange_ordering D ch w e = o1"
    and "w = e \<and> ch \<noteq> Spurious \<and> w' = new \<or> w' = w \<and> \<not> owns_pc p'"
    and "pc_reads p = {#}" and "pc_reads p' = {#}"
  shows "syncs D p w (Some o1) p' w'"
  using assms(3)
proof
  assume *: "w = e \<and> ch \<noteq> Spurious \<and> w' = new"
  then obtain i where "w = pack True 0 i" "\<not> open_word w'"
    using assms(1) by (cases k) (auto simp: bits_pack)
  moreover have "o1 = exchange_success D" using assms(2) * by (simp add: exchange_ordering_def)
  ultimately show ?thesis using assms(5) by (auto intro: syncs.take_over)
qed (use assms in \<open>auto intro: syncs_same\<close>)

lemma hstep_syncs:
  assumes inv: "inv P N s" and t: "t < N" and p: "pcs s t = Some p"
    and step: "hstep cfg P t ch p (word s, queue s) = Some (p', w', q')"
  shows "syncs D p (word s) (header_access cfg D ch p (word s)) p' w'"
proof -
  note ok = inv_pc_ok [OF inv t p]
  have cas: "syncs D p0 (word s) (exchange_of (increment_readers cfg c) D ch (word s) c) p' w'"
    if "read_cas cfg ch i c to (word s) = (p', w')" "id_from_bits c = i"
      "\<not> is_write_locked c" "issued (word s) i" "pc_reads p0 = {#}" "\<not> owns_pc p0" for i c to p0
    using that(1-3) inv_issued(1) [OF inv that(4)]
  proof (cases rule: read_cas_cases)
    case (3 n r)
    have "exchange_of (increment_readers cfg c) D ch (word s) c = Some (exchange_success D)"
      using that(1) 3
      by (cases ch) (auto simp: read_cas_def exchange_of_def exchange_ordering_def compare_exchange_def
          split: outcome.splits if_splits)
    moreover have "n \<or> 0 < r" using inv_issued(2) [OF inv that(4)] 3 by simp
    ultimately show ?thesis
      using 3 that(5) by (auto simp: owns_pc_def intro!: syncs.join_readers)
  qed (use that(5,6) in \<open>auto simp: owns_pc_def intro: syncs_same\<close>)
  show ?thesis
  proof (cases p)
    case (LockReadCurrent i c to)
    show ?thesis
    proof (cases "id_from_bits c \<noteq> i \<or> is_write_locked c")
      case True
      with LockReadCurrent step show ?thesis
        by (intro syncs_same) (auto simp: owns_pc_def split: if_splits)
    next
      case False
      with LockReadCurrent step ok show ?thesis
        by (cases "read_cas cfg ch i c to (word s)") (simp add: cas owns_pc_def)
    qed
  next
    case (LockReadMatched i c to)
    with step ok show ?thesis
      by (cases "read_cas cfg ch i c to (word s)") (simp add: cas owns_pc_def)
  next
    case (Transition e new to k)
    with ok have ok: "trans_ok (word s) e new k" by simp
    show ?thesis
      unfolding Transition header_access.simps
    proof (rule syncs_cas [OF ok refl])
      show "word s = e \<and> ch \<noteq> Spurious \<and> w' = new \<or> w' = word s \<and> \<not> owns_pc p'"
      proof (cases "word s = e \<and> ch \<noteq> Spurious")
        case True
        then have "cas_weak ch (word s) e new = (Ok e, new)"
          by (cases ch) (simp_all add: compare_exchange_def)
        with True step Transition show ?thesis by simp
      next
        case False
        then have "cas_weak ch (word s) e new = (Err (word s), word s)"
          by (cases ch) (auto simp: compare_exchange_def)
        with step Transition show ?thesis by (auto simp: owns_pc_def split: if_splits)
      qed
      show "pc_reads p' = {#}"
        using step Transition
        by (cases "cas_weak ch (word s) e new") (auto split: result.splits if_splits)
    qed simp
  next
    case (ParkClosure b)
    show ?thesis
    proof (cases b)
      case (BlockTransition e new to k)
      with ok ParkClosure have ok: "trans_ok (word s) e new k" by simp
      show ?thesis
        unfolding ParkClosure BlockTransition header_access.simps
        by (rule syncs_cas [OF ok refl])
          (use step ParkClosure BlockTransition in
            \<open>auto simp: compare_exchange_def owns_pc_def full_Transitioned split: if_splits\<close>)
    next
      case (BlockRead i to)
      with step ParkClosure show ?thesis
        by (intro syncs_same) (auto simp: owns_pc_def split: if_splits)
    qed
  next
    case (ParkMark b e)
    obtain n r i where e: "e = pack n r i" and r: "r < 2147483648" by (rule word_cases)
    have pos: "0 < r" using ok ParkMark e r by (auto simp: bits_simps)
    show ?thesis
      by (rule syncs.idle) (use step ParkMark e r pos in \<open>auto simp: mark_thread_blocking_def owns_pc_def
          compare_exchange_def debug_assert_def bits_simps split: if_splits outcome.splits\<close>)
  next
    case (UnlockReadCurrent i c)
    then have "i \<in># rds s t" using p by (simp add: rds_def)
    with inv t obtain n r where w: "word s = pack n (Suc r) i" "Suc r < 2147483647"
      by (rule inv_read_held)
    show ?thesis
    proof (cases "word s = c \<and> ch \<noteq> Spurious")
      case True
      have new: "unlock_read_new cfg i c = Value (\<not> n \<and> r = 0, pack (n \<or> r = 0) r i)"
        using True w unlock_read_new_pack [of r cfg i n] by auto
      then have "header_access cfg D ch p (word s) = Some (exchange_success D)"
        using True UnlockReadCurrent by (simp add: exchange_of_def exchange_ordering_def)
      moreover have "open_word (word s)" using w by simp
      ultimately show ?thesis
        using new True step UnlockReadCurrent w
        by (cases ch) (auto simp: compare_exchange_def owns_pc_def intro!: syncs.leave_readers split: if_splits)
    next
      case False
      then have "cas_weak ch (word s) c x = (Err (word s), word s)" for x
        by (cases ch) (auto simp: compare_exchange_def)
      moreover obtain m q j where c: "c = pack m q j" and q: "q < 2147483648" by (rule word_cases)
      then have "c = pack m (Suc (q - 1)) i" "q - 1 < 2147483646"
        using ok UnlockReadCurrent by (auto simp: bits_simps)
      then have "unlock_read_new cfg i c = Value (\<not> m \<and> q - 1 = 0, pack (m \<or> q - 1 = 0) (q - 1) i)"
        using unlock_read_new_pack by metis
      ultimately show ?thesis
        using step UnlockReadCurrent by (auto simp: owns_pc_def intro!: syncs_same)
    qed
  next
    case (UnlockWriteSwap i)
    have "i \<in># wrs s t" using p UnlockWriteSwap by (simp add: wrs_def)
    with inv t obtain n where "word s = pack n 2147483647 i" "i \<noteq> RESERVED_ID" by (rule inv_write_held)
    with step UnlockWriteSwap show ?thesis
      by (auto simp: bits_pack swap_checks_eval owns_pc_def intro!: syncs.give_up)
  next
    case (RemoveLockedSwap i x)
    have "i \<in># wrs s t" using p RemoveLockedSwap by (simp add: wrs_def)
    with inv t obtain n where "word s = pack n 2147483647 i" "i \<noteq> RESERVED_ID" by (rule inv_write_held)
    with step RemoveLockedSwap ok show ?thesis
      by (auto simp: bits_pack swap_checks_eval owns_pc_def intro!: syncs.give_up)
  next
    case OccupyFetchOr
    then have "toks s t \<noteq> 0 \<or> token s" using p by (simp add: toks_def)
    with inv t obtain i where "word s = pack False 0 i" "i \<noteq> RESERVED_ID" by (rule inv_token_held)
    with step OccupyFetchOr show ?thesis
      by (auto simp: debug_assert_holds bits_simps owns_pc_def intro!: syncs.give_up)
  next
    case (ParkCancel b r)
    with step ok show ?thesis
      by (cases "(b, r)" rule: after_block.cases)
        (auto intro!: syncs.idle)
  next
    case (ParkAsleep b)
    with step show ?thesis
      by (cases b) (auto simp: owns_pc_def intro!: syncs_same split: choice.splits result.splits option.splits)
  next
    case (Unpark r)
    with step ok show ?thesis by (auto simp: owns_pc_def intro!: syncs.idle)
  qed (use step in \<open>auto simp: owns_pc_def split: result.splits choice.splits option.splits intro!: syncs.idle\<close>)
qed

section \<open>Who may access the element next\<close>

text \<open>
  The exclusive rights a thread has on the slot: as a writer, as the one who may occupy it, or as
  the one who took its last element out. There is at most one, and none while readers may come in.
\<close>

definition rights :: "('e, 'q) shared \<Rightarrow> nat \<Rightarrow> nat" where
  "rights s t = size (wrs (header_of s) t) + toks (header_of s) t + job_tokens (jobs s t) +
     of_bool (spent s t)"

lemma spent_carry: "spent s t \<Longrightarrow> carry s t \<noteq> 0"
  by (auto simp: spent_def carry_def)

lemma rights_alone:
  assumes sh: "shared_inv P N s"
  shows "(\<Sum>t<N. rights s t) + of_bool (available s) \<le> of_bool (\<not> open_word (word (header_of s)))"
proof -
  let ?h = "header_of s" let ?w = "word (header_of s)"
  obtain n r i where w: "?w = pack n r i" and r: "r < 2147483648" by (rule word_cases)
  have counts: "counts_ok (header_view ?w) (total_reads N ?h) (total_writes N ?h) (total_tokens N ?h)"
    using shared_inv_header [OF sh] by (simp add: inv_def)
  have tokens: "of_bool (token ?h) = of_bool (available s) + (\<Sum>t<N. job_tokens (jobs s t))"
    using sh by (simp add: shared_inv_def)
  have total: "(\<Sum>t<N. rights s t) + of_bool (available s) =
      total_writes N ?h + total_tokens N ?h + (\<Sum>t<N. of_bool (spent s t))"
    by (simp add: rights_def sum.distrib total_writes_def total_tokens_def tokens)
  have "(\<Sum>t<N. of_bool (spent s t) :: nat) \<le> (\<Sum>t<N. carry s t)"
    by (intro sum_mono) (use spent_carry [of s] in \<open>auto simp: of_bool_def Suc_le_eq\<close>)
  then have few: "(\<Sum>t<N. of_bool (spent s t) :: nat) \<le> of_bool (\<not> is_occupied ?w)"
    using shared_inv_cell [OF sh] by (auto simp: cell_ok_def split: if_splits)
  have last: "(\<Sum>t<N. of_bool (spent s t) :: nat) = 0" if "i \<noteq> RESERVED_ID"
    using sh that w r by (auto simp: shared_inv_def)
  show ?thesis
    using total few last counts w r by (auto simp: header_view_pack split: if_splits)
qed

lemma rights_unique:
  assumes sh: "shared_inv P N s" and t: "t < N" and pos: "0 < rights s t"
  shows "\<not> available s" and "\<not> open_word (word (header_of s))"
    and "u < N \<Longrightarrow> u \<noteq> t \<Longrightarrow> rights s u = 0"
proof -
  have "(\<Sum>u<N. rights s u) = rights s t + (\<Sum>u\<in>{..<N} - {t}. rights s u)"
    using t by (subst sum.remove [of _ t]) auto
  with rights_alone [OF sh] pos
  have *: "\<not> available s" "\<not> open_word (word (header_of s))" and "(\<Sum>u\<in>{..<N} - {t}. rights s u) = 0"
    by (auto simp del: sum_eq_0_iff simp: of_bool_def split: if_splits)
  then show "\<not> available s" "\<not> open_word (word (header_of s))"
    "u < N \<Longrightarrow> u \<noteq> t \<Longrightarrow> rights s u = 0" by simp_all
qed

lemma readers_open:
  assumes "shared_inv P N s" and "t < N" and "rds (header_of s) t \<noteq> {#}"
  shows "open_word (word (header_of s))"
proof -
  obtain i where "i \<in># rds (header_of s) t" using assms(3) by blast
  with shared_inv_header [OF assms(1)] assms(2) obtain n r where
    "word (header_of s) = pack n (Suc r) i" "Suc r < 2147483647" by (rule inv_read_held)
  then show ?thesis by simp
qed

lemma rights_running:
  assumes "shared_inv P N s" and "pcs (header_of s) t = Some p"
  shows "0 < rights s t \<longleftrightarrow> writes (header_of s) t \<noteq> {#} \<or> owns_pc p"
proof -
  have "jobs s t = Idle" using assms by (auto simp: shared_inv_def)
  then show ?thesis
    using assms(2) by (auto simp: rights_def wrs_def toks_def spent_def owns_pc_def nonempty_has_size)
qed

section \<open>Acquiring exchanges order all accesses\<close>

definition ordered_inv :: "nat \<Rightarrow> ('e, 'q) traced \<Rightarrow> bool" where
  "ordered_inv N r \<longleftrightarrow>
     (let s = slot_of r; h = header_of s; everything = {..<events r} in
      written r \<subseteq> everything \<and>
      (\<forall>t<N. 0 < rights s t \<longrightarrow> everything \<subseteq> knows r t) \<and>
      (\<forall>t<N. rds h t \<noteq> {#} \<longrightarrow> written r \<subseteq> knows r t) \<and>
      (available s \<longrightarrow> everything \<subseteq> queued r) \<and>
      (open_word (word h) \<longrightarrow> written r \<subseteq> released r \<and>
         (\<forall>n \<in> everything. n \<in> released r \<or> (\<exists>t<N. rds h t \<noteq> {#} \<and> n \<in> knows r t))))"

lemma ordered_move:
  assumes ord: "ordered_inv N r" and t: "t < N"
    and same: "events r' = events r" "written r' = written r"
    and frame: "\<And>u. u \<noteq> t \<Longrightarrow> rights (slot_of r') u = rights (slot_of r) u \<and>
      rds (header_of (slot_of r')) u = rds (header_of (slot_of r)) u \<and> knows r' u = knows r u"
    and grow: "knows r t \<subseteq> knows r' t" "released r \<subseteq> released r'" "queued r \<subseteq> queued r'"
    and own: "0 < rights (slot_of r') t \<Longrightarrow> 0 < rights (slot_of r) t \<or> {..<events r} \<subseteq> knows r' t"
    and read: "rds (header_of (slot_of r')) t \<noteq> {#} \<Longrightarrow>
      rds (header_of (slot_of r)) t \<noteq> {#} \<or> written r \<subseteq> knows r' t"
    and avail: "available (slot_of r') \<Longrightarrow> available (slot_of r) \<or> {..<events r} \<subseteq> queued r'"
    and opened: "open_word (word (header_of (slot_of r'))) \<Longrightarrow>
      open_word (word (header_of (slot_of r))) \<and>
        (rds (header_of (slot_of r)) t \<noteq> {#} \<longrightarrow>
           rds (header_of (slot_of r')) t \<noteq> {#} \<or> knows r t \<subseteq> released r') \<or>
      {..<events r} \<subseteq> released r'"
  shows "ordered_inv N r'"
  unfolding ordered_inv_def Let_def same
proof (intro conjI allI impI ballI)
  let ?h = "header_of (slot_of r)" let ?h' = "header_of (slot_of r')"
  show few: "written r \<subseteq> {..<events r}" using ord by (simp add: ordered_inv_def Let_def)
  show "{..<events r} \<subseteq> knows r' u" if "u < N" "0 < rights (slot_of r') u" for u
    using that own grow(1) frame [of u] ord
    by (cases "u = t") (auto simp: ordered_inv_def Let_def dest!: spec [where x = u])
  show "written r \<subseteq> knows r' u" if "u < N" "rds ?h' u \<noteq> {#}" for u
    using that read grow(1) frame [of u] ord
    by (cases "u = t") (auto simp: ordered_inv_def Let_def dest!: spec [where x = u])
  show "{..<events r} \<subseteq> queued r'" if "available (slot_of r')"
    using avail [OF that] grow(3) ord by (auto simp: ordered_inv_def Let_def)
  assume o': "open_word (word ?h')"
  show "written r \<subseteq> released r'"
    using opened [OF o'] few grow(2) ord by (auto simp: ordered_inv_def Let_def)
  fix n assume n: "n \<in> {..<events r}"
  show "n \<in> released r' \<or> (\<exists>u<N. rds ?h' u \<noteq> {#} \<and> n \<in> knows r' u)"
    using opened [OF o']
  proof
    assume *: "open_word (word ?h) \<and> (rds ?h t \<noteq> {#} \<longrightarrow>
      rds ?h' t \<noteq> {#} \<or> knows r t \<subseteq> released r')"
    then have "n \<in> released r \<or> (\<exists>u<N. rds ?h u \<noteq> {#} \<and> n \<in> knows r u)"
      using ord n by (simp add: ordered_inv_def Let_def)
    then show ?thesis
    proof (elim disjE exE conjE)
      fix u assume u: "u < N" "rds ?h u \<noteq> {#}" "n \<in> knows r u"
      then show ?thesis using * grow(1) frame [of u] by (cases "u = t") auto
    qed (use grow(2) in auto)
  qed (use n in auto)
qed

lemma ordered_access:
  assumes ord: "ordered_inv N r" and sh: "shared_inv P N (slot_of r)" and t: "t < N"
    and can: "0 < rights (slot_of r) t \<or> rds (header_of (slot_of r)) t \<noteq> {#} \<and> \<not> is_write"
  shows "ordered_inv N (access_element t is_write r)"
proof -
  have alone: "\<not> available (slot_of r)" "u < N \<Longrightarrow> u \<noteq> t \<Longrightarrow> rights (slot_of r) u = 0"
    "open_word (word (header_of (slot_of r))) \<Longrightarrow>
      rds (header_of (slot_of r)) t \<noteq> {#} \<and> \<not> is_write"
    "u < N \<Longrightarrow> rds (header_of (slot_of r)) u \<noteq> {#} \<Longrightarrow>
      \<not> is_write \<and> rds (header_of (slot_of r)) t \<noteq> {#}" for u
    using can rights_unique [OF sh t] readers_open [OF sh t] readers_open [OF sh, of u]
      rights_alone [OF sh] rights_unique(2) [OF sh, of u] by auto
  have none: "rights (slot_of r) u = 0" if "open_word (word (header_of (slot_of r)))" "u < N" for u
    using rights_unique(2) [OF sh that(2)] that(1) by auto
  let ?r = "access_element t is_write r"
  show ?thesis
    unfolding ordered_inv_def Let_def access_slot
  proof (intro conjI allI impI ballI)
    show "written ?r \<subseteq> {..<events ?r}" using ord by (auto simp: ordered_inv_def Let_def)
    show "{..<events ?r} \<subseteq> knows ?r u" if "u < N" "0 < rights (slot_of r) u" for u
      using that alone(2) [of u] ord by (auto simp: ordered_inv_def Let_def lessThan_Suc)
    show "written ?r \<subseteq> knows ?r u" if "u < N" "rds (header_of (slot_of r)) u \<noteq> {#}" for u
      using alone(4) [OF that] that ord by (auto simp: ordered_inv_def Let_def)
    show "{..<events ?r} \<subseteq> queued ?r" if "available (slot_of r)" using that alone(1) by simp
    assume o': "open_word (word (header_of (slot_of r)))"
    show "written ?r \<subseteq> released ?r" using alone(3) [OF o'] o' ord by (auto simp: ordered_inv_def Let_def)
    fix n assume "n \<in> {..<events ?r}"
    then consider "n \<in> {..<events r}" | "n = events r" by (auto simp: less_Suc_eq)
    then show "n \<in> released ?r \<or> (\<exists>u<N. rds (header_of (slot_of r)) u \<noteq> {#} \<and> n \<in> knows ?r u)"
    proof cases
      case 1
      then have "n \<in> released r \<or> (\<exists>u<N. rds (header_of (slot_of r)) u \<noteq> {#} \<and> n \<in> knows r u)"
        using ord o' by (simp add: ordered_inv_def Let_def)
      then show ?thesis by auto
    qed (use t alone(3) [OF o'] in auto)
  qed
qed

text \<open>A step that neither touches the word nor changes what a thread owns.\<close>

lemma ordered_quiet:
  assumes ord: "ordered_inv N r" and t: "t < N" and r': "r' = r\<lparr>slot_of := s'\<rparr>"
    and frame: "\<And>u. u \<noteq> t \<Longrightarrow> jobs s' u = jobs (slot_of r) u \<and>
      pcs (header_of s') u = pcs (header_of (slot_of r)) u \<and>
      reads (header_of s') u = reads (header_of (slot_of r)) u \<and>
      writes (header_of s') u = writes (header_of (slot_of r)) u"
    and own: "0 < rights s' t \<Longrightarrow> 0 < rights (slot_of r) t"
    and read: "rds (header_of s') t = rds (header_of (slot_of r)) t"
    and avail: "available s' \<Longrightarrow> available (slot_of r)"
    and word: "word (header_of s') = word (header_of (slot_of r))"
  shows "ordered_inv N r'"
proof -
  have same: "rights s' u = rights (slot_of r) u \<and> rds (header_of s') u = rds (header_of (slot_of r)) u"
    if "u \<noteq> t" for u
    using frame [OF that] by (simp add: rights_def wrs_def rds_def toks_def spent_def)
  show ?thesis
    using assms same by (intro ordered_move [OF ord t]) auto
qed

text \<open>A call only moves what the thread owns into its program counter.\<close>

lemma entry_owns:
  "pc_reads (entry cfg c) = (case c of OpUnlockRead i \<Rightarrow> {#i#} | _ \<Rightarrow> {#})"
  "pc_writes (entry cfg c) \<subseteq># (case c of OpUnlockWrite i \<Rightarrow> {#i#} | OpRemoveLocked i \<Rightarrow> {#i#} | _ \<Rightarrow> {#})"
  "pc_tokens (entry cfg c) = of_bool (c = OpOccupy)" "full_pc (entry cfg c) = of_bool (c = OpOccupy)"
  by (cases c; simp add: debug_assert_def checked_add_def)+

lemma call_event_owns:
  assumes "call_event cfg t c h = Some h'" and "pcs h t = None"
  shows "rds h' t = rds h t" and "wrs h' t \<subseteq># wrs h t" and "toks h' t = of_bool (c = OpOccupy)"
    and "u \<noteq> t \<Longrightarrow> pcs h' u = pcs h u \<and> reads h' u = reads h u \<and> writes h' u = writes h u"
proof -
  note c = assms(1) [unfolded call_event_def]
  note e = entry_owns [of cfg c]
  have "reads h' t + pc_reads (entry cfg c) = reads h t"
    using c e(1) by (cases c) (auto simp: call_def simp del: entry.simps split: if_splits)
  then show "rds h' t = rds h t"
    using assms by (simp add: rds_def call_event_frame(2))
  have "writes h' t + pc_writes (entry cfg c) \<subseteq># writes h t"
    using c e(2)
    by (cases c) (auto simp: call_def subset_eq_diff_conv simp del: entry.simps split: if_splits
        intro: subset_mset.add_left_mono [where c = "writes h t" and b = "{#_#}", simplified])
  then show "wrs h' t \<subseteq># wrs h t"
    using assms by (simp add: wrs_def call_event_frame(2))
  show "toks h' t = of_bool (c = OpOccupy)"
    using assms e(3) by (simp add: toks_def call_event_frame(2))
  show "u \<noteq> t \<Longrightarrow> pcs h' u = pcs h u \<and> reads h' u = reads h u \<and> writes h' u = writes h u"
    using c by (cases c) (auto simp: call_def simp del: entry.simps split: if_splits)
qed

lemma grant_owns:
  assumes "pcs h t = Some (Finished r)"
  defines "h' \<equiv> grant t r (h\<lparr>pcs := (pcs h)(t := None)\<rparr>)"
  shows "rds h' t = rds h t" and "wrs h' t = wrs h t" and "word h' = word h"
    and "u \<noteq> t \<Longrightarrow> pcs h' u = pcs h u \<and> reads h' u = reads h u \<and> writes h' u = writes h u"
  using assms by (cases "(t, r, h)" rule: grant.cases; auto simp: rds_def wrs_def)+

text \<open>A step inside the header, with exchanges that acquire and writes that release.\<close>

lemma ordered_run:
  assumes ord: "ordered_inv N r" and sh: "shared_inv P N (slot_of r)"
    and sh': "shared_inv P N ((slot_of r)\<lparr>header_of := h'\<rparr>)" and t: "t < N"
    and D: "acquires (exchange_success D)" "releases (exchange_success D)" "releases (rmw_ordering D)"
    and p: "pcs (header_of (slot_of r)) t = Some p"
    and step: "hstep cfg P t ch p (word (header_of (slot_of r)), queue (header_of (slot_of r))) =
      Some (p', w', q')"
    and h': "h' = (header_of (slot_of r))\<lparr>word := w', queue := q', pcs := (pcs (header_of (slot_of r)))(t \<mapsto> p')\<rparr>"
  shows "ordered_inv N (synchronise t (header_access cfg D ch p (word (header_of (slot_of r)))) (on_header r h'))"
    (is "ordered_inv N ?r")
proof -
  let ?h = "header_of (slot_of r)" let ?s' = "(slot_of r)\<lparr>header_of := h'\<rparr>"
  have p': "pcs (header_of ?s') t = Some p'" by (simp add: h')
  have frame: "rights ?s' u = rights (slot_of r) u \<and> rds h' u = rds ?h u" if "u \<noteq> t" for u
    using that by (simp add: h' rights_def wrs_def rds_def toks_def spent_def)
  have own: "0 < rights ?s' t \<longleftrightarrow> writes ?h t \<noteq> {#} \<or> owns_pc p'"
    using rights_running [OF sh' p'] by (simp add: h')
  have read: "rds h' t = reads ?h t + pc_reads p'" "rds ?h t = reads ?h t + pc_reads p"
    using p by (simp_all add: h' rds_def)
  have knows: "0 < rights (slot_of r) t \<Longrightarrow> {..<events r} \<subseteq> knows r t"
    using ord t by (simp add: ordered_inv_def Let_def)
  note running = rights_running [OF sh p]
  note move = ordered_move [OF ord t, of ?r]
  have rule: "ordered_inv N ?r"
    if "writes ?h t \<noteq> {#} \<or> owns_pc p' \<Longrightarrow>
        writes ?h t \<noteq> {#} \<or> owns_pc p \<or> {..<events r} \<subseteq> knows ?r t"
      and "pc_reads p' \<noteq> {#} \<Longrightarrow> pc_reads p \<noteq> {#} \<or> written r \<subseteq> knows ?r t"
      and "open_word w' \<Longrightarrow> open_word (word ?h) \<and>
          (pc_reads p \<noteq> {#} \<longrightarrow> pc_reads p' \<noteq> {#} \<or> knows r t \<subseteq> released ?r) \<or>
        {..<events r} \<subseteq> released ?r"
    using that frame own read running synchronise_grows [where r = "on_header r h'"]
    by (intro ordered_move [OF ord t]) (auto simp: h')
  from hstep_syncs [OF shared_inv_header [OF sh] t p step, of D] show ?thesis
  proof cases
    case idle
    then show ?thesis by (intro rule) auto
  next
    case join_readers
    then have "written r \<subseteq> released r" using ord by (simp add: ordered_inv_def Let_def)
    with join_readers D show ?thesis by (intro rule) auto
  next
    case leave_readers
    with D show ?thesis by (intro rule) auto
  next
    case (take_over i)
    have "rds ?h u = {#}" if "u < N" for u
      using shared_inv_header [OF sh] take_over that
      by (simp add: inv_def header_view_pack total_reads_def)
    then have "{..<events r} \<subseteq> released r"
      using ord take_over by (auto simp: ordered_inv_def Let_def)
    with take_over D show ?thesis by (intro rule) auto
  next
    case give_up
    with knows running D show ?thesis by (intro rule) auto
  qed
qed

lemma ordered_call:
  assumes ord: "ordered_inv N r" and sh: "shared_inv P N (slot_of r)" and t: "t < N"
    and idle: "pcs (header_of (slot_of r)) t = None"
    and call: "call_event cfg t c (header_of (slot_of r)) = Some h"
    and j: "job_tokens (jobs (slot_of r) t) = job_tokens j + of_bool (c = OpOccupy)" "j \<noteq> Take False"
  shows "ordered_inv N (r\<lparr>slot_of := set_job t j ((slot_of r)\<lparr>header_of := h\<rparr>)\<rparr>)"
proof (rule ordered_quiet [OF ord t refl])
  note own = call_event_owns [OF call idle]
  have "\<not> spent (set_job t j ((slot_of r)\<lparr>header_of := h\<rparr>)) t"
    using entry_owns(3,4) [of cfg c] j(2) call_event_frame(2) [OF call] by (auto simp: spent_def)
  then show "0 < rights (set_job t j ((slot_of r)\<lparr>header_of := h\<rparr>)) t \<Longrightarrow> 0 < rights (slot_of r) t"
    using own(3) size_mset_mono [OF own(2)] j(1) by (auto simp: rights_def)
qed (use call_event_owns [OF call idle] call_event_frame(1) [OF call] in auto)

lemma ordered_return:
  assumes ord: "ordered_inv N r" and sh: "shared_inv P N (slot_of r)" and t: "t < N"
    and res: "pcs (header_of (slot_of r)) t = Some (Finished res)"
  shows "ordered_inv N (r\<lparr>slot_of := set_job t (after_return res) ((slot_of r)\<lparr>header_of :=
    grant t res ((header_of (slot_of r))\<lparr>pcs := (pcs (header_of (slot_of r)))(t := None)\<rparr>)\<rparr>)\<rparr>)"
proof (rule ordered_quiet [OF ord t refl], goal_cases)
  case (2)
  have "jobs (slot_of r) t = Idle" using sh res by (auto simp: shared_inv_def)
  moreover have "frees res \<Longrightarrow> pc_tokens (Finished res) = 1"
    by (auto simp: frees_def)
  ultimately show ?case
    using 2 res
    by (auto simp: rights_def grant_owns(2) [OF res] toks_def spent_def grant_pcs after_return_owns(3,5)
        split: if_splits)
qed (use grant_owns [OF res] in auto)

text \<open>An access to the element together with the step of its job.\<close>

lemma ordered_use:
  assumes ord: "ordered_inv N r" and sh: "shared_inv P N (slot_of r)" and t: "t < N"
    and can: "0 < rights (slot_of r) t"
    and s': "header_of s' = header_of (slot_of r)" "available s' \<Longrightarrow> available (slot_of r)"
      "\<And>u. u \<noteq> t \<Longrightarrow> jobs s' u = jobs (slot_of r) u"
  shows "ordered_inv N (access_element t is_write (r\<lparr>slot_of := s'\<rparr>))"
proof -
  have *: "access_element t is_write (r\<lparr>slot_of := s'\<rparr>) = (access_element t is_write r)\<lparr>slot_of := s'\<rparr>"
    by (simp add: access_element_def learn_def)
  show ?thesis
    unfolding * by (rule ordered_quiet [OF ordered_access [OF ord sh t] t refl]) (use can s' in auto)
qed

context parking
begin

lemma happen_ordered:
  assumes step: "happen cfg P N D x r = Some r'" and sh: "shared_inv P N (slot_of r)"
    and ord: "ordered_inv N r"
    and D: "acquires (exchange_success D)" "releases (exchange_success D)" "releases (rmw_ordering D)"
  shows "ordered_inv N r'"
proof -
  have job: "t < N" "pcs (header_of (slot_of r)) t = None" if "jobs (slot_of r) t \<noteq> Idle" for t
    using sh that by (auto simp: shared_inv_def)
  have job_right: "0 < rights (slot_of r) t" if "job_tokens (jobs (slot_of r) t) \<noteq> 0 \<or> jobs (slot_of r) t = Take False" for t
    using that by (auto simp: rights_def spent_def)
  have guard: "0 < rights (slot_of r) t" if "writes (header_of (slot_of r)) t \<noteq> {#}" for t
    using that by (auto simp: rights_def wrs_def nonempty_has_size)
  then have holder: "0 < rights (slot_of r) t" if "i \<in># writes (header_of (slot_of r)) t" for t i
    using that by (metis empty_iff set_mset_empty)
  note sh' = shared_step_inv [OF _ sh]
  show ?thesis
  proof (cases x)
    case (CallHeader t c)
    with step obtain h where h: "t < N" "free (slot_of r) t" "direct c"
        "call_event cfg t c (header_of (slot_of r)) = Some h" "r' = on_header r h"
      by (auto split: if_splits)
    then have "c \<noteq> OpOccupy" "r' = r\<lparr>slot_of := set_job t Idle ((slot_of r)\<lparr>header_of := h\<rparr>)\<rparr>"
      by (auto, cases r, cases "slot_of r") (simp add: free_def fun_upd_idem)
    then show ?thesis
      using h ordered_call [OF ord sh h(1) _ h(4), of Idle] by (auto simp: free_def)
  next
    case (RunHeader t ch)
    with step obtain p h where h: "pcs (header_of (slot_of r)) t = Some p"
        "exec_event cfg P N (Run t ch) (header_of (slot_of r)) = Some h"
        "r' = synchronise t (header_access cfg D ch p (word (header_of (slot_of r)))) (on_header r h)"
      by (auto simp del: exec_event.simps split: option.splits)
    moreover from h obtain p' w' q' where "t < N"
        "hstep cfg P t ch p (word (header_of (slot_of r)), queue (header_of (slot_of r))) = Some (p', w', q')"
        "h = (header_of (slot_of r))\<lparr>word := w', queue := q', pcs := (pcs (header_of (slot_of r)))(t \<mapsto> p')\<rparr>"
      by (auto split: if_splits option.splits)
    ultimately show ?thesis
      using ordered_run [OF ord sh sh' [OF shared_step.run [OF h(2)]] _ D h(1)] by blast
  next
    case (ReturnHeader t)
    show ?thesis
    proof (cases "pcs (header_of (slot_of r)) t")
      case (Some p)
      with ReturnHeader step show ?thesis
      proof (cases p)
        case (Finished res)
        with Some ReturnHeader step ordered_return [OF ord sh, of t res] show ?thesis
          by (auto split: if_splits)
      next
        case (Failed f)
        with Some ReturnHeader step have *: "t < N" "r' = on_header r
            ((header_of (slot_of r))\<lparr>pcs := (pcs (header_of (slot_of r)))(t := None)\<rparr>)"
          by (auto split: if_splits)
        show ?thesis
          by (rule ordered_quiet [OF ord *(1,2)])
            (use Some Failed in \<open>auto simp: rights_def wrs_def rds_def toks_def spent_def\<close>)
      qed auto
    qed (use ReturnHeader step in auto)
  next
    case (Meet t u)
    with step show ?thesis
      by (auto split: if_splits intro!: ordered_move [OF ord, of t])
  next
    case (Obtain t e)
    with step have *: "t < N" "free (slot_of r) t" "available (slot_of r)"
        "r' = learn t (queued r) (r\<lparr>slot_of := set_job t (Fill e) ((slot_of r)\<lparr>available := False\<rparr>)\<rparr>)"
      by (auto split: if_splits)
    then have "{..<events r} \<subseteq> queued r" using ord by (simp add: ordered_inv_def Let_def)
    with * show ?thesis
      by (auto intro!: ordered_move [OF ord *(1)] simp: rights_def spent_def)
  next
    case (FillSlot t)
    with step obtain e where e: "jobs (slot_of r) t = Fill e"
        "r' = access_element t True (r\<lparr>slot_of := set_job t Occupy ((slot_of r)\<lparr>cell := Some e\<rparr>)\<rparr>)"
      by (auto split: job.splits)
    with job [of t] job_right [of t] show ?thesis by (auto intro: ordered_use [OF ord sh])
  next
    case (OccupySlot t)
    with step obtain h where *: "jobs (slot_of r) t = Occupy"
        "call_event cfg t OpOccupy (header_of (slot_of r)) = Some h"
        "r' = r\<lparr>slot_of := set_job t Idle ((slot_of r)\<lparr>header_of := h\<rparr>)\<rparr>"
      by (auto split: if_splits)
    with job [of t] ordered_call [OF ord sh _ _ *(2), of Idle] show ?thesis by simp
  next
    case (TakeElement t)
    with step obtain b where "jobs (slot_of r) t = Take b"
        "r' = access_element t False (r\<lparr>slot_of :=
          set_job t (if b then Push else Idle) ((slot_of r)\<lparr>cell := None\<rparr>)\<rparr>)"
      by (auto split: job.splits)
    with job [of t] job_right [of t] show ?thesis by (cases b) (auto intro: ordered_use [OF ord sh])
  next
    case (Recycle t)
    with step have *: "jobs (slot_of r) t = Push"
        "r' = r\<lparr>slot_of := set_job t Idle ((slot_of r)\<lparr>available := True\<rparr>),
          queued := queued r \<union> knows r t\<rparr>"
      by (auto split: if_splits)
    with job [of t] job_right [of t] have "t < N" "{..<events r} \<subseteq> knows r t"
      using ord by (auto simp: ordered_inv_def Let_def)
    with * job_right [of t] show ?thesis
      by (intro ordered_move [OF ord, of t]) (auto simp: rights_def spent_def)
  next
    case (ReadGuarded t)
    with step have "t < N" "r' = access_element t False r"
        "reads (header_of (slot_of r)) t \<noteq> {#} \<or> writes (header_of (slot_of r)) t \<noteq> {#}"
      by (auto split: if_splits)
    with guard [of t] show ?thesis
      by (auto intro!: ordered_access [OF ord sh] simp: rds_def)
  next
    case (AssignGuarded t i e)
    with step holder [of i t] show ?thesis by (auto split: if_splits intro: ordered_use [OF ord sh])
  next
    case (StartRemoveLocked t i)
    with step have *: "t < N" "free (slot_of r) t" "i \<in># writes (header_of (slot_of r)) t"
        "r' = r\<lparr>slot_of := set_job t (TakeLocked i) (slot_of r)\<rparr>"
      by (auto split: if_splits)
    with holder show ?thesis by (intro ordered_quiet [OF ord *(1,4)]) auto
  next
    case (TakeElementLocked t)
    with step obtain i where *: "jobs (slot_of r) t = TakeLocked i"
        "r' = access_element t False (r\<lparr>slot_of := set_job t (TakenLocked i) ((slot_of r)\<lparr>cell := None\<rparr>)\<rparr>)"
      by (auto split: job.splits)
    moreover have "t < N" "i \<in># writes (header_of (slot_of r)) t"
      using take_locked_guard [OF sh *(1)] by auto
    ultimately show ?thesis using holder by (auto intro: ordered_use [OF ord sh])
  next
    case (UnlockRemoved t)
    with step obtain i h where *: "jobs (slot_of r) t = TakenLocked i"
        "call_event cfg t (OpRemoveLocked i) (header_of (slot_of r)) = Some h"
        "r' = r\<lparr>slot_of := set_job t Idle ((slot_of r)\<lparr>header_of := h\<rparr>)\<rparr>"
      by (auto split: job.splits)
    with job [of t] ordered_call [OF ord sh _ _ *(2), of Idle] show ?thesis by simp
  qed
qed

lemma traced_inv:
  assumes "traced_reachable cfg P N D r"
    and "acquires (exchange_success D)" "releases (exchange_success D)" "releases (rmw_ordering D)"
  shows "shared_inv P N (slot_of r) \<and> ordered_inv N r"
  using assms(1)
proof (induction rule: traced_reachable.induct)
  case start
  have "shared_inv P N (shared_init P)" by (rule shared_reachable_inv [OF shared_reachable.start])
  then show ?case by (simp add: traced_init_def ordered_inv_def)
next
  case (step r x r')
  have "shared_inv P N (slot_of r')"
    using happen_shared [OF step(2)] shared_step_inv step(3) by auto
  with happen_ordered [OF step(2) _ _ assms(2-4)] step(3) show ?case by blast
qed

end

section \<open>Data races under the orderings of the source\<close>

text \<open>
  What would repair them: with exchanges that acquire and release when they succeed, the header
  orders all accesses to its element. In every run, whoever may write the element next does so
  after all earlier accesses in the happens-before order, and whoever may read it next does so after
  all earlier writes, so there are no data races in the sense of the memory model. The source does
  not have such exchanges; this is not a property of it.
\<close>

lemma acquiring_exchanges_order:
  assumes "parking P" and "traced_reachable cfg P N D r"
    and "acquires (exchange_success D)" and "releases (exchange_success D)" and "releases (rmw_ordering D)"
    and "t < N"
  shows "(may_write (slot_of r) t \<longrightarrow> {..<events r} \<subseteq> knows r t) \<and>
    (may_read (slot_of r) t \<longrightarrow> written r \<subseteq> knows r t)"
proof -
  have sh: "shared_inv P N (slot_of r)" and ord: "ordered_inv N r"
    using parking.traced_inv [OF assms(1-5)] by auto
  have right: "{..<events r} \<subseteq> knows r t \<and> written r \<subseteq> knows r t" if "0 < rights (slot_of r) t"
    using ord that assms(6) by (auto simp: ordered_inv_def Let_def)
  have guard: "0 < rights (slot_of r) t" if "writes (header_of (slot_of r)) t \<noteq> {#}"
    using that by (auto simp: rights_def wrs_def nonempty_has_size)
  have "0 < rights (slot_of r) t" if "may_write (slot_of r) t"
    using that guard by (auto simp: may_write_def rights_def)
  moreover have "0 < rights (slot_of r) t \<or> rds (header_of (slot_of r)) t \<noteq> {#}"
    if "may_read (slot_of r) t"
    using that unfolding may_read_def
  proof (elim disjE exE conjE)
    fix b assume "jobs (slot_of r) t = Take b"
    then show ?thesis by (cases b) (auto simp: rights_def spent_def)
  next
    fix i assume "jobs (slot_of r) t = TakeLocked i"
    then show ?thesis using take_locked_guard [OF sh] guard by fastforce
  qed (use guard in \<open>auto simp: rds_def\<close>)
  moreover have "written r \<subseteq> knows r t" if "rds (header_of (slot_of r)) t \<noteq> {#}"
    using ord that assms(6) by (simp add: ordered_inv_def Let_def)
  ultimately show ?thesis using right by blast
qed

text \<open>
  A run of two threads: thread 0 inserts an element and hands its ID to thread 1, then replaces
  the element under a write lock; thread 1 then locks the element for reading.
\<close>

definition race_script :: "nat happening list" where
  "race_script =
     [Obtain 0 5, FillSlot 0, OccupySlot 0, RunHeader 0 Go, ReturnHeader 0, Meet 1 0,
      CallHeader 0 (OpLockWrite 0 DontBlock), RunHeader 0 Go, ReturnHeader 0, AssignGuarded 0 0 7,
      CallHeader 0 (OpUnlockWrite 0), RunHeader 0 Go, ReturnHeader 0,
      CallHeader 1 (OpLockRead 0 DontBlock), RunHeader 1 Go, RunHeader 1 Go, ReturnHeader 1]"

definition after_race :: "orderings \<Rightarrow> (nat, loom_park) traced" where
  "after_race D = the (happen_all debug_build loom_parker 2 D race_script (traced_init loom_parker))"

lemmas race_eval = scripted_eval race_script_def traced_init_def shared_init_def free_def
  after_race_def source_orderings_def acquiring_orderings_def exchange_of_def exchange_ordering_def
  swap_checks_def synchronise_def learn_def access_element_def

lemma race_runs:
  "\<not> Option.is_none (happen_all debug_build loom_parker 2 source_orderings race_script (traced_init loom_parker))"
  "\<not> Option.is_none (happen_all debug_build loom_parker 2 acquiring_orderings race_script (traced_init loom_parker))"
  by (simp add: race_eval)+

lemma race_reachable:
  "traced_reachable debug_build loom_parker 2 source_orderings (after_race source_orderings)"
  "traced_reachable debug_build loom_parker 2 acquiring_orderings (after_race acquiring_orderings)"
  using race_runs
  by (auto simp: after_race_def Option.is_none_def
      intro!: happen_all_reachable [OF _ traced_reachable.start])

lemma race_outcome:
  "may_read (slot_of (after_race D)) 1" "written (after_race D) = {0, 1}"
  if "D = source_orderings \<or> D = acquiring_orderings"
  using that by (auto simp: race_eval may_read_def)

text \<open>
  C3. The orderings the source has are not enough. Its successful exchanges release but do not
  acquire, so taking a lock does not synchronise with the release of the previous one: in a run of
  two threads a reader that holds the lock is about to read an element whose last
  assignment, made under a write lock that was released before, does not happen before the read.
  With acquiring exchanges the same interleaving orders the two.
\<close>

theorem source_orderings_race:
  "traced_reachable debug_build loom_parker 2 source_orderings (after_race source_orderings) \<and>
   may_read (slot_of (after_race source_orderings)) 1 \<and>
   cell (slot_of (after_race source_orderings)) = Some 7 \<and>
   1 \<in> written (after_race source_orderings) \<and> 1 \<notin> knows (after_race source_orderings) 1 \<and>
   1 \<in> knows (after_race acquiring_orderings) 1"
proof (intro conjI)
  show "traced_reachable debug_build loom_parker 2 source_orderings (after_race source_orderings)"
    by (rule race_reachable(1))
qed (use race_outcome [of source_orderings] in \<open>simp_all add: race_eval\<close>)

end
