(* ===== verification/RwHeaderTests.thy ===== *)
theory RwHeaderTests
  imports RwHeaderSpec
begin

text \<open>
  The unit tests of \<open>src/src/header.rs\<close>, statement by statement, on the model of the header. A
  test makes its calls on a header of its own, which is dropped at the end of the test; it passes
  when no assertion fails and nothing panics. \<open>result_ok\<close> is \<open>Result::unwrap\<close>.
\<close>

definition result_ok :: "('a, 'e) result \<Rightarrow> 'a outcome" where
  "result_ok r = (case r of Ok v \<Rightarrow> Value v | Err _ \<Rightarrow> Fault UnwrapNone)"

lemma result_ok_simps [simp, outcome_simps]:
  "result_ok (Ok v) = Value v" "result_ok (Err e) = Fault UnwrapNone"
  by (simp_all add: result_ok_def)

definition test_header_reset_initially_returns_none :: "build \<Rightarrow> nat \<Rightarrow> unit outcome" where
  "test_header_reset_initially_returns_none cfg spur =
     obind (header_new cfg) (\<lambda>w.
     obind (header_reset cfg w) (\<lambda>(r, w).
     assert_eq r None (
       header_drop cfg False w)))"

definition test_header_reset_returns_the_tracked_id :: "build \<Rightarrow> nat \<Rightarrow> unit outcome" where
  "test_header_reset_returns_the_tracked_id cfg spur =
     obind (
       obind (header_new cfg) (\<lambda>w.
       obind (occupy cfg w) (\<lambda>(id, w).
       obind (header_reset cfg w) (\<lambda>(r, w).
       assert_eq r (Some id) (
         header_drop cfg False w)))))
     (\<lambda>_.
       obind (header_new cfg) (\<lambda>w.
       obind (occupy cfg w) (\<lambda>(id, w).
       obind (header_remove cfg spur id DontBlock w) (\<lambda>(r, w).
       obind (result_ok r) (\<lambda>_.
       obind (occupy cfg w) (\<lambda>(id, w).
       obind (header_reset cfg w) (\<lambda>(r, w).
       assert_eq r (Some id) (
         header_drop cfg False w))))))))"

definition test_header_reset_returns_none_after_double_invocation :: "build \<Rightarrow> nat \<Rightarrow> unit outcome" where
  "test_header_reset_returns_none_after_double_invocation cfg spur =
     obind (header_new cfg) (\<lambda>w.
     obind (occupy cfg w) (\<lambda>(_, w).
     obind (header_reset cfg w) (\<lambda>(r, w).
     obind (header_reset cfg w) (\<lambda>(r, w).
     assert_eq r None (
       header_drop cfg False w)))))"

definition test_header_needs_drop_is_false_initially :: "build \<Rightarrow> nat \<Rightarrow> unit outcome" where
  "test_header_needs_drop_is_false_initially cfg spur =
     obind (header_new cfg) (\<lambda>w.
     assert_that (\<not> needs_drop w) (
       header_drop cfg False w))"

definition test_header_needs_drop_is_true_after_occupation :: "build \<Rightarrow> nat \<Rightarrow> unit outcome" where
  "test_header_needs_drop_is_true_after_occupation cfg spur =
     obind (header_new cfg) (\<lambda>w.
     obind (occupy cfg w) (\<lambda>(_, w).
     assert_that (needs_drop w) (
       header_drop cfg False w)))"

definition test_header_needs_drop_is_false_after_removal :: "build \<Rightarrow> nat \<Rightarrow> unit outcome" where
  "test_header_needs_drop_is_false_after_removal cfg spur =
     obind (header_new cfg) (\<lambda>w.
     obind (occupy cfg w) (\<lambda>(id, w).
     obind (header_remove cfg spur id DontBlock w) (\<lambda>(r, w).
     obind (result_ok r) (\<lambda>_.
     assert_that (\<not> needs_drop w) (
       header_drop cfg False w)))))"

definition test_header_needs_drop_is_false_after_locked_removal :: "build \<Rightarrow> nat \<Rightarrow> unit outcome" where
  "test_header_needs_drop_is_false_after_locked_removal cfg spur =
     obind (header_new cfg) (\<lambda>w.
     obind (occupy cfg w) (\<lambda>(id, w).
     obind (lock_write cfg spur id DontBlock w) (\<lambda>(r, w).
     obind (result_ok r) (\<lambda>_.
     obind (header_remove_locked cfg id w) (\<lambda>(_, _, w).
     assert_that (\<not> needs_drop w) (
       header_drop cfg False w))))))"

definition test_header_lock_read_succeeds_when_id_matches :: "build \<Rightarrow> nat \<Rightarrow> unit outcome" where
  "test_header_lock_read_succeeds_when_id_matches cfg spur =
     obind (header_new cfg) (\<lambda>w.
     obind (occupy cfg w) (\<lambda>(id, w).
     obind (lock_read cfg spur id DontBlock w) (\<lambda>(r, w).
     assert_eq r (Ok True) (
     obind (unlock_read cfg spur id w) (\<lambda>(_, w).
       header_drop cfg False w)))))"

definition test_header_lock_write_succeeds_when_id_matches :: "build \<Rightarrow> nat \<Rightarrow> unit outcome" where
  "test_header_lock_write_succeeds_when_id_matches cfg spur =
     obind (header_new cfg) (\<lambda>w.
     obind (occupy cfg w) (\<lambda>(id, w).
     obind (lock_write cfg spur id DontBlock w) (\<lambda>(r, w).
     assert_eq r (Ok True) (
     obind (unlock_write cfg id w) (\<lambda>(_, w).
       header_drop cfg False w)))))"

definition test_header_lock_read_fails_when_id_doesnt_match :: "build \<Rightarrow> nat \<Rightarrow> unit outcome" where
  "test_header_lock_read_fails_when_id_doesnt_match cfg spur =
     obind (header_new cfg) (\<lambda>w.
     obind (occupy cfg w) (\<lambda>(id, w).
     obind (checked_add cfg id 1) (\<lambda>next.
     obind (lock_read cfg spur next DontBlock w) (\<lambda>(r, w).
     assert_eq r (Ok False) (
       header_drop cfg False w)))))"

definition test_header_lock_write_fails_when_id_doesnt_match :: "build \<Rightarrow> nat \<Rightarrow> unit outcome" where
  "test_header_lock_write_fails_when_id_doesnt_match cfg spur =
     obind (header_new cfg) (\<lambda>w.
     obind (occupy cfg w) (\<lambda>(id, w).
     obind (checked_add cfg id 1) (\<lambda>next.
     obind (lock_write cfg spur next DontBlock w) (\<lambda>(r, w).
     assert_eq r (Ok False) (
       header_drop cfg False w)))))"

definition test_header_double_read_lock_succeeds :: "build \<Rightarrow> nat \<Rightarrow> unit outcome" where
  "test_header_double_read_lock_succeeds cfg spur =
     obind (header_new cfg) (\<lambda>w.
     obind (occupy cfg w) (\<lambda>(id, w).
     obind (lock_read cfg spur id DontBlock w) (\<lambda>(r, w).
     obind (result_ok r) (\<lambda>_.
     obind (lock_read cfg spur id DontBlock w) (\<lambda>(r, w).
     assert_eq r (Ok True) (
     obind (unlock_read cfg spur id w) (\<lambda>(_, w).
     obind (unlock_read cfg spur id w) (\<lambda>(_, w).
       header_drop cfg False w))))))))"

definition test_header_remove_succeeds_when_id_matches :: "build \<Rightarrow> nat \<Rightarrow> unit outcome" where
  "test_header_remove_succeeds_when_id_matches cfg spur =
     obind (header_new cfg) (\<lambda>w.
     obind (occupy cfg w) (\<lambda>(id, w).
     obind (header_remove cfg spur id DontBlock w) (\<lambda>(r, w).
     assert_eq r (Ok (RemoveMatched True)) (
       header_drop cfg False w))))"

definition test_header_remove_fails_when_id_doesnt_match :: "build \<Rightarrow> nat \<Rightarrow> unit outcome" where
  "test_header_remove_fails_when_id_doesnt_match cfg spur =
     obind (header_new cfg) (\<lambda>w.
     obind (occupy cfg w) (\<lambda>(id, w).
     obind (checked_add cfg id 1) (\<lambda>next.
     obind (header_remove cfg spur next DontBlock w) (\<lambda>(r, w).
     assert_eq r (Ok DidntMatch) (
       header_drop cfg False w)))))"

definition test_header_remove_fails_before_occupation :: "build \<Rightarrow> nat \<Rightarrow> unit outcome" where
  "test_header_remove_fails_before_occupation cfg spur =
     obind (header_new cfg) (\<lambda>w.
     obind (header_remove cfg spur 42 DontBlock w) (\<lambda>(r, w).
     assert_eq r (Ok DidntMatch) (
       header_drop cfg False w)))"

definition test_header_remove_fails_after_double_invocation :: "build \<Rightarrow> nat \<Rightarrow> unit outcome" where
  "test_header_remove_fails_after_double_invocation cfg spur =
     obind (header_new cfg) (\<lambda>w.
     obind (occupy cfg w) (\<lambda>(id, w).
     obind (header_remove cfg spur id DontBlock w) (\<lambda>(r, w).
     obind (result_ok r) (\<lambda>_.
     obind (header_remove cfg spur id DontBlock w) (\<lambda>(r, w).
     assert_eq r (Ok DidntMatch) (
       header_drop cfg False w))))))"

definition test_header_cannot_lock_read_when_locking_write :: "build \<Rightarrow> nat \<Rightarrow> unit outcome" where
  "test_header_cannot_lock_read_when_locking_write cfg spur =
     obind (header_new cfg) (\<lambda>w.
     obind (occupy cfg w) (\<lambda>(id, w).
     obind (lock_write cfg spur id DontBlock w) (\<lambda>(r, w).
     obind (result_ok r) (\<lambda>_.
     obind (lock_read cfg spur id DontBlock w) (\<lambda>(r, w).
     assert_eq r (Err TimedOut) (
     obind (unlock_write cfg id w) (\<lambda>(_, w).
       header_drop cfg False w)))))))"

definition test_header_cannot_lock_write_when_locking_read :: "build \<Rightarrow> nat \<Rightarrow> unit outcome" where
  "test_header_cannot_lock_write_when_locking_read cfg spur =
     obind (header_new cfg) (\<lambda>w.
     obind (occupy cfg w) (\<lambda>(id, w).
     obind (lock_read cfg spur id DontBlock w) (\<lambda>(r, w).
     obind (result_ok r) (\<lambda>_.
     obind (lock_write cfg spur id DontBlock w) (\<lambda>(r, w).
     assert_eq r (Err TimedOut) (
     obind (unlock_read cfg spur id w) (\<lambda>(_, w).
       header_drop cfg False w)))))))"

definition test_header_cannot_remove_when_locking_read :: "build \<Rightarrow> nat \<Rightarrow> unit outcome" where
  "test_header_cannot_remove_when_locking_read cfg spur =
     obind (header_new cfg) (\<lambda>w.
     obind (occupy cfg w) (\<lambda>(id, w).
     obind (lock_read cfg spur id DontBlock w) (\<lambda>(r, w).
     obind (result_ok r) (\<lambda>_.
     obind (header_remove cfg spur id DontBlock w) (\<lambda>(r, w).
     assert_eq r (Err TimedOut) (
     obind (unlock_read cfg spur id w) (\<lambda>(_, w).
       header_drop cfg False w)))))))"

definition test_header_cannot_remove_when_locking_write :: "build \<Rightarrow> nat \<Rightarrow> unit outcome" where
  "test_header_cannot_remove_when_locking_write cfg spur =
     obind (header_new cfg) (\<lambda>w.
     obind (occupy cfg w) (\<lambda>(id, w).
     obind (lock_write cfg spur id DontBlock w) (\<lambda>(r, w).
     obind (result_ok r) (\<lambda>_.
     obind (header_remove cfg spur id DontBlock w) (\<lambda>(r, w).
     assert_eq r (Err TimedOut) (
     obind (unlock_write cfg id w) (\<lambda>(_, w).
       header_drop cfg False w)))))))"

definition header_tests :: "build \<Rightarrow> nat \<Rightarrow> unit outcome list" where
  "header_tests cfg spur =
     [test_header_reset_initially_returns_none cfg spur,
      test_header_reset_returns_the_tracked_id cfg spur,
      test_header_reset_returns_none_after_double_invocation cfg spur,
      test_header_needs_drop_is_false_initially cfg spur,
      test_header_needs_drop_is_true_after_occupation cfg spur,
      test_header_needs_drop_is_false_after_removal cfg spur,
      test_header_needs_drop_is_false_after_locked_removal cfg spur,
      test_header_lock_read_succeeds_when_id_matches cfg spur,
      test_header_lock_write_succeeds_when_id_matches cfg spur,
      test_header_lock_read_fails_when_id_doesnt_match cfg spur,
      test_header_lock_write_fails_when_id_doesnt_match cfg spur,
      test_header_double_read_lock_succeeds cfg spur,
      test_header_remove_succeeds_when_id_matches cfg spur,
      test_header_remove_fails_when_id_doesnt_match cfg spur,
      test_header_remove_fails_before_occupation cfg spur,
      test_header_remove_fails_after_double_invocation cfg spur,
      test_header_cannot_lock_read_when_locking_write cfg spur,
      test_header_cannot_lock_write_when_locking_read cfg spur,
      test_header_cannot_remove_when_locking_read cfg spur,
      test_header_cannot_remove_when_locking_write cfg spur]"

lemmas header_test_defs = test_header_reset_initially_returns_none_def
  test_header_reset_returns_the_tracked_id_def
  test_header_reset_returns_none_after_double_invocation_def
  test_header_needs_drop_is_false_initially_def
  test_header_needs_drop_is_true_after_occupation_def
  test_header_needs_drop_is_false_after_removal_def
  test_header_needs_drop_is_false_after_locked_removal_def
  test_header_lock_read_succeeds_when_id_matches_def
  test_header_lock_write_succeeds_when_id_matches_def
  test_header_lock_read_fails_when_id_doesnt_match_def
  test_header_lock_write_fails_when_id_doesnt_match_def
  test_header_double_read_lock_succeeds_def
  test_header_remove_succeeds_when_id_matches_def
  test_header_remove_fails_when_id_doesnt_match_def
  test_header_remove_fails_before_occupation_def
  test_header_remove_fails_after_double_invocation_def
  test_header_cannot_lock_read_when_locking_write_def
  test_header_cannot_lock_write_when_locking_read_def
  test_header_cannot_remove_when_locking_read_def
  test_header_cannot_remove_when_locking_write_def

text \<open>The numbers of the tests are far from the reserved ID.\<close>

lemma small_ids: "0 \<noteq> RESERVED_ID" "1 \<noteq> RESERVED_ID" "2 \<noteq> RESERVED_ID" "42 \<noteq> RESERVED_ID"
  by (simp_all add: RESERVED_ID_def)

lemma header_new_eval [header_eval]: "header_new cfg = Value (pack False 0 0)"
  by (simp add: header_new_def debug_assert_holds bits_pack pack_def)

text \<open>
  The header behaves as its unit tests demand: every one of them passes, in every build and
  however often the weak exchange fails spuriously.
\<close>

lemma header_tests_pass: "list_all passes (header_tests cfg spur)"
  by (simp add: header_tests_def header_test_defs header_eval small_ids checked_add_id needs_drop_def)

end
