(* ===== verification/RwBlockTests.thy ===== *)
theory RwBlockTests
  imports RwHeaderTests RwBlock
begin

text \<open>
  The unit tests of \<open>src/src/block.rs\<close>, statement by statement, on the model of blocks. Every
  test starts with memory of its own and ends by dropping its blocks. The element types of the tests
  have platforms of their own: \<open>u32\<close> and \<open>()\<close> have no destructor (\<open>A\<close>); the element that holds an \<open>Rc\<close>
  has one, and a niche (\<open>B\<close>). The number that \<open>RwStoreId::generate\<close> would return next is an argument.
\<close>

section \<open>The tests\<close>

definition no_memory :: "'e heap" where
  "no_memory = \<lparr>cells = (\<lambda>_. None), allocations = 0\<rparr>"

definition drop_block :: "build \<Rightarrow> platform \<Rightarrow> block \<Rightarrow> 'e heap \<Rightarrow> unit outcome" where
  "drop_block cfg A b h = omap (\<lambda>_. ()) (block_drop cfg A False b h)"

definition singleton_block ::
  "build \<Rightarrow> platform \<Rightarrow> u64 \<Rightarrow> (block \<times> elem_id \<times> u32 heap) outcome" where
  "singleton_block cfg A next_id =
     (let (sid, _) = store_id_generate cfg next_id in
      obind (block_new cfg A 1 None sid no_memory) (\<lambda>(b, h).
      obind (block_slot_address cfg b 0) (\<lambda>slot.
      obind (block_insert cfg slot 24 sid h) (\<lambda>(id, h).
        Value (b, id, h)))))"

definition create_mismatching_id :: "build \<Rightarrow> elem_id \<Rightarrow> elem_id outcome" where
  "create_mismatching_id cfg i =
     omap (\<lambda>n. id_new n (slot_address i) (id_store i)) (checked_add cfg (ordinal i) 1)"

definition test_block_len_returns_the_size :: "build \<Rightarrow> platform \<Rightarrow> u64 \<Rightarrow> nat \<Rightarrow> unit outcome" where
  "test_block_len_returns_the_size cfg A next_id spur =
     (let (sid, _) = store_id_generate cfg next_id in
      obind (block_new cfg A 32 None sid (no_memory :: unit heap)) (\<lambda>(b, h).
      assert_eq (block_len b) 32 (
        drop_block cfg A b h)))"

definition test_block_removal_fails_on_an_empty_slot ::
  "build \<Rightarrow> platform \<Rightarrow> u64 \<Rightarrow> nat \<Rightarrow> unit outcome" where
  "test_block_removal_fails_on_an_empty_slot cfg A next_id spur =
     (let (sid, _) = store_id_generate cfg next_id in
      obind (block_new cfg A 1 None sid (no_memory :: u32 heap)) (\<lambda>(b, h).
      obind (block_slot_address cfg b 0) (\<lambda>slot.
      let id = id_new 42 slot sid in
      obind (block_remove cfg spur id DontBlock h) (\<lambda>(r, h).
      assert_eq r (Ok None) (
        drop_block cfg A b h)))))"

definition test_block_removal_succeeds_when_id_matches ::
  "build \<Rightarrow> platform \<Rightarrow> u64 \<Rightarrow> nat \<Rightarrow> unit outcome" where
  "test_block_removal_succeeds_when_id_matches cfg A next_id spur =
     obind (singleton_block cfg A next_id) (\<lambda>(b, id, h).
     obind (block_remove cfg spur id DontBlock h) (\<lambda>(r, h).
     assert_eq r (Ok (Some (RemoveResult 24 True))) (
       drop_block cfg A b h)))"

definition test_block_removal_fails_when_id_doesnt_match ::
  "build \<Rightarrow> platform \<Rightarrow> u64 \<Rightarrow> nat \<Rightarrow> unit outcome" where
  "test_block_removal_fails_when_id_doesnt_match cfg A next_id spur =
     obind (singleton_block cfg A next_id) (\<lambda>(b, id, h).
     obind (create_mismatching_id cfg id) (\<lambda>id.
     obind (block_remove cfg spur id DontBlock h) (\<lambda>(r, h).
     assert_eq r (Ok None) (
       drop_block cfg A b h))))"

definition test_block_lock_read_succeeds_when_id_matches ::
  "build \<Rightarrow> platform \<Rightarrow> u64 \<Rightarrow> nat \<Rightarrow> unit outcome" where
  "test_block_lock_read_succeeds_when_id_matches cfg A next_id spur =
     obind (singleton_block cfg A next_id) (\<lambda>(b, id, h).
     obind (block_lock_read cfg spur id DontBlock h) (\<lambda>(r, h).
     assert_eq r (Ok True) (
     obind (block_unlock_read cfg spur id h) (\<lambda>h.
       drop_block cfg A b h))))"

definition test_block_lock_read_fails_when_id_doesnt_match ::
  "build \<Rightarrow> platform \<Rightarrow> u64 \<Rightarrow> nat \<Rightarrow> unit outcome" where
  "test_block_lock_read_fails_when_id_doesnt_match cfg A next_id spur =
     obind (singleton_block cfg A next_id) (\<lambda>(b, id, h).
     obind (create_mismatching_id cfg id) (\<lambda>id.
     obind (block_lock_read cfg spur id DontBlock h) (\<lambda>(r, h).
     assert_eq r (Ok False) (
       drop_block cfg A b h))))"

text \<open>
  The elements of the last three tests set a shared \<open>Cell\<close> from 0 to 42 when they are dropped;
  \<open>cell_after\<close> is its contents after the elements of a list have been dropped.
\<close>

definition cell_after :: "unit list \<Rightarrow> u32" where
  "cell_after dropped = fold (\<lambda>_ _. 42) dropped 0"

definition test_block_removal_drops_the_element ::
  "build \<Rightarrow> platform \<Rightarrow> u64 \<Rightarrow> nat \<Rightarrow> unit outcome" where
  "test_block_removal_drops_the_element cfg A next_id spur =
     (let (sid, _) = store_id_generate cfg next_id in
      obind (block_new cfg A 1 None sid (no_memory :: unit heap)) (\<lambda>(b, h).
      obind (block_slot_address cfg b 0) (\<lambda>slot.
      obind (block_insert cfg slot () sid h) (\<lambda>(id, h).
      obind (block_remove cfg spur id DontBlock h) (\<lambda>(r, h).
      obind (result_ok r) (\<lambda>result.
      assert_eq (cell_after (case result of None \<Rightarrow> [] | Some x \<Rightarrow> [removed x])) 42 (
        drop_block cfg A b h)))))))"

definition test_block_locked_removal_drops_the_element ::
  "build \<Rightarrow> platform \<Rightarrow> u64 \<Rightarrow> nat \<Rightarrow> unit outcome" where
  "test_block_locked_removal_drops_the_element cfg A next_id spur =
     (let (sid, _) = store_id_generate cfg next_id in
      obind (block_new cfg A 1 None sid (no_memory :: unit heap)) (\<lambda>(b, h).
      obind (block_slot_address cfg b 0) (\<lambda>slot.
      obind (block_insert cfg slot () sid h) (\<lambda>(id, h).
      obind (block_lock_write cfg spur id DontBlock h) (\<lambda>(r, h).
      obind (result_ok r) (\<lambda>_.
      obind (block_remove_locked cfg id h) (\<lambda>(result, h).
      assert_eq (cell_after [removed result]) 42 (
        drop_block cfg A b h))))))))"

definition test_block_dropping_the_block_drops_all_elements ::
  "build \<Rightarrow> platform \<Rightarrow> u64 \<Rightarrow> nat \<Rightarrow> unit outcome" where
  "test_block_dropping_the_block_drops_all_elements cfg A next_id spur =
     (let (sid, _) = store_id_generate cfg next_id in
      obind (block_new cfg A 1 None sid (no_memory :: unit heap)) (\<lambda>(b, h).
      obind (block_slot_address cfg b 0) (\<lambda>slot.
      obind (block_insert cfg slot () sid h) (\<lambda>(id, h).
      obind (block_drop cfg A False b h) (\<lambda>dropped.
      assert_eq (cell_after dropped) 42 (Value ()))))))"

definition block_tests :: "build \<Rightarrow> platform \<Rightarrow> platform \<Rightarrow> u64 \<Rightarrow> nat \<Rightarrow> unit outcome list" where
  "block_tests cfg A B next_id spur =
     map (\<lambda>test. test cfg A next_id spur)
       [test_block_len_returns_the_size,
        test_block_removal_fails_on_an_empty_slot,
        test_block_removal_succeeds_when_id_matches,
        test_block_removal_fails_when_id_doesnt_match,
        test_block_lock_read_succeeds_when_id_matches,
        test_block_lock_read_fails_when_id_doesnt_match] @
     map (\<lambda>test. test cfg B next_id spur)
       [test_block_removal_drops_the_element,
        test_block_locked_removal_drops_the_element,
        test_block_dropping_the_block_drops_all_elements]"

section \<open>They pass\<close>

lemma no_memory_simps [simp]: "cells no_memory p = None" "allocations no_memory = 0"
  by (simp_all add: no_memory_def)

lemma block_new_32:
  assumes "block_fits A 32"
  obtains h where "block_new cfg A 32 None sid (no_memory :: 'e heap) = Value (Block None sid 0 32, h)"
    and "\<And>i. i < 32 \<Longrightarrow> cells h (Address 0 i) = Some fresh_slot"
proof -
  let ?h = "no_memory :: 'e heap"
  have five: "(2 :: nat) ^ 5 = 32" "(2 :: u32) ^ 5 = 32" by simp_all
  have "(5 :: nat) < 32" "block_fits A (2 ^ 5)" using assms by simp_all
  then obtain h' where "block_new cfg A (2 ^ 5) None sid ?h = Value (Block None sid (allocations ?h) (2 ^ 5), h')"
      and cells: "cells h' = (\<lambda>p. if p \<in> Address (allocations ?h) ` {..<2 ^ 5} then Some fresh_slot
        else cells ?h p)"
    by (rule block_new_spec [of 5 A cfg None sid ?h])
  then have "block_new cfg A 32 None sid ?h = Value (Block None sid 0 32, h')"
    by (simp only: five) simp
  moreover have "cells h' (Address 0 i) = Some fresh_slot" if "i < 32" for i
    using that by (simp add: cells image_iff del: lessThan_nat_numeral)
  ultimately show ?thesis by (rule that)
qed

definition one_slot :: "'e slot \<Rightarrow> 'e heap" where
  "one_slot s = \<lparr>cells = [Address 0 0 \<mapsto> s], allocations = 1\<rparr>"

lemma one_slot_simps [simp]:
  "cells (one_slot s) (Address 0 0) = Some s"
  "set_slot (one_slot s) (Address 0 0) s' = one_slot s'"
  by (simp_all add: one_slot_def set_slot_def)

text \<open>A new block of one slot.\<close>

lemma block_new_one:
  fixes h :: "'e heap"
  assumes "block_fits A 32"
  shows "block_new cfg A 1 next sid h = Value (Block next sid (allocations h) 1,
    \<lparr>cells = (cells h)(Address (allocations h) 0 \<mapsto> \<lparr>slot_header = pack False 0 0, slot_value = None\<rparr>),
      allocations = Suc (allocations h)\<rparr>)"
proof -
  have "(0 :: nat) < 32" "block_fits A (2 ^ 0)"
    using block_fits_mono [OF assms, of 1] by simp_all
  then obtain h' where new: "block_new cfg A (2 ^ 0) next sid h =
        Value (Block next sid (allocations h) (2 ^ 0), h')"
      and "allocations h' = Suc (allocations h)"
      and "cells h' = (\<lambda>p. if p \<in> Address (allocations h) ` {..<2 ^ 0} then Some fresh_slot
        else cells h p)"
    by (rule block_new_spec [of 0 A cfg "next" sid h])
  then have "h' = \<lparr>cells = (cells h)(Address (allocations h) 0 \<mapsto> fresh_slot),
      allocations = Suc (allocations h)\<rparr>"
    by (cases h') (auto simp: fun_eq_iff)
  with new show ?thesis by (simp add: fresh_slot_def bits_pack)
qed

lemma block_new_1:
  "block_fits A 32 \<Longrightarrow> block_new cfg A 1 None sid (no_memory :: 'e heap) =
    Value (Block None sid 0 1, one_slot \<lparr>slot_header = pack False 0 0, slot_value = None\<rparr>)"
  by (simp add: block_new_one no_memory_def one_slot_def)

lemma only_slot: "block_slot_address cfg (Block next sid n 1) 0 = Value (Address n 0)"
  using scramble_slot_eval [of 0 cfg 0] by (simp add: block_slot_address_def)

lemma slot_drop_free:
  assumes "\<not> element_needs_drop A"
  shows "slot_drop cfg A False \<lparr>slot_header = pack n 0 i, slot_value = m\<rparr> = Value []"
  using assms by (simp add: slot_drop_def drop_in_place_def needs_drop_def header_eval)

lemma slot_drop_fresh: "slot_drop cfg A panicking fresh_slot = Value []"
  using slot_drop_unlocked [of False None cfg A panicking 0] by (simp add: fresh_slot_def bits_pack)

lemma slot_drop_start:
  assumes "element_needs_drop A" and "option_offset A = 0"
  shows "slot_drop cfg A False \<lparr>slot_header = pack n 0 i, slot_value = m\<rparr> =
    (if n then case m of Some v \<Rightarrow> Value [v] | None \<Rightarrow> Fault UndefinedBehaviour else Value [])"
  using assms
  by (auto simp: slot_drop_def drop_in_place_def element_offset_def needs_drop_def header_eval split: option.split)

lemmas block_test_eval = Let_def case_prod_beta block_new_1 only_slot slot_drop_free
  slot_drop_start header_eval
  small_ids checked_add_id singleton_block_def create_mismatching_id_def drop_block_def cell_after_def
  block_insert_def block_remove_def block_remove_locked_def block_lock_read_def block_unlock_read_def
  block_lock_write_def init_value_def

lemma drop_32:
  assumes "block_fits A 32"
  shows "passes (test_block_len_returns_the_size cfg A next_id spur)"
proof -
  obtain sid n where sid: "store_id_generate cfg next_id = (sid, n)" by fastforce
  obtain h where h: "block_new cfg A 32 None sid (no_memory :: unit heap) = Value (Block None sid 0 32, h)"
    "\<And>i. i < 32 \<Longrightarrow> cells h (Address 0 i) = Some fresh_slot"
    using block_new_32 [OF assms, of cfg sid] by blast
  have "drop_slots cfg A False (map (Address 0) is) h = Value []" if "set is \<subseteq> {..<32}" for "is"
    using that
    by (induction "is") (auto simp: h(2) slot_drop_fresh)
  then have "drop_slots cfg A False (map (Address 0) [0..<32]) h = Value []"
    by (rule meta_mp) auto
  then show ?thesis
    using h(1) by (simp add: test_block_len_returns_the_size_def sid drop_block_def)
qed

text \<open>
  Blocks behave as their unit tests demand: on all platforms on which a block of 32 slots
  fits, all of them pass, in every build, whatever identity the store has and however often the
  weak exchange fails. They include the tests that count drops: an element is dropped by its
  removal, or with its block.
\<close>

lemma block_tests_pass:
  assumes "block_fits A 32" and "\<not> element_needs_drop A"
    and "block_fits B 32" and "element_needs_drop B" and "option_offset B = 0"
  shows "list_all passes (block_tests cfg A B next_id spur)"
  using assms drop_32 [OF assms(1)]
  by (simp add: block_tests_def block_test_eval
      test_block_removal_fails_on_an_empty_slot_def test_block_removal_succeeds_when_id_matches_def
      test_block_removal_fails_when_id_doesnt_match_def
      test_block_lock_read_succeeds_when_id_matches_def
      test_block_lock_read_fails_when_id_doesnt_match_def
      test_block_removal_drops_the_element_def test_block_locked_removal_drops_the_element_def
      test_block_dropping_the_block_drops_all_elements_def)

end
