(* ===== verification/RwStoreTests.thy ===== *)
theory RwStoreTests
  imports RwBlockTests RwInsert
begin

text \<open>
  The unit tests of \<open>src/src/lib.rs\<close> and the examples in the documentation of \<open>lib.rs\<close> and
  \<open>lock.rs\<close>, statement by statement, on the model of the store. A test is a function of what it
  depends on: the build, the platform, the queue, the number \<open>RwStoreId::generate\<close> would return
  next, the state of the bucket generator, and the spurious failures of each operation. It
  ends by dropping its guards and then its store. As in \<open>RwBlockTests\<close> the elements, 32-bit
  integers, have no destructor.
\<close>

section \<open>What the tests use\<close>

type_synonym 'q store_test =
  "build \<Rightarrow> platform \<Rightarrow> 'q erasure_queue \<Rightarrow> u64 \<Rightarrow> u32 \<Rightarrow> nat \<Rightarrow> unit outcome"

type_synonym 'q remover =
  "build \<Rightarrow> 'q erasure_queue \<Rightarrow> nat \<Rightarrow> elem_id \<Rightarrow> (u32, 'q) store \<Rightarrow>
    (u32 option \<times> (u32, 'q) store) outcome"

definition new_u32_store :: "build \<Rightarrow> 'q erasure_queue \<Rightarrow> u64 \<Rightarrow> (u32, 'q) store" where
  "new_u32_store cfg Q n = fst (store_new cfg Q n)"

primrec is_err :: "('a, 'e) result \<Rightarrow> bool" where
  "is_err (Ok _) = False"
| "is_err (Err _) = True"

definition drop_store :: "build \<Rightarrow> platform \<Rightarrow> ('e, 'q) store \<Rightarrow> unit outcome" where
  "drop_store cfg A s = omap (\<lambda>_. ()) (store_drop cfg A False s)"

definition assign :: "build \<Rightarrow> write_lock \<Rightarrow> 'e \<Rightarrow> ('e, 'q) store \<Rightarrow> ('e, 'q) store outcome" where
  "assign cfg l v s = omap (\<lambda>h'. s\<lparr>memory := h'\<rparr>) (write_lock_assign cfg l v (memory s))"

text \<open>What an optional reference refers to.\<close>

definition pointee :: "'e heap \<Rightarrow> address option \<Rightarrow> 'e option outcome" where
  "pointee h m = (case m of None \<Rightarrow> Value None | Some p \<Rightarrow> omap Some (read_element h p))"

text \<open>The trait \<open>AccessOperation\<close> and its implementations; \<open>boxed_lock\<close> is \<open>Box<dyn Deref>\<close>.\<close>

datatype boxed_lock = BoxedRead read_lock | BoxedWrite write_lock

type_synonym 'q access_operation =
  "build \<Rightarrow> nat \<Rightarrow> elem_id \<Rightarrow> (u32, 'q) store \<Rightarrow>
    (boxed_lock option block_result \<times> (u32, 'q) store) outcome"

primrec boxed_deref :: "build \<Rightarrow> boxed_lock \<Rightarrow> ('e, 'q) store \<Rightarrow> 'e outcome" where
  "boxed_deref cfg (BoxedRead l) s = read_lock_deref cfg l (memory s)"
| "boxed_deref cfg (BoxedWrite l) s = write_lock_deref cfg l (memory s)"

primrec drop_boxed :: "build \<Rightarrow> nat \<Rightarrow> boxed_lock \<Rightarrow> ('e, 'q) store \<Rightarrow> ('e, 'q) store outcome" where
  "drop_boxed cfg spur (BoxedRead l) s = drop_read_lock cfg spur l s"
| "drop_boxed cfg spur (BoxedWrite l) s = drop_write_lock cfg l s"

definition drop_access ::
  "build \<Rightarrow> nat \<Rightarrow> boxed_lock option block_result \<Rightarrow> ('e, 'q) store \<Rightarrow> ('e, 'q) store outcome" where
  "drop_access cfg spur r s =
     (case r of Ok (Some l) \<Rightarrow> drop_boxed cfg spur l s | _ \<Rightarrow> Value s)"

primrec boxed_read :: "read_lock option block_result \<Rightarrow> boxed_lock option block_result" where
  "boxed_read (Ok m) = Ok (map_option BoxedRead m)"
| "boxed_read (Err e) = Err e"

primrec boxed_write :: "write_lock option block_result \<Rightarrow> boxed_lock option block_result" where
  "boxed_write (Ok m) = Ok (map_option BoxedWrite m)"
| "boxed_write (Err e) = Err e"

definition read_operation :: "'q access_operation" where
  "read_operation cfg spur i s =
     omap (\<lambda>(l, s). (Ok (map_option BoxedRead l), s)) (store_read cfg spur i s)"

definition write_operation :: "'q access_operation" where
  "write_operation cfg spur i s =
     omap (\<lambda>(l, s). (Ok (map_option BoxedWrite l), s)) (store_write cfg spur i s)"

definition read_with_timeout_operation :: "'q access_operation" where
  "read_with_timeout_operation cfg spur i s =
     omap (\<lambda>(r, s). (boxed_read r, s)) (read_with_timeout cfg spur i DontBlock s)"

definition write_with_timeout_operation :: "'q access_operation" where
  "write_with_timeout_operation cfg spur i s =
     omap (\<lambda>(r, s). (boxed_write r, s)) (write_with_timeout cfg spur i DontBlock s)"

text \<open>The closure of the tests that remove without blocking.\<close>

definition remove_without_blocking :: "'q remover" where
  "remove_without_blocking cfg Q spur i s =
     result_unwrap (remove_with_timeout cfg Q spur i DontBlock s)"

section \<open>The unit tests\<close>

definition test_store_insert_creates_disparate_ids :: "'q store_test" where
  "test_store_insert_creates_disparate_ids cfg A Q n lcg spur =
     (let s = new_u32_store cfg Q n in
      obind (store_insert cfg A Q lcg 42 s) (\<lambda>(ia, lcg, s).
      obind (store_insert cfg A Q lcg 42 s) (\<lambda>(ib, lcg, s).
      assert_that (slot_address ia \<noteq> slot_address ib) (
        drop_store cfg A s))))"

definition test_store_insert_reuses_space_after_removal :: "'q store_test" where
  "test_store_insert_reuses_space_after_removal cfg A Q n lcg spur =
     (let s = new_u32_store cfg Q n in
      obind (store_insert cfg A Q lcg 42 s) (\<lambda>(ia, lcg, s).
      obind (store_remove cfg Q spur ia s) (\<lambda>(r, s).
      obind (option_unwrap r) (\<lambda>_.
      obind (store_insert cfg A Q lcg 42 s) (\<lambda>(ib, lcg, s).
      assert_eq (slot_address ia) (slot_address ib) (
        drop_store cfg A s))))))"

definition test_store_insert_reuses_space_after_locked_removal :: "'q store_test" where
  "test_store_insert_reuses_space_after_locked_removal cfg A Q n lcg spur =
     (let s = new_u32_store cfg Q n in
      obind (store_insert cfg A Q lcg 42 s) (\<lambda>(ia, lcg, s).
      obind (store_write cfg spur ia s) (\<lambda>(r, s).
      obind (option_unwrap r) (\<lambda>l.
      obind (store_remove_locked cfg Q l s) (\<lambda>(v, s).
      obind (store_insert cfg A Q lcg 42 s) (\<lambda>(ib, lcg, s).
      assert_eq (slot_address ia) (slot_address ib) (
        drop_store cfg A s)))))))"

definition test_store_insert_doesnt_reuse_id_ordinals :: "'q store_test" where
  "test_store_insert_doesnt_reuse_id_ordinals cfg A Q n lcg spur =
     (let s = new_u32_store cfg Q n in
      obind (store_insert cfg A Q lcg 42 s) (\<lambda>(ia, lcg, s).
      obind (store_remove cfg Q spur ia s) (\<lambda>(r, s).
      obind (option_unwrap r) (\<lambda>_.
      obind (store_insert cfg A Q lcg 42 s) (\<lambda>(ib, lcg, s).
      assert_that (ordinal ia \<noteq> ordinal ib) (
        drop_store cfg A s))))))"

definition test_store_gen_remove_returns_the_element :: "'q remover \<Rightarrow> 'q store_test" where
  "test_store_gen_remove_returns_the_element remover cfg A Q n lcg spur =
     (let s = new_u32_store cfg Q n in
      obind (store_insert cfg A Q lcg 42 s) (\<lambda>(i, lcg, s).
      obind (remover cfg Q spur i s) (\<lambda>(r, s).
      assert_eq r (Some 42) (
        drop_store cfg A s))))"

definition test_store_gen_remove_returns_none_after_removal :: "'q remover \<Rightarrow> 'q store_test" where
  "test_store_gen_remove_returns_none_after_removal remover cfg A Q n lcg spur =
     (let s = new_u32_store cfg Q n in
      obind (store_insert cfg A Q lcg 42 s) (\<lambda>(i, lcg, s).
      obind (store_remove cfg Q spur i s) (\<lambda>(r, s).
      obind (remover cfg Q spur i s) (\<lambda>(r, s).
      assert_eq r None (
        drop_store cfg A s)))))"

definition test_store_remove_with_timeout_fails_when_read_locked :: "'q store_test" where
  "test_store_remove_with_timeout_fails_when_read_locked cfg A Q n lcg spur =
     (let s = new_u32_store cfg Q n in
      obind (store_insert cfg A Q lcg 42 s) (\<lambda>(i, lcg, s).
      obind (store_read cfg spur i s) (\<lambda>(r, s).
      obind (option_unwrap r) (\<lambda>l.
      obind (remove_with_timeout cfg Q spur i DontBlock s) (\<lambda>(r, s).
      assert_that (is_err r) (
      obind (drop_read_lock cfg spur l s) (\<lambda>s.
        drop_store cfg A s)))))))"

definition test_store_remove_with_timeout_fails_when_write_locked :: "'q store_test" where
  "test_store_remove_with_timeout_fails_when_write_locked cfg A Q n lcg spur =
     (let s = new_u32_store cfg Q n in
      obind (store_insert cfg A Q lcg 42 s) (\<lambda>(i, lcg, s).
      obind (store_write cfg spur i s) (\<lambda>(r, s).
      obind (option_unwrap r) (\<lambda>l.
      obind (remove_with_timeout cfg Q spur i DontBlock s) (\<lambda>(r, s).
      assert_that (is_err r) (
      obind (drop_write_lock cfg l s) (\<lambda>s.
        drop_store cfg A s)))))))"

definition test_store_remove_locked_returns_the_element :: "'q store_test" where
  "test_store_remove_locked_returns_the_element cfg A Q n lcg spur =
     (let s = new_u32_store cfg Q n in
      obind (store_insert cfg A Q lcg 42 s) (\<lambda>(i, lcg, s).
      obind (store_write cfg spur i s) (\<lambda>(r, s).
      obind (option_unwrap r) (\<lambda>l.
      obind (store_remove_locked cfg Q l s) (\<lambda>(v, s).
      assert_eq v 42 (
        drop_store cfg A s))))))"

definition test_store_remove_locked_removes_the_element :: "'q store_test" where
  "test_store_remove_locked_removes_the_element cfg A Q n lcg spur =
     (let s = new_u32_store cfg Q n in
      obind (store_insert cfg A Q lcg 42 s) (\<lambda>(i, lcg, s).
      obind (store_write cfg spur i s) (\<lambda>(r, s).
      obind (option_unwrap r) (\<lambda>l.
      obind (store_remove_locked cfg Q l s) (\<lambda>(v, s).
      obind (store_read cfg spur i s) (\<lambda>(r, s).
      assert_eq r None (
        drop_store cfg A s)))))))"

definition test_store_access_references_the_element :: "'q access_operation \<Rightarrow> 'q store_test" where
  "test_store_access_references_the_element access cfg A Q n lcg spur =
     (let s = new_u32_store cfg Q n in
      obind (store_insert cfg A Q lcg 42 s) (\<lambda>(i, lcg, s).
      obind (access cfg spur i s) (\<lambda>(r, s).
      obind (result_ok r) (\<lambda>r.
      obind (option_unwrap r) (\<lambda>l.
      obind (boxed_deref cfg l s) (\<lambda>v.
      assert_eq v 42 (
      obind (drop_boxed cfg spur l s) (\<lambda>s.
        drop_store cfg A s))))))))"

definition test_store_access_returns_none_after_removal :: "'q access_operation \<Rightarrow> 'q store_test" where
  "test_store_access_returns_none_after_removal access cfg A Q n lcg spur =
     (let s = new_u32_store cfg Q n in
      obind (store_insert cfg A Q lcg 42 s) (\<lambda>(i, lcg, s).
      obind (store_remove cfg Q spur i s) (\<lambda>(r, s).
      obind (option_unwrap r) (\<lambda>_.
      obind (access cfg spur i s) (\<lambda>(r, s).
      obind (result_ok r) (\<lambda>r.
      assert_eq r None (
        drop_store cfg A s)))))))"

definition test_store_access_fails_when_locked :: "'q access_operation \<Rightarrow> 'q access_operation \<Rightarrow> 'q store_test" where
  "test_store_access_fails_when_locked lock access cfg A Q n lcg spur =
     (let s = new_u32_store cfg Q n in
      obind (store_insert cfg A Q lcg 42 s) (\<lambda>(i, lcg, s).
      obind (lock cfg spur i s) (\<lambda>(l, s).
      obind (access cfg spur i s) (\<lambda>(r, s).
      assert_that (is_err r) (
      obind (drop_access cfg spur l s) (\<lambda>s.
        drop_store cfg A s))))))"

definition test_store_access_succeeds_when_locked :: "'q access_operation \<Rightarrow> 'q access_operation \<Rightarrow> 'q store_test" where
  "test_store_access_succeeds_when_locked lock access cfg A Q n lcg spur =
     (let s = new_u32_store cfg Q n in
      obind (store_insert cfg A Q lcg 42 s) (\<lambda>(i, lcg, s).
      obind (lock cfg spur i s) (\<lambda>(l, s).
      obind (access cfg spur i s) (\<lambda>(r, s).
      assert_that (\<not> is_err r) (
      obind (drop_access cfg spur r s) (\<lambda>s.
      obind (drop_access cfg spur l s) (\<lambda>s.
        drop_store cfg A s)))))))"

definition test_store_get_mut_references_the_element :: "'q store_test" where
  "test_store_get_mut_references_the_element cfg A Q n lcg spur =
     (let s = new_u32_store cfg Q n in
      obind (store_insert cfg A Q lcg 42 s) (\<lambda>(i, lcg, s).
      obind (store_get_mut cfg i s) (\<lambda>p.
      obind (pointee (memory s) p) (\<lambda>v.
      assert_eq v (Some 42) (
        drop_store cfg A s)))))"

definition test_store_get_mut_returns_none_after_removal :: "'q store_test" where
  "test_store_get_mut_returns_none_after_removal cfg A Q n lcg spur =
     (let s = new_u32_store cfg Q n in
      obind (store_insert cfg A Q lcg 42 s) (\<lambda>(i, lcg, s).
      obind (store_remove cfg Q spur i s) (\<lambda>(r, s).
      obind (option_unwrap r) (\<lambda>_.
      obind (store_get_mut cfg i s) (\<lambda>p.
      obind (pointee (memory s) p) (\<lambda>v.
      assert_eq v None (
        drop_store cfg A s)))))))"

definition test_store_get_mut_unchecked_references_the_element :: "'q store_test" where
  "test_store_get_mut_unchecked_references_the_element cfg A Q n lcg spur =
     (let s = new_u32_store cfg Q n in
      obind (store_insert cfg A Q lcg 42 s) (\<lambda>(i, lcg, s).
      obind (store_get_mut_unchecked cfg i s) (\<lambda>p.
      obind (read_element (memory s) p) (\<lambda>v.
      assert_eq v 42 (
        drop_store cfg A s)))))"

definition test_store_capacity_returns_zeroes_initially :: "'q store_test" where
  "test_store_capacity_returns_zeroes_initially cfg A Q n lcg spur =
     (let s = new_u32_store cfg Q n in
      obind (store_capacity cfg s) (\<lambda>c.
      assert_eq c (0, 0) (
        drop_store cfg A s)))"

definition test_store_capacity_increases_on_first_insertion :: "'q store_test" where
  "test_store_capacity_increases_on_first_insertion cfg A Q n lcg spur =
     (let s = new_u32_store cfg Q n in
      obind (store_insert cfg A Q lcg 42 s) (\<lambda>(i, lcg, s).
      obind (store_capacity cfg s) (\<lambda>(touched, _).
      assert_eq touched 1 (
      obind (store_capacity cfg s) (\<lambda>(_, allocated).
      assert_that (1 \<le> allocated) (
        drop_store cfg A s))))))"

definition test_store_capacity_increases_on_second_insertion :: "'q store_test" where
  "test_store_capacity_increases_on_second_insertion cfg A Q n lcg spur =
     (let s = new_u32_store cfg Q n in
      obind (store_insert cfg A Q lcg 42 s) (\<lambda>(i, lcg, s).
      obind (store_insert cfg A Q lcg 42 s) (\<lambda>(i, lcg, s).
      obind (store_capacity cfg s) (\<lambda>(touched, _).
      assert_eq touched 2 (
      obind (store_capacity cfg s) (\<lambda>(_, allocated).
      assert_that (2 \<le> allocated) (
        drop_store cfg A s)))))))"

definition test_store_capacity_doesnt_decrease_after_removal :: "'q store_test" where
  "test_store_capacity_doesnt_decrease_after_removal cfg A Q n lcg spur =
     (let s = new_u32_store cfg Q n in
      obind (store_insert cfg A Q lcg 42 s) (\<lambda>(i, lcg, s).
      obind (store_remove cfg Q spur i s) (\<lambda>(r, s).
      obind (option_unwrap r) (\<lambda>_.
      obind (store_capacity cfg s) (\<lambda>(touched, _).
      assert_eq touched 1 (
      obind (store_capacity cfg s) (\<lambda>(_, allocated).
      assert_that (1 \<le> allocated) (
        drop_store cfg A s))))))))"

definition test_store_capacity_doesnt_increase_on_insertion_after_removal :: "'q store_test" where
  "test_store_capacity_doesnt_increase_on_insertion_after_removal cfg A Q n lcg spur =
     (let s = new_u32_store cfg Q n in
      obind (store_insert cfg A Q lcg 42 s) (\<lambda>(i, lcg, s).
      obind (store_remove cfg Q spur i s) (\<lambda>(r, s).
      obind (option_unwrap r) (\<lambda>_.
      obind (store_insert cfg A Q lcg 42 s) (\<lambda>(i, lcg, s).
      obind (store_capacity cfg s) (\<lambda>(touched, _).
      assert_eq touched 1 (
      obind (store_capacity cfg s) (\<lambda>(_, allocated).
      assert_that (1 \<le> allocated) (
        drop_store cfg A s)))))))))"

definition test_store_capacity_doesnt_increase_on_insertion_after_locked_removal :: "'q store_test" where
  "test_store_capacity_doesnt_increase_on_insertion_after_locked_removal cfg A Q n lcg spur =
     (let s = new_u32_store cfg Q n in
      obind (store_insert cfg A Q lcg 42 s) (\<lambda>(i, lcg, s).
      obind (store_write cfg spur i s) (\<lambda>(r, s).
      obind (option_unwrap r) (\<lambda>l.
      obind (store_remove_locked cfg Q l s) (\<lambda>(v, s).
      obind (store_insert cfg A Q lcg 42 s) (\<lambda>(i, lcg, s).
      obind (store_capacity cfg s) (\<lambda>(touched, _).
      assert_eq touched 1 (
      obind (store_capacity cfg s) (\<lambda>(_, allocated).
      assert_that (1 \<le> allocated) (
        drop_store cfg A s))))))))))"

section \<open>The examples of the documentation\<close>

definition example_crate :: "'q store_test" where
  "example_crate cfg A Q n lcg spur =
     (let s = new_u32_store cfg Q n in
      obind (store_insert cfg A Q lcg 42 s) (\<lambda>(i, lcg, s).
      obind (store_read cfg spur i s) (\<lambda>(r, s).
      obind (option_unwrap r) (\<lambda>l.
      obind (read_lock_deref cfg l (memory s)) (\<lambda>v.
      assert_eq v 42 (
      obind (read_with_timeout cfg spur i DontBlock s) (\<lambda>(r, s).
      assert_that (\<not> is_err r) (
      obind (drop_access cfg spur (boxed_read r) s) (\<lambda>s.
      obind (write_with_timeout cfg spur i DontBlock s) (\<lambda>(r, s).
      assert_that (is_err r) (
      obind (drop_read_lock cfg spur l s) (\<lambda>s.
      obind (store_write cfg spur i s) (\<lambda>(r, s).
      obind (option_unwrap r) (\<lambda>l.
      obind (assign cfg l 24 s) (\<lambda>s.
      obind (write_lock_deref cfg l (memory s)) (\<lambda>v.
      assert_eq v 24 (
      obind (write_with_timeout cfg spur i DontBlock s) (\<lambda>(r, s).
      assert_that (is_err r) (
      obind (drop_write_lock cfg l s) (\<lambda>s.
      obind (store_remove cfg Q spur i s) (\<lambda>(r, s).
      assert_eq r (Some 24) (
      obind (store_read cfg spur i s) (\<lambda>(r, s).
      assert_eq r None (
        drop_store cfg A s))))))))))))))))))))))))"

definition example_remove :: "'q store_test" where
  "example_remove cfg A Q n lcg spur =
     (let s = new_u32_store cfg Q n in
      obind (store_insert cfg A Q lcg 42 s) (\<lambda>(i, lcg, s).
      obind (store_remove cfg Q spur i s) (\<lambda>(r, s).
      assert_eq r (Some 42) (
        drop_store cfg A s))))"

definition example_remove_with_timeout :: "'q store_test" where
  "example_remove_with_timeout cfg A Q n lcg spur =
     (let s = new_u32_store cfg Q n in
      obind (store_insert cfg A Q lcg 42 s) (\<lambda>(i, lcg, s).
      obind (store_read cfg spur i s) (\<lambda>(l, s).
      obind (remove_with_timeout cfg Q spur i DontBlock s) (\<lambda>(r, s).
      assert_that (is_err r) (
      obind (drop_access cfg spur (Ok (map_option BoxedRead l)) s) (\<lambda>s.
        drop_store cfg A s))))))"

definition example_remove_locked :: "'q store_test" where
  "example_remove_locked cfg A Q n lcg spur =
     (let s = new_u32_store cfg Q n in
      obind (store_insert cfg A Q lcg 42 s) (\<lambda>(i, lcg, s).
      obind (store_write cfg spur i s) (\<lambda>(r, s).
      obind (option_unwrap r) (\<lambda>l.
      obind (store_remove_locked cfg Q l s) (\<lambda>(v, s).
      assert_eq v 42 (
        drop_store cfg A s))))))"

definition example_read :: "'q store_test" where
  "example_read cfg A Q n lcg spur =
     (let s = new_u32_store cfg Q n in
      obind (store_insert cfg A Q lcg 42 s) (\<lambda>(i, lcg, s).
      obind (store_read cfg spur i s) (\<lambda>(r, s).
      obind (option_unwrap r) (\<lambda>l.
      obind (read_lock_deref cfg l (memory s)) (\<lambda>v.
      assert_eq v 42 (
      obind (drop_read_lock cfg spur l s) (\<lambda>s.
        drop_store cfg A s)))))))"

definition example_read_with_timeout :: "'q store_test" where
  "example_read_with_timeout cfg A Q n lcg spur =
     (let s = new_u32_store cfg Q n in
      obind (store_insert cfg A Q lcg 42 s) (\<lambda>(i, lcg, s).
      obind (store_write cfg spur i s) (\<lambda>(r, s).
      obind (option_unwrap r) (\<lambda>l.
      obind (read_with_timeout cfg spur i DontBlock s) (\<lambda>(r, s).
      assert_that (is_err r) (
      obind (drop_write_lock cfg l s) (\<lambda>s.
        drop_store cfg A s)))))))"

definition example_write :: "'q store_test" where
  "example_write cfg A Q n lcg spur =
     (let s = new_u32_store cfg Q n in
      obind (store_insert cfg A Q lcg 42 s) (\<lambda>(i, lcg, s).
      obind (store_write cfg spur i s) (\<lambda>(r, s).
      obind (option_unwrap r) (\<lambda>l.
      obind (assign cfg l 24 s) (\<lambda>s.
      obind (drop_write_lock cfg l s) (\<lambda>s.
        drop_store cfg A s))))))"

definition example_write_with_timeout :: "'q store_test" where
  "example_write_with_timeout cfg A Q n lcg spur =
     (let s = new_u32_store cfg Q n in
      obind (store_insert cfg A Q lcg 42 s) (\<lambda>(i, lcg, s).
      obind (store_read cfg spur i s) (\<lambda>(r, s).
      obind (option_unwrap r) (\<lambda>l.
      obind (write_with_timeout cfg spur i DontBlock s) (\<lambda>(r, s).
      assert_that (is_err r) (
      obind (drop_read_lock cfg spur l s) (\<lambda>s.
        drop_store cfg A s)))))))"

definition example_capacity :: "'q store_test" where
  "example_capacity cfg A Q n lcg spur =
     (let s = new_u32_store cfg Q n in
      obind (store_capacity cfg s) (\<lambda>c.
      assert_eq c (0, 0) (
      obind (store_insert cfg A Q lcg 42 s) (\<lambda>(i, lcg, s).
      obind (store_capacity cfg s) (\<lambda>(touched, allocated).
      assert_eq touched 1 (
      assert_that (1 \<le> allocated) (
        drop_store cfg A s)))))))"

definition example_read_lock :: "'q store_test" where
  "example_read_lock cfg A Q n lcg spur =
     (let s = new_u32_store cfg Q n in
      obind (store_insert cfg A Q lcg 42 s) (\<lambda>(i, lcg, s).
      obind (store_read cfg spur i s) (\<lambda>(r, s).
      obind (option_unwrap r) (\<lambda>l.
      obind (read_lock_deref cfg l (memory s)) (\<lambda>v.
      assert_eq v 42 (
      obind (write_with_timeout cfg spur i DontBlock s) (\<lambda>(r, s).
      assert_that (is_err r) (
      obind (drop_read_lock cfg spur l s) (\<lambda>s.
      obind (write_with_timeout cfg spur i DontBlock s) (\<lambda>(r, s).
      assert_that (\<not> is_err r) (
      obind (drop_access cfg spur (boxed_write r) s) (\<lambda>s.
        drop_store cfg A s))))))))))))"

definition example_write_lock :: "'q store_test" where
  "example_write_lock cfg A Q n lcg spur =
     (let s = new_u32_store cfg Q n in
      obind (store_insert cfg A Q lcg 42 s) (\<lambda>(i, lcg, s).
      obind (store_write cfg spur i s) (\<lambda>(r, s).
      obind (option_unwrap r) (\<lambda>l.
      obind (assign cfg l 24 s) (\<lambda>s.
      obind (write_lock_deref cfg l (memory s)) (\<lambda>v.
      assert_eq v 24 (
      obind (read_with_timeout cfg spur i DontBlock s) (\<lambda>(r, s).
      assert_that (is_err r) (
      obind (drop_write_lock cfg l s) (\<lambda>s.
      obind (read_with_timeout cfg spur i DontBlock s) (\<lambda>(r, s).
      assert_that (\<not> is_err r) (
      obind (drop_access cfg spur (boxed_read r) s) (\<lambda>s.
        drop_store cfg A s)))))))))))))"

definition store_tests :: "'q store_test list" where
  "store_tests =
     [test_store_insert_creates_disparate_ids,
      test_store_insert_reuses_space_after_removal,
      test_store_insert_reuses_space_after_locked_removal,
      test_store_insert_doesnt_reuse_id_ordinals,
      test_store_gen_remove_returns_the_element store_remove,
      test_store_gen_remove_returns_the_element remove_without_blocking,
      test_store_gen_remove_returns_none_after_removal store_remove,
      test_store_gen_remove_returns_none_after_removal remove_without_blocking,
      test_store_remove_with_timeout_fails_when_read_locked,
      test_store_remove_with_timeout_fails_when_write_locked,
      test_store_remove_locked_returns_the_element,
      test_store_remove_locked_removes_the_element,
      test_store_access_references_the_element read_operation,
      test_store_access_references_the_element write_operation,
      test_store_access_references_the_element read_with_timeout_operation,
      test_store_access_references_the_element write_with_timeout_operation,
      test_store_access_returns_none_after_removal read_operation,
      test_store_access_returns_none_after_removal write_operation,
      test_store_access_returns_none_after_removal read_with_timeout_operation,
      test_store_access_returns_none_after_removal write_with_timeout_operation,
      test_store_access_fails_when_locked write_operation write_with_timeout_operation,
      test_store_access_fails_when_locked read_operation write_with_timeout_operation,
      test_store_access_fails_when_locked write_operation read_with_timeout_operation,
      test_store_access_succeeds_when_locked read_operation read_operation,
      test_store_access_succeeds_when_locked read_with_timeout_operation read_operation,
      test_store_get_mut_references_the_element,
      test_store_get_mut_returns_none_after_removal,
      test_store_get_mut_unchecked_references_the_element,
      test_store_capacity_returns_zeroes_initially,
      test_store_capacity_increases_on_first_insertion,
      test_store_capacity_increases_on_second_insertion,
      test_store_capacity_doesnt_decrease_after_removal,
      test_store_capacity_doesnt_increase_on_insertion_after_removal,
      test_store_capacity_doesnt_increase_on_insertion_after_locked_removal]"

definition store_examples :: "'q store_test list" where
  "store_examples =
     [example_crate,
      example_remove,
      example_remove_with_timeout,
      example_remove_locked,
      example_read,
      example_read_with_timeout,
      example_write,
      example_write_with_timeout,
      example_capacity,
      example_read_lock,
      example_write_lock]"

lemmas store_test_defs =
  test_store_insert_creates_disparate_ids_def
  test_store_insert_reuses_space_after_removal_def
  test_store_insert_reuses_space_after_locked_removal_def
  test_store_insert_doesnt_reuse_id_ordinals_def
  test_store_gen_remove_returns_the_element_def
  test_store_gen_remove_returns_none_after_removal_def
  test_store_remove_with_timeout_fails_when_read_locked_def
  test_store_remove_with_timeout_fails_when_write_locked_def
  test_store_remove_locked_returns_the_element_def
  test_store_remove_locked_removes_the_element_def
  test_store_access_references_the_element_def
  test_store_access_returns_none_after_removal_def
  test_store_access_fails_when_locked_def
  test_store_access_succeeds_when_locked_def
  test_store_get_mut_references_the_element_def
  test_store_get_mut_returns_none_after_removal_def
  test_store_get_mut_unchecked_references_the_element_def
  test_store_capacity_returns_zeroes_initially_def
  test_store_capacity_increases_on_first_insertion_def
  test_store_capacity_increases_on_second_insertion_def
  test_store_capacity_doesnt_decrease_after_removal_def
  test_store_capacity_doesnt_increase_on_insertion_after_removal_def
  test_store_capacity_doesnt_increase_on_insertion_after_locked_removal_def
  example_crate_def
  example_remove_def
  example_remove_with_timeout_def
  example_remove_locked_def
  example_read_def
  example_read_with_timeout_def
  example_write_def
  example_write_with_timeout_def
  example_capacity_def
  example_read_lock_def
  example_write_lock_def

section \<open>A store of one slot\<close>

definition first_bucket :: "store_id \<Rightarrow> nat \<Rightarrow> bucket" where
  "first_bucket sid a = \<lparr>head = Some (Block None sid a 1), next_unused_slot = 1, bucket_store = sid\<rparr>"

definition one_store :: "store_id \<Rightarrow> nat \<Rightarrow> 'q \<Rightarrow> 'e slot \<Rightarrow> ('e, 'q) store" where
  "one_store sid k q sl =
     \<lparr>buckets = (replicate 16 (bucket_new sid))[k := first_bucket sid 0], erasures = q,
      store_ident = sid, memory = one_slot sl\<rparr>"

lemma one_store_simps [simp]:
  "memory (one_store sid k q sl) = one_slot sl"
  "erasures (one_store sid k q sl) = q"
  "store_ident (one_store sid k q sl) = sid"
  "(one_store sid k q sl)\<lparr>memory := one_slot sl'\<rparr> = one_store sid k q sl'"
  "(one_store sid k q sl)\<lparr>erasures := q'\<rparr> = one_store sid k q' sl"
  by (simp_all add: one_store_def)

lemma next_insert_location_new:
  assumes "block_fits A 32"
  shows "next_insert_location cfg A (bucket_new sid) h = Value (Address (allocations h) 0,
    first_bucket sid (allocations h),
    \<lparr>cells = (cells h)(Address (allocations h) 0 \<mapsto> \<lparr>slot_header = pack False 0 0, slot_value = None\<rparr>),
      allocations = Suc (allocations h)\<rparr>)"
  using assms
  by (simp add: next_insert_location_def next_insert_location_slow_def inner_next_insert_location_def
      bucket_new_def bucket_expand_def INITIAL_BLOCK_SIZE_def option_unwrap_def Let_def block_new_one
      only_slot fetch_add_def store_directly_def first_bucket_def)

definition first_bucket_id :: "u32 \<Rightarrow> nat" where
  "first_bucket_id lcg = unat (fst (arbitrary_bucket_id lcg))"

lemma first_bucket_id_less [simp]: "first_bucket_id lcg < 16"
  using arbitrary_bucket_id_less [of lcg] by (simp add: first_bucket_id_def BUCKET_COUNT_def)

lemma insert_first:
  assumes "fifo Q" and "block_fits A 32"
  shows "store_insert cfg A Q lcg e (fst (store_new cfg Q n)) =
    Value (id_new 0 (Address 0 0) (fst (store_id_generate cfg n)), snd (arbitrary_bucket_id lcg),
      one_store (fst (store_id_generate cfg n)) (first_bucket_id lcg) (q_new Q)
        \<lparr>slot_header = pack True 0 0, slot_value = Some e\<rparr>)"
proof -
  have "q_pop Q (q_new Q) = None"
    using assms(1) by (simp add: fifo.pop_empty fifo.new_empty)
  then show ?thesis
    using first_bucket_id_less [of lcg]
    by (simp add: store_insert_def store_new_def first_bucket_id_def case_prod_beta Let_def
        BUCKET_COUNT_def next_insert_location_new assms(2) block_insert_def init_value_def
        header_eval small_ids one_store_def one_slot_def set_slot_def)
qed

text \<open>Inserting again once the slot has been recycled.\<close>

definition after_pop :: "'q erasure_queue \<Rightarrow> address \<Rightarrow> 'q" where
  "after_pop Q p = snd (the (q_pop Q (q_push Q p (q_new Q))))"

lemma pop_pushed: "fifo Q \<Longrightarrow> q_pop Q (q_push Q p (q_new Q)) = Some (p, after_pop Q p)"
  by (cases rule: fifo.pop_cases [of Q "q_push Q p (q_new Q)"])
    (auto simp: fifo.push_last fifo.new_empty after_pop_def)

text \<open>Inserting twice uses two buckets.\<close>

definition two_store :: "store_id \<Rightarrow> nat \<Rightarrow> nat \<Rightarrow> 'q \<Rightarrow> 'e slot \<Rightarrow> 'e slot \<Rightarrow> ('e, 'q) store" where
  "two_store sid k k' q sl sl' =
     \<lparr>buckets = (replicate 16 (bucket_new sid))[k := first_bucket sid 0, k' := first_bucket sid 1],
      erasures = q, store_ident = sid,
      memory = \<lparr>cells = [Address 0 0 \<mapsto> sl, Address 1 0 \<mapsto> sl'], allocations = 2\<rparr>\<rparr>"

lemma second_bucket: "first_bucket_id (snd (arbitrary_bucket_id lcg)) \<noteq> first_bucket_id lcg"
proof -
  define x where "x = unat lcg mod 16"
  have "[first_bucket_id lcg, first_bucket_id (snd (arbitrary_bucket_id lcg))] = residue_draws 2 x"
    using bucket_draws_residues [of 2 lcg]
    by (simp add: first_bucket_id_def case_prod_beta x_def numeral_2_eq_2)
  then have eq: "first_bucket_id (snd (arbitrary_bucket_id lcg)) = (13 * first_bucket_id lcg + 9) mod 16"
    by (simp add: numeral_2_eq_2 Let_def)
  have "(13 * y + 9) mod 16 \<noteq> y" for y :: nat
  proof
    assume y: "(13 * y + 9) mod 16 = y"
    have "(13 * y + 9) mod 16 mod 2 = (13 * y + 9) mod 2" by (rule mod_mod_cancel) simp
    then have "even y \<longleftrightarrow> even (13 * y + 9)" unfolding y by (simp add: even_iff_mod_2_eq_zero)
    then show False by simp
  qed
  then show ?thesis using eq by simp
qed

lemma insert_second:
  assumes "fifo Q" and "block_fits A 32"
  shows "store_insert cfg A Q (snd (arbitrary_bucket_id lcg)) e
      (one_store sid (first_bucket_id lcg) (q_new Q) sl) =
    Value (id_new 0 (Address 1 0) sid, snd (arbitrary_bucket_id (snd (arbitrary_bucket_id lcg))),
      two_store sid (first_bucket_id lcg) (first_bucket_id (snd (arbitrary_bucket_id lcg))) (q_new Q) sl
        \<lparr>slot_header = pack True 0 0, slot_value = Some e\<rparr>)"
proof -
  let ?lcg = "snd (arbitrary_bucket_id lcg)"
  have "q_pop Q (q_new Q) = None"
    using assms(1) by (simp add: fifo.pop_empty fifo.new_empty)
  moreover have "buckets (one_store sid (first_bucket_id lcg) (q_new Q) sl) ! first_bucket_id ?lcg = bucket_new sid"
    "length (buckets (one_store sid (first_bucket_id lcg) (q_new Q) sl)) = 16"
    using second_bucket [of lcg] first_bucket_id_less [of ?lcg] by (simp_all add: one_store_def)
  ultimately show ?thesis
    using first_bucket_id_less [of ?lcg] second_bucket [of lcg] unfolding first_bucket_id_def [of ?lcg]
    by (simp add: store_insert_def case_prod_beta Let_def next_insert_location_new assms(2)
        block_insert_def init_value_def header_eval small_ids)
      (simp add: one_store_def two_store_def one_slot_def set_slot_def numeral_2_eq_2)
qed

text \<open>Capacity and destructor, bucket by bucket.\<close>

lemma bucket_capacity_small:
  "bucket_capacity cfg (bucket_new sid) = Value (0, 0)"
  "bucket_capacity cfg (first_bucket sid a) = Value (1, 1)"
proof -
  have "total_size_loop cfg 0 0 1 = Some (Value 0)"
    by (subst total_size_loop.simps) simp
  moreover have "total_size_loop cfg 1 0 1 = Some (Value 1)"
    by (simp add: total_size_loop.simps [of cfg 1 0 1] total_size_loop.simps [of cfg 1 1 2]
        checked_add_def checked_mul_def RESIZE_FACTOR_def word_le_nat_alt)
  ultimately show "bucket_capacity cfg (bucket_new sid) = Value (0, 0)"
      "bucket_capacity cfg (first_bucket sid a) = Value (1, 1)"
    by (simp_all add: bucket_capacity_def bucket_new_def first_bucket_def head_len_def Let_def
        head_size_to_total_size_def INITIAL_BLOCK_SIZE_def load_def checked_sub_def)
qed

lemma sum_capacity_counts:
  assumes "\<forall>b \<in> set bs. b = bucket_new sid \<or> (\<exists>a. b = first_bucket sid a)"
    and "unat t + length bs < 2 ^ 32"
  shows "sum_capacity cfg bs (t, t) =
    (let c = t + of_nat (length (filter (\<lambda>b. b \<noteq> bucket_new sid) bs)) in Value (c, c))"
  using assms
proof (induction bs arbitrary: t)
  case (Cons b bs)
  have new: "first_bucket sid a \<noteq> bucket_new sid" for a
    by (simp add: first_bucket_def bucket_new_def)
  have step: "checked_add cfg t 1 = Value (t + 1)" "unat (t + 1) = unat t + 1"
    using Cons.prems(2) unat_add_lem [of t 1] by (simp_all add: checked_add_ok)
  have "sum_capacity cfg bs (t + 1, t + 1) =
      (let c = t + 1 + of_nat (length (filter (\<lambda>b. b \<noteq> bucket_new sid) bs)) in Value (c, c))"
    "sum_capacity cfg bs (t, t) =
      (let c = t + of_nat (length (filter (\<lambda>b. b \<noteq> bucket_new sid) bs)) in Value (c, c))"
    using Cons.IH [of "t + 1"] Cons.IH [of t] Cons.prems step(2) by auto
  moreover have "checked_add cfg t 0 = Value t"
    using unat_u32_less [of t] by (simp add: checked_add_def)
  ultimately show ?case
    using Cons.prems(1) step(1) new by (auto simp: bucket_capacity_small Let_def add_ac)
qed (simp add: Let_def)

lemma filter_update:
  "k < length xs \<Longrightarrow> \<not> P (xs ! k) \<Longrightarrow> P x \<Longrightarrow>
    length (filter P (xs[k := x])) = Suc (length (filter P xs))"
  by (induction xs arbitrary: k) (auto split: nat.split)

lemma store_capacity_small:
  "store_capacity cfg (new_u32_store cfg' Q n) = Value (0, 0)"
  "k < 16 \<Longrightarrow> store_capacity cfg (one_store sid k q sl) = Value (1, 1)"
  "k < 16 \<Longrightarrow> k' < 16 \<Longrightarrow> k' \<noteq> k \<Longrightarrow> store_capacity cfg (two_store sid k k' q sl sl') = Value (2, 2)"
proof -
  let ?new = "replicate 16 (bucket_new sid)"
  have first: "first_bucket sid a \<noteq> bucket_new sid" for a
    by (simp add: first_bucket_def bucket_new_def)
  have kinds: "b = bucket_new sid \<or> (\<exists>a. b = first_bucket sid a)"
    if "b \<in> set (?new[k := first_bucket sid a, k' := first_bucket sid a'])" for b k k' a a'
    using that by (auto dest!: subsetD [OF set_update_subset_insert])
  have kinds1: "\<forall>b \<in> set (?new[k := first_bucket sid a]). b = bucket_new sid \<or> (\<exists>a. b = first_bucket sid a)"
    for k a
    by (auto dest!: subsetD [OF set_update_subset_insert])
  note sums = sum_capacity_counts [where sid = sid and t = 0]
  show "store_capacity cfg (new_u32_store cfg' Q n) = Value (0, 0)"
    by (simp add: store_capacity_def new_u32_store_def store_new_def case_prod_beta Let_def BUCKET_COUNT_def
        sum_capacity_counts [where sid = "fst (store_id_generate cfg' n)" and t = 0])
  show "store_capacity cfg (one_store sid k q sl) = Value (1, 1)" if "k < 16"
    using sums [of "?new[k := first_bucket sid 0]" cfg] kinds1 that
    by (simp add: store_capacity_def one_store_def filter_update first Let_def)
  show "store_capacity cfg (two_store sid k k' q sl sl') = Value (2, 2)"
    if "k < 16" "k' < 16" "k' \<noteq> k"
    using sums [of "?new[k := first_bucket sid 0, k' := first_bucket sid 1]" cfg] kinds that
    by (simp add: store_capacity_def two_store_def filter_update first Let_def)
qed

definition droppable :: "'e slot \<Rightarrow> bool" where
  "droppable sl \<longleftrightarrow> (\<exists>n i v. sl = \<lparr>slot_header = pack n 0 i, slot_value = Some v\<rparr>)"

lemma drop_buckets_small:
  assumes "\<not> element_needs_drop A"
    and "\<forall>b \<in> set bs. b = bucket_new sid \<or>
      (\<exists>a sl. b = first_bucket sid a \<and> cells h (Address a 0) = Some sl \<and> droppable sl)"
  shows "\<exists>ds. drop_buckets cfg A False bs h = Value ds"
  using assms(2)
proof (induction bs)
  case (Cons b bs)
  moreover have "\<exists>ds. slot_drop cfg A False sl = Value ds" if "droppable sl" for sl :: "'a slot"
    using that by (auto simp: droppable_def slot_drop_free [OF assms(1)])
  ultimately show ?case by (fastforce simp: bucket_new_def first_bucket_def)
qed simp

lemma drop_store_small:
  assumes "\<not> element_needs_drop A"
  shows "drop_store cfg A (new_u32_store cfg' Q n) = Value ()"
    and "droppable sl \<Longrightarrow> drop_store cfg A (one_store sid k q sl) = Value ()"
    and "droppable sl \<Longrightarrow> droppable sl' \<Longrightarrow> drop_store cfg A (two_store sid k k' q sl sl') = Value ()"
proof -
  show "drop_store cfg A (new_u32_store cfg' Q n) = Value ()"
    using drop_buckets_small [OF assms, of "buckets (new_u32_store cfg' Q n)"
        "store_ident (new_u32_store cfg' Q n)"
        "memory (new_u32_store cfg' Q n)" cfg]
    by (fastforce simp: drop_store_def store_drop_def new_u32_store_def store_new_def case_prod_beta Let_def)
  show "drop_store cfg A (one_store sid k q sl) = Value ()" if "droppable sl"
    using drop_buckets_small [OF assms, of "buckets (one_store sid k q sl)" sid "one_slot sl" cfg] that
    by (fastforce simp: drop_store_def store_drop_def one_store_def
        dest: subsetD [OF set_update_subset_insert])
  show "drop_store cfg A (two_store sid k k' q sl sl') = Value ()" if "droppable sl" "droppable sl'"
    using drop_buckets_small [OF assms, of "buckets (two_store sid k k' q sl sl')" sid
        "memory (two_store sid k k' q sl sl')" cfg] that
    by (fastforce simp: drop_store_def store_drop_def two_store_def
        dest!: subsetD [OF set_update_subset_insert])
qed

section \<open>They pass\<close>

lemma droppable_slot [simp]: "droppable \<lparr>slot_header = pack n 0 i, slot_value = Some v\<rparr>"
  by (auto simp: droppable_def)

text \<open>The operations unfolded down to the header.\<close>

lemmas store_operation_defs = store_remove_def remove_with_timeout_def store_remove_locked_def
  store_read_def read_with_timeout_def store_write_def write_with_timeout_def result_unwrap_def
  assert_native_id_def push_erasure_def drop_read_lock_def drop_write_lock_def read_lock_drop_def
  write_lock_drop_def read_lock_deref_def write_lock_deref_def write_lock_assign_def
  write_lock_forget_def store_get_mut_def store_get_mut_unchecked_def block_remove_def
  block_remove_locked_def block_lock_read_def block_unlock_read_def block_lock_write_def
  block_unlock_write_def block_get_unchecked_def block_get_exclusive_def

lemmas test_helper_defs = read_operation_def write_operation_def read_with_timeout_operation_def
  write_with_timeout_operation_def remove_without_blocking_def assign_def pointee_def drop_access_def

lemma insert_recycled:
  assumes "fifo Q"
  shows "store_insert cfg A Q lcg e
      (one_store sid k (q_push Q (Address 0 0) (q_new Q)) \<lparr>slot_header = pack False 0 1, slot_value = m\<rparr>) =
    Value (id_new 1 (Address 0 0) sid, lcg, one_store sid k (after_pop Q (Address 0 0))
        \<lparr>slot_header = pack True 0 1, slot_value = Some e\<rparr>)"
  by (simp add: store_insert_def pop_pushed [OF assms] block_insert_def init_value_def header_eval
      small_ids)

lemma insert_into_new:
  assumes "fifo Q" and "block_fits A 32"
  shows "store_insert cfg A Q lcg e (new_u32_store cfg Q n) =
    Value (id_new 0 (Address 0 0) (fst (store_id_generate cfg n)), snd (arbitrary_bucket_id lcg),
      one_store (fst (store_id_generate cfg n)) (first_bucket_id lcg) (q_new Q)
        \<lparr>slot_header = pack True 0 0, slot_value = Some e\<rparr>)"
  unfolding new_u32_store_def by (rule insert_first [OF assms])

text \<open>
  The store behaves as its unit tests demand. All unit tests of \<open>lib.rs\<close> pass, in every
  build, whatever the state of the bucket generator and the identity of the store are, however
  often the weak exchange fails, and over every queue that meets the contract of a queue: IDs
  of different elements differ, slots are reused but IDs are not, removals, locks and \<open>get_mut\<close>
  give the element while it is there and nothing later, locks exclude each other, and the
  capacity counts slots.
\<close>

lemma store_tests_pass:
  assumes "fifo Q" and "block_fits A 32" and "\<not> element_needs_drop A"
  shows "list_all (\<lambda>test. passes (test cfg A Q n lcg spur)) store_tests"
  using second_bucket [of lcg]
  by (simp add: store_tests_def store_test_defs test_helper_defs store_operation_defs
      case_prod_beta Let_def insert_into_new [OF assms(1,2)] insert_second [OF assms(1,2)]
      insert_recycled [OF assms(1)] option_unwrap_def debug_assert_holds header_eval small_ids
      checked_add_id store_capacity_small drop_store_small [OF assms(3)] read_element_def
      write_element_def header_id_def)

text \<open>
  The examples in the documentation of \<open>lib.rs\<close> and \<open>lock.rs\<close> run as they are written:
  each of them passes, for all the same parameters.
\<close>

lemma store_examples_pass:
  assumes "fifo Q" and "block_fits A 32" and "\<not> element_needs_drop A"
  shows "list_all (\<lambda>test. passes (test cfg A Q n lcg spur)) store_examples"
  by (simp add: store_examples_def store_test_defs test_helper_defs store_operation_defs
      case_prod_beta Let_def insert_into_new [OF assms(1,2)] insert_second [OF assms(1,2)]
      insert_recycled [OF assms(1)] option_unwrap_def debug_assert_holds header_eval small_ids
      checked_add_id store_capacity_small drop_store_small [OF assms(3)] read_element_def
      write_element_def header_id_def)

end
