(* ===== verification/RwIterTests.thy ===== *)
theory RwIterTests
  imports RwStoreTests RwIterStore
begin

text \<open>
  The unit tests of \<open>src/src/iter.rs\<close> and its examples, on the model of the iterators.
  \<open>consume\<close> is the loop inside \<open>Iterator::count\<close> and \<open>Iterator::sum\<close>; it calls \<open>next\<close> until that
  returns \<open>None\<close>, so it is partial, and the tests show that it returns.
\<close>

section \<open>Consuming an iterator\<close>

partial_function (option) consume ::
  "('i \<Rightarrow> 'e heap \<Rightarrow> (('item option \<times> 'e list) \<times> 'i \<times> 'e heap) outcome) \<Rightarrow>
    ('acc \<Rightarrow> 'item \<Rightarrow> 'e heap \<Rightarrow> 'acc outcome) \<Rightarrow> 'i \<Rightarrow> 'e heap \<Rightarrow> 'acc \<Rightarrow>
    ('acc \<times> 'i \<times> 'e heap) outcome option" where
  "consume next step it h acc =
     (case next it h of
        Value ((None, _), it', h') \<Rightarrow> Some (Value (acc, it', h'))
      | Value ((Some x, _), it', h') \<Rightarrow>
          (case step acc x h' of
             Value acc' \<Rightarrow> consume next step it' h' acc'
           | Fault e \<Rightarrow> Some (Fault e)
           | Hang \<Rightarrow> Some Hang)
      | Fault e \<Rightarrow> Some (Fault e)
      | Hang \<Rightarrow> Some Hang)"

definition count_step :: "build \<Rightarrow> u64 \<Rightarrow> 'item \<Rightarrow> 'e heap \<Rightarrow> u64 outcome" where
  "count_step cfg n _ _ = checked_add cfg n 1"

definition sum_values :: "build \<Rightarrow> u32 \<Rightarrow> elem_id \<times> u32 \<Rightarrow> u32 heap \<Rightarrow> u32 outcome" where
  "sum_values cfg acc item _ = checked_add cfg acc (snd item)"

definition sum_references :: "build \<Rightarrow> u32 \<Rightarrow> elem_id \<times> address \<Rightarrow> u32 heap \<Rightarrow> u32 outcome" where
  "sum_references cfg acc item h =
     obind (read_element h (snd item)) (\<lambda>v. checked_add cfg acc v)"

text \<open>An owned iterator is dropped when it has been consumed, a mutable one leaves the store.\<close>

definition consume_into_iter ::
  "build \<Rightarrow> platform \<Rightarrow> ('acc \<Rightarrow> elem_id \<times> 'e \<Rightarrow> 'e heap \<Rightarrow> 'acc outcome) \<Rightarrow> 'acc \<Rightarrow>
    ('e, 'q) store \<Rightarrow> 'acc outcome" where
  "consume_into_iter cfg A step acc s =
     obind (returns (consume (into_iter_next cfg A False) step (store_into_iter s) (memory s) acc))
       (\<lambda>(acc, it, h). omap (\<lambda>_. acc) (into_iter_drop cfg A False it h))"

definition consume_iter_mut ::
  "build \<Rightarrow> platform \<Rightarrow> ('acc \<Rightarrow> elem_id \<times> address \<Rightarrow> 'e heap \<Rightarrow> 'acc outcome) \<Rightarrow> 'acc \<Rightarrow>
    ('e, 'q) store \<Rightarrow> 'acc outcome" where
  "consume_iter_mut cfg A step acc s =
     obind (returns (consume (iter_mut_next cfg) step (store_iter_mut s) (memory s) acc))
       (\<lambda>(acc, _, h). omap (\<lambda>_. acc) (drop_store cfg A (s\<lparr>memory := h\<rparr>)))"

section \<open>The tests\<close>

text \<open>A loop that inserts the elements of a list.\<close>

primrec insert_all ::
  "build \<Rightarrow> platform \<Rightarrow> 'q erasure_queue \<Rightarrow> u32 \<Rightarrow> 'e list \<Rightarrow> ('e, 'q) store \<Rightarrow>
    (elem_id list \<times> u32 \<times> ('e, 'q) store) outcome" where
  "insert_all cfg A Q lcg [] s = Value ([], lcg, s)"
| "insert_all cfg A Q lcg (v # vs) s =
     obind (store_insert cfg A Q lcg v s) (\<lambda>(i, lcg, s).
       omap (\<lambda>(is, rest). (i # is, rest)) (insert_all cfg A Q lcg vs s))"

definition test_iter_has_correct_size ::
  "(build \<Rightarrow> platform \<Rightarrow> (u32, 'q) store \<Rightarrow> u64 outcome) \<Rightarrow> 'q store_test" where
  "test_iter_has_correct_size counter cfg A Q n lcg spur =
     obind (insert_all cfg A Q lcg (map of_nat [0..<42]) (new_u32_store cfg Q n)) (\<lambda>(_, lcg, s).
     obind (counter cfg A s) (\<lambda>c.
     assert_eq c 42 (
     obind (store_insert cfg A Q lcg 42 (new_u32_store cfg Q (n + 1))) (\<lambda>(_, lcg, s).
     obind (counter cfg A s) (\<lambda>c.
     assert_eq c 1 (
     obind (counter cfg A (new_u32_store cfg Q (n + 2))) (\<lambda>c.
     assert_eq c 0 (
       Value ()))))))))"

definition test_iter_has_correct_elements ::
  "(build \<Rightarrow> platform \<Rightarrow> (u32, 'q) store \<Rightarrow> u32 outcome) \<Rightarrow> 'q store_test" where
  "test_iter_has_correct_elements adder cfg A Q n lcg spur =
     obind (store_insert cfg A Q lcg 1 (new_u32_store cfg Q n)) (\<lambda>(_, lcg, s).
     obind (store_insert cfg A Q lcg 2 s) (\<lambda>(_, lcg, s).
     obind (store_insert cfg A Q lcg 4 s) (\<lambda>(_, lcg, s).
     obind (adder cfg A s) (\<lambda>c.
     assert_eq c 7 (
     obind (insert_all cfg A Q lcg (map of_nat [1..<43]) (new_u32_store cfg Q (n + 1))) (\<lambda>(_, lcg, s).
     obind (adder cfg A s) (\<lambda>c.
     assert_eq c 903 (
     obind (adder cfg A (new_u32_store cfg Q (n + 2))) (\<lambda>c.
     assert_eq c 0 (
       Value ()))))))))))"

definition test_iter_skips_removed_elements ::
  "(build \<Rightarrow> platform \<Rightarrow> (u32, 'q) store \<Rightarrow> u32 outcome) \<Rightarrow> 'q store_test" where
  "test_iter_skips_removed_elements adder cfg A Q n lcg spur =
     obind (store_insert cfg A Q lcg 1 (new_u32_store cfg Q n)) (\<lambda>(_, lcg, s).
     obind (store_insert cfg A Q lcg 2 s) (\<lambda>(i, lcg, s).
     obind (store_insert cfg A Q lcg 4 s) (\<lambda>(_, lcg, s).
     obind (store_remove cfg Q spur i s) (\<lambda>(r, s).
     obind (option_unwrap r) (\<lambda>_.
     obind (adder cfg A s) (\<lambda>c.
     assert_eq c 5 (
       Value ())))))))"

definition iter_tests :: "'q store_test list" where
  "iter_tests =
     [test_iter_has_correct_size (\<lambda>cfg A. consume_into_iter cfg A (count_step cfg) 0),
      test_iter_has_correct_size (\<lambda>cfg A. consume_iter_mut cfg A (count_step cfg) 0),
      test_iter_has_correct_elements (\<lambda>cfg A. consume_into_iter cfg A (sum_values cfg) 0),
      test_iter_has_correct_elements (\<lambda>cfg A. consume_iter_mut cfg A (sum_references cfg) 0),
      test_iter_skips_removed_elements (\<lambda>cfg A. consume_into_iter cfg A (sum_values cfg) 0),
      test_iter_skips_removed_elements (\<lambda>cfg A. consume_iter_mut cfg A (sum_references cfg) 0)]"

definition example_into_iter :: "'q store_test" where
  "example_into_iter cfg A Q n lcg spur =
     obind (store_insert cfg A Q lcg 42 (new_u32_store cfg Q n)) (\<lambda>(_, _, s).
     obind (into_iter_next cfg A False (store_into_iter s) (memory s)) (\<lambda>((r, _), it, h).
     obind (option_unwrap r) (\<lambda>(_, v).
     assert_eq v 42 (
     obind (into_iter_next cfg A False it h) (\<lambda>((r, _), it, h).
     assert_that (Option.is_none r) (
       omap (\<lambda>_. ()) (into_iter_drop cfg A False it h)))))))"

definition example_iter_mut :: "'q store_test" where
  "example_iter_mut cfg A Q n lcg spur =
     obind (store_insert cfg A Q lcg 42 (new_u32_store cfg Q n)) (\<lambda>(_, _, s).
     obind (iter_mut_next cfg (store_iter_mut s) (memory s)) (\<lambda>((r, _), it, h).
     obind (option_unwrap r) (\<lambda>(_, p).
     obind (read_element h p) (\<lambda>v.
     assert_eq v 42 (
     obind (iter_mut_next cfg it h) (\<lambda>((r, _), it, h).
     assert_that (Option.is_none r) (
       drop_store cfg A (s\<lparr>memory := h\<rparr>))))))))"

section \<open>Inserting many elements\<close>

lemma insert_touched:
  fixes s :: "('e, 'q) store"
  assumes Q: "fifo Q" and ok: "store_ok Q s" and room: "\<forall>b \<in> set (buckets s). room A b"
    and ins: "store_insert cfg A Q lcg e s = Value (i, lcg', s')"
  shows "length (touched s') \<le> Suc (length (touched s))"
proof (cases rule: fifo.pop_cases [OF Q, of "erasures s"])
  case (2 p q')
  with ins have "buckets s' = buckets s" by (auto simp: store_insert_def obind_Value_iff)
  then show ?thesis by (simp add: touched_def)
next
  case 1
  obtain k lcg1 where lcg: "arbitrary_bucket_id lcg = (k, lcg1)" by fastforce
  have n: "unat k < length (buckets s)"
    using ok arbitrary_bucket_id_less [of lcg] lcg by (simp add: store_ok_def frame_ok_def)
  then have b: "buckets s ! unat k \<in> set (buckets s)" by simp
  with ok room have "bucket_ok (store_ident s) (buckets s ! unat k)" "settled (buckets s ! unat k)"
      "room A (buckets s ! unat k)" "bases_allocated (memory s) (buckets s ! unat k)"
      "untouched_fresh (memory s) (buckets s ! unat k)"
    by (auto simp: store_ok_def frame_ok_def slots_ok_def untouched_fresh_def untouched_def)
  then obtain p b' h' where
      next': "next_insert_location cfg A (buckets s ! unat k) (memory s) = Value (p, b', h')"
      and out: "hands_out (store_ident s) p (buckets s ! unat k) (memory s) b' h'"
    by (rule next_insert_location_spec)
  have "buckets s' = (buckets s)[unat k := b']"
    using ins 1 lcg n next' by (auto simp: store_insert_def obind_Value_iff Let_def)
  moreover have "touched_slots b' = p # touched_slots (buckets s ! unat k)"
    using out by (simp add: hands_out_def)
  moreover have "length (touched_slots (buckets s ! unat k)) \<le> length (touched s)"
    using b by (auto simp: touched_def length_concat intro!: member_le_sum_list)
  ultimately show ?thesis
    using n by (simp add: touched_def length_concat map_update sum_list_update)
qed

lemma room_for_more:
  fixes s :: "('e, 'q) store"
  assumes "store_ok Q s" and "\<And>k. k < 32 \<Longrightarrow> block_fits A (2 ^ k)" and "length (touched s) < 2147483647"
  shows "\<forall>b \<in> set (buckets s). room A b"
proof
  fix b
  assume b: "b \<in> set (buckets s)"
  then have "length (touched_slots b) \<le> length (touched s)"
    by (auto simp: touched_def length_concat intro!: member_le_sum_list)
  with depth_bound [of "store_ident s" b] assms b show "room A b"
    by (auto simp: store_ok_def frame_ok_def room_def)
qed

text \<open>What a store holds, as a multiset.\<close>

definition contents :: "('e, 'q) store \<Rightarrow> (elem_id \<times> 'e) multiset" where
  "contents s = mset (live_list s)"

definition quiet :: "'q erasure_queue \<Rightarrow> nat \<Rightarrow> ('e, 'q) store \<Rightarrow> bool" where
  "quiet Q n s \<longleftrightarrow> store_ok Q s \<and> all_free s \<and> length (touched s) \<le> n"

lemma contents_entries:
  assumes "store_ok Q s"
  shows "contents s = mset_set {(i, v). \<exists>l. abs_store s i = Some (v, l)}"
    and "finite {(i, v). \<exists>l. abs_store s i = Some (v, l)}"
proof -
  have eq: "set (live_list s) = {(i, v). \<exists>l. abs_store s i = Some (v, l)}"
    using live_list_spec(2) [OF assms] by auto
  have "distinct (live_list s)" using live_list_spec(1) [OF assms] by (simp add: distinct_map)
  then show "contents s = mset_set {(i, v). \<exists>l. abs_store s i = Some (v, l)}"
    unfolding contents_def eq [symmetric] by (rule mset_set_set [symmetric])
  show "finite {(i, v). \<exists>l. abs_store s i = Some (v, l)}"
    unfolding eq [symmetric] by simp
qed

lemma contents_new: "quiet Q n s \<Longrightarrow> abs_store s = Map.empty \<Longrightarrow> contents s = {#}"
  using contents_entries(1) [of Q s] by (simp add: quiet_def)

lemma contents_insert:
  assumes "store_ok Q s" "store_ok Q s'" "abs_store s' = (abs_store s)(i \<mapsto> (v, Free))" "abs_store s i = None"
  shows "contents s' = add_mset (i, v) (contents s)"
proof -
  let ?S = "{(i, v). \<exists>l. abs_store s i = Some (v, l)}"
  have "{(j, u). \<exists>l. abs_store s' j = Some (u, l)} = insert (i, v) ?S"
    using assms(3,4) by (auto split: if_splits)
  then show ?thesis
    using contents_entries [OF assms(1)] contents_entries(1) [OF assms(2)] assms(4) by simp
qed

lemma contents_remove:
  assumes "store_ok Q s" "store_ok Q s'" "abs_store s' = (abs_store s)(i := None)"
    and "abs_store s i = Some (v, l)"
  shows "contents s = add_mset (i, v) (contents s')"
proof -
  let ?S = "{(i, v). \<exists>l. abs_store s' i = Some (v, l)}"
  have "{(j, u). \<exists>l. abs_store s j = Some (u, l)} = insert (i, v) ?S"
    using assms(3,4) by (auto split: if_splits)
  then show ?thesis
    using contents_entries [OF assms(2)] contents_entries(1) [OF assms(1)] assms(3) by simp
qed

lemma new_store_quiet:
  fixes Q :: "'q erasure_queue"
  assumes "fifo Q"
  shows "quiet Q 0 (fst (store_new cfg Q n) :: ('e, 'q) store)"
    and "contents (fst (store_new cfg Q n) :: ('e, 'q) store) = {#}"
proof -
  obtain s c where new: "store_new cfg Q n = (s :: ('e, 'q) store, c)" by fastforce
  note facts = store_new_ok [OF assms new]
  have "concat (replicate k []) = []" for k by (induction k) simp_all
  then have "touched s = []" by (simp add: touched_def facts(4) bucket_new_ok)
  then have "quiet Q 0 s" using facts by (simp add: quiet_def all_free_def)
  then show "quiet Q 0 (fst (store_new cfg Q n) :: ('e, 'q) store)"
    "contents (fst (store_new cfg Q n) :: ('e, 'q) store) = {#}"
    using contents_new [of Q 0 s] facts by (simp_all add: new)
qed

lemma new_quiet:
  assumes "fifo Q"
  shows "quiet Q 0 (new_u32_store cfg Q n)" and "contents (new_u32_store cfg Q n) = {#}"
  using new_store_quiet [OF assms, where 'e = u32] by (simp_all add: new_u32_store_def)

lemma insert_quiet:
  assumes Q: "fifo Q" and fits: "\<And>k. k < 32 \<Longrightarrow> block_fits A (2 ^ k)"
    and s: "quiet Q n s" and n: "n < 2147483647"
  shows "\<exists>i lcg' s'. store_insert cfg A Q lcg v s = Value (i, lcg', s') \<and> quiet Q (Suc n) s' \<and>
    contents s' = add_mset (i, v) (contents s) \<and> abs_store s' i = Some (v, Free) \<and>
    i \<notin> issued_ids s \<and> issued_ids s' = insert i (issued_ids s) \<and>
    (\<forall>j. j \<noteq> i \<longrightarrow> abs_store s' j = abs_store s j)"
proof -
  have ok: "store_ok Q s" "all_free s" and "length (touched s) < 2147483647"
    using s n by (simp_all add: quiet_def)
  note room = room_for_more [OF ok(1) fits this(3)]
  obtain i lcg' s' where ins: "store_insert cfg A Q lcg v s = Value (i, lcg', s')" "store_ok Q s'"
      "i \<notin> issued_ids s" "issued_ids s' = insert i (issued_ids s)"
      "abs_store s' = (abs_store s)(i \<mapsto> (v, Free))"
    using insert_step [OF Q ok(1) room] by blast
  have "length (touched s') \<le> Suc n"
    using insert_touched [OF Q ok(1) room ins(1)] s by (simp add: quiet_def)
  then have "quiet Q (Suc n) s'" using ok(2) ins(2,5) by (simp add: quiet_def all_free_def)
  moreover have "abs_store s i = None"
    using present_issued [OF ok(1), of i] ins(3) by (cases "abs_store s i") auto
  then have "contents s' = add_mset (i, v) (contents s)"
    by (rule contents_insert [OF ok(1) ins(2,5)])
  ultimately show ?thesis using ins by auto
qed

lemma remove_keeps_buckets:
  assumes "remove_with_timeout cfg Q spur i t s = Value (r, s')"
  shows "buckets s' = buckets s"
proof -
  from assms obtain r1 h1 where "block_remove cfg spur i t (memory s) = Value (r1, h1)"
    by (auto simp: remove_with_timeout_def assert_native_id_def debug_assert_Value_iff obind_Value_iff)
  with assms show ?thesis
    by (cases r1; cases "\<exists>e. r1 = Ok (Some e)")
      (auto simp: remove_with_timeout_def assert_native_id_def debug_assert_Value_iff push_erasure_def
        Let_def split: option.split_asm)
qed

lemma remove_quiet:
  assumes Q: "fifo Q" and s: "quiet Q n s" and i: "i \<in> issued_ids s" "abs_store s i = Some (v, Free)"
  shows "\<exists>s'. store_remove cfg Q spur i s = Value (Some v, s') \<and> quiet Q n s' \<and>
    contents s = add_mset (i, v) (contents s')"
proof -
  have ok: "store_ok Q s" "all_free s" using s by (simp_all add: quiet_def)
  obtain s' where rem: "remove_with_timeout cfg Q spur i BlockIndefinitely s = Value (Ok (Some v), s')"
      "store_ok Q s'" "abs_store s' = (abs_store s)(i := None)"
    using remove_step [OF Q ok(1) i(1), of cfg spur BlockIndefinitely] i(2)
    by (auto simp: refines_def spec_remove_def omap_Value_iff)
  have "touched s' = touched s" using remove_keeps_buckets [OF rem(1)] by (simp add: touched_def)
  then have "quiet Q n s'" using s rem(2,3) by (simp add: quiet_def all_free_def)
  with rem contents_remove [OF ok(1) rem(2,3) i(2)] show ?thesis
    by (auto simp: store_remove_def result_unwrap_def)
qed

lemma insert_all_quiet:
  assumes Q: "fifo Q" and fits: "\<And>k. k < 32 \<Longrightarrow> block_fits A (2 ^ k)"
  shows "quiet Q n s \<Longrightarrow> n + length vs \<le> 2147483647 \<Longrightarrow>
    \<exists>is lcg' s'. insert_all cfg A Q lcg vs s = Value (is, lcg', s') \<and> quiet Q (n + length vs) s' \<and>
      length is = length vs \<and> distinct is \<and> set is \<inter> issued_ids s = {} \<and>
      contents s' = contents s + mset (zip is vs)"
proof (induction vs arbitrary: lcg s n)
  case Nil
  then show ?case by simp
next
  case (Cons v vs)
  then have "n < 2147483647" by simp
  from insert_quiet [OF Q fits Cons.prems(1) this, of cfg lcg v] obtain i lcg1 s1
    where ins: "store_insert cfg A Q lcg v s = Value (i, lcg1, s1)" "quiet Q (Suc n) s1"
      "contents s1 = add_mset (i, v) (contents s)" "i \<notin> issued_ids s"
      "issued_ids s1 = insert i (issued_ids s)"
    by blast
  with Cons.IH [OF ins(2), of lcg1] Cons.prems(2) obtain "is" lcg' s'
    where rest: "insert_all cfg A Q lcg1 vs s1 = Value (is, lcg', s')" "quiet Q (Suc n + length vs) s'"
      "length is = length vs" "distinct is" "set is \<inter> issued_ids s1 = {}"
      "contents s' = contents s1 + mset (zip is vs)"
    by auto
  then show ?case
    using ins by (intro exI [of _ "i # is"] exI [of _ lcg'] exI [of _ s']) auto
qed

section \<open>Consuming all of it\<close>

text \<open>A loop over a list that may fail.\<close>

primrec ofold :: "('acc \<Rightarrow> 'x \<Rightarrow> 'acc outcome) \<Rightarrow> 'acc \<Rightarrow> 'x list \<Rightarrow> 'acc outcome" where
  "ofold f acc [] = Value acc"
| "ofold f acc (x # xs) = obind (f acc x) (\<lambda>acc. ofold f acc xs)"

lemma calls_Suc_Value:
  "calls f (Suc n) it h = Value ((rs, ds), it', h') \<longleftrightarrow>
    (\<exists>r d it1 h1 rs' ds'. f it h = Value ((r, d), it1, h1) \<and>
      calls f n it1 h1 = Value ((rs', ds'), it', h') \<and> rs = r # rs' \<and> ds = d @ ds')"
  by (auto simp: obind_Value_iff omap_Value_iff)

lemma consume_calls:
  assumes keep: "\<And>it h r it' h'. P h \<Longrightarrow> next it h = Value (r, it', h') \<Longrightarrow> P h'"
    and step: "\<And>acc x h. P h \<Longrightarrow> x \<in> set xs \<Longrightarrow> step acc x h = f acc x"
  shows "P h \<Longrightarrow> calls next (Suc (length xs)) it h = Value ((map Some xs @ [None], d), it', h') \<Longrightarrow>
    ofold f acc xs = Value r \<Longrightarrow> consume next step it h acc = Some (Value (r, it', h'))"
  using step
proof (induction xs arbitrary: it h d acc)
  case Nil
  then show ?case
    by (subst consume.simps) (auto simp: obind_Value_iff omap_Value_iff)
next
  case (Cons x xs)
  then obtain d1 it1 h1 d2 where first: "next it h = Value ((Some x, d1), it1, h1)"
      and rest: "calls next (Suc (length xs)) it1 h1 = Value ((map Some xs @ [None], d2), it', h')"
    unfolding length_Cons calls_Suc_Value by auto
  have "P h1" using keep Cons.prems(1) first by blast
  moreover obtain acc1 where "f acc x = Value acc1" "ofold f acc1 xs = Value r"
    using Cons.prems(3) by (auto simp: obind_Value_iff)
  ultimately show ?case
    using Cons.IH [OF _ rest] Cons.prems(4) first by (subst consume.simps) simp
qed

lemma ofold_map: "ofold f acc (map g xs) = ofold (\<lambda>acc x. f acc (g x)) acc xs"
proof (induction xs arbitrary: acc)
  case (Cons x xs)
  then show ?case by (cases "f acc (g x)") simp_all
qed simp

lemma ofold_cong:
  "(\<And>acc x. x \<in> set xs \<Longrightarrow> f acc x = g acc x) \<Longrightarrow> ofold f acc xs = ofold g acc xs"
proof (induction xs arbitrary: acc)
  case (Cons x xs)
  then show ?case by (cases "g acc x") simp_all
qed simp

lemma ofold_add:
  fixes acc :: "'w::len word"
  shows "unat acc + sum_list (map unat ws) < 2 ^ LENGTH('w) \<Longrightarrow>
    ofold (checked_add cfg) acc ws = Value (acc + sum_list ws)"
proof (induction ws arbitrary: acc)
  case (Cons w ws)
  then have w: "unat acc + unat w < 2 ^ LENGTH('w)" by simp
  then have "unat (acc + w) = unat acc + unat w" using unat_add_lem by blast
  with Cons.IH [of "acc + w"] Cons.prems w show ?case by (simp add: checked_add_ok add.assoc)
qed simp

lemma ofold_push: "ofold (\<lambda>acc x. Value (acc @ [x])) acc xs = Value (acc @ xs)"
  by (induction xs arbitrary: acc) simp_all

lemma quiet_drop:
  assumes "quiet Q n s" and "drop_defined cfg A"
  shows "drop_store cfg A s = Value ()"
  using store_drop_step [of Q s cfg A False] assms by (auto simp: quiet_def drop_store_def drops_def)

lemma consume_into_iter_ok:
  assumes s: "quiet Q n s"
    and step: "\<And>acc x h. step acc x h = f acc x" and fold: "ofold f acc (live_list s) = Value r"
  shows "consume_into_iter cfg A step acc s = Value r"
proof -
  have "store_ok Q s" "all_free s" using s by (simp_all add: quiet_def)
  from into_iter_calls [OF this, of cfg A False "Suc (length (live_list s))"] obtain it h
    where calls: "calls (into_iter_next cfg A False) (Suc (length (live_list s))) (into_iter_new s) (memory s) =
        Value ((map Some (live_list s) @ [None], []), it, h)"
      and drop: "into_iter_drop cfg A False it h = Value []"
    by auto
  have "consume (into_iter_next cfg A False) step (into_iter_new s) (memory s) acc = Some (Value (r, it, h))"
    by (rule consume_calls [where P = "\<lambda>_. True", OF _ _ _ calls fold]) (simp_all add: step)
  with drop show ?thesis by (simp add: consume_into_iter_def store_into_iter_def)
qed

lemma iter_mut_next_reads: "iter_mut_next cfg it h = Value (x, it', h') \<Longrightarrow> h' = h"
  unfolding iter_mut_next_def by (rule mut_gen_reads [OF refl])

lemma consume_iter_mut_ok:
  assumes s: "quiet Q n s" and defined: "drop_defined cfg A"
    and step: "\<And>acc i v. (i, v) \<in> set (live_list s) \<Longrightarrow>
      step acc (i, slot_address i) (memory s) = f acc (i, v)"
    and fold: "ofold f acc (live_list s) = Value r"
  shows "consume_iter_mut cfg A step acc s = Value r"
proof -
  let ?xs = "map (\<lambda>(i, v). borrow i v) (live_list s)"
  have "store_ok Q s" using s by (simp add: quiet_def)
  from iter_mut_calls [OF this, of cfg "Suc (length ?xs)"] obtain it
    where calls: "calls (iter_mut_next cfg) (Suc (length ?xs)) (iter_mut_new s) (memory s) =
        Value ((map Some ?xs @ [None], []), it, memory s)"
    by auto
  have "ofold (\<lambda>acc x. step acc x (memory s)) acc ?xs = ofold f acc (live_list s)"
    unfolding ofold_map by (rule ofold_cong) (auto simp: borrow_def step)
  with fold have fold': "ofold (\<lambda>acc x. step acc x (memory s)) acc ?xs = Value r" by simp
  have "consume (iter_mut_next cfg) step (iter_mut_new s) (memory s) acc = Some (Value (r, it, memory s))"
    by (rule consume_calls [where P = "\<lambda>h. h = memory s", OF _ _ refl calls fold'])
      (auto dest: iter_mut_next_reads)
  with quiet_drop [OF s defined] show ?thesis by (simp add: consume_iter_mut_def store_iter_mut_def)
qed

lemma live_read:
  assumes "store_ok Q s" and "(i, v) \<in> set (live_list s)"
  shows "read_element (memory s) (slot_address i) = Value v"
proof -
  obtain l where a: "abs_store s i = Some (v, l)" using live_list_spec(2) [OF assms(1)] assms(2) by auto
  from get_mut_step [OF assms(1) present_issued [OF assms(1) a]] a show ?thesis by blast
qed

section \<open>They pass\<close>

text \<open>Counting and adding up what a store holds.\<close>

definition values_of :: "(u32, 'q) store \<Rightarrow> nat multiset" where
  "values_of s = image_mset (unat \<circ> snd) (contents s)"

lemma count_ok:
  assumes s: "quiet Q n s" and defined: "drop_defined cfg A" and small: "size (contents s) < 2 ^ 32"
  shows "consume_into_iter cfg A (count_step cfg) 0 s = Value (of_nat (size (contents s)))"
    and "consume_iter_mut cfg A (count_step cfg) 0 s = Value (of_nat (size (contents s)))"
proof -
  have fold: "ofold (\<lambda>acc x. checked_add cfg acc 1) 0 (live_list s) =
      Value (of_nat (size (contents s)) :: u64)"
    using ofold_add [of "0 :: u64" "map (\<lambda>_. 1) (live_list s)" cfg] small
    by (simp add: ofold_map contents_def comp_def sum_list_triv)
  show "consume_into_iter cfg A (count_step cfg) 0 s = Value (of_nat (size (contents s)))"
    by (rule consume_into_iter_ok [OF s _ fold]) (simp add: count_step_def)
  show "consume_iter_mut cfg A (count_step cfg) 0 s = Value (of_nat (size (contents s)))"
    by (rule consume_iter_mut_ok [OF s defined _ fold]) (simp add: count_step_def)
qed

lemma sum_ok:
  assumes s: "quiet Q n s" and defined: "drop_defined cfg A"
    and small: "sum_mset (image_mset (\<lambda>(i, v). unat v) (contents s)) < 2 ^ 32"
  shows "consume_into_iter cfg A (sum_values cfg) 0 s = Value (sum_mset (image_mset snd (contents s)))"
    and "consume_iter_mut cfg A (sum_references cfg) 0 s = Value (sum_mset (image_mset snd (contents s)))"
proof -
  have "image_mset (\<lambda>(i, v). unat v) (contents s) = mset (map unat (map snd (live_list s)))"
    "image_mset snd (contents s) = mset (map snd (live_list s))"
    by (simp_all add: contents_def case_prod_unfold image_mset.compositionality comp_def)
  then have sums: "sum_mset (image_mset (\<lambda>(i, v). unat v) (contents s)) = sum_list (map unat (map snd (live_list s)))"
    "sum_mset (image_mset snd (contents s)) = sum_list (map snd (live_list s))"
    by (simp_all only: sum_mset_sum_list)
  then have fold: "ofold (\<lambda>acc x. checked_add cfg acc (snd x)) 0 (live_list s) =
      Value (sum_mset (image_mset snd (contents s)))"
    using ofold_add [of "0 :: u32" "map snd (live_list s)" cfg] small by (simp add: ofold_map)
  show "consume_into_iter cfg A (sum_values cfg) 0 s = Value (sum_mset (image_mset snd (contents s)))"
    by (rule consume_into_iter_ok [OF s _ fold]) (simp add: sum_values_def)
  show "consume_iter_mut cfg A (sum_references cfg) 0 s = Value (sum_mset (image_mset snd (contents s)))"
    by (rule consume_iter_mut_ok [OF s defined _ fold])
      (use s in \<open>simp add: sum_references_def live_read [of Q] quiet_def\<close>)
qed

lemma zip_values:
  "length is = length vs \<Longrightarrow> image_mset snd (mset (zip is vs)) = mset vs"
  "length is = length vs \<Longrightarrow>
    sum_mset (image_mset (\<lambda>(i, v). unat v) (mset (zip is vs))) = sum_list (map unat vs)"
proof -
  assume len: "length is = length vs"
  have "map (\<lambda>(i, v). unat v) (zip is vs) = map unat (map snd (zip is vs))"
    by (simp add: case_prod_unfold)
  then have "map (\<lambda>(i, v). unat v) (zip is vs) = map unat vs" using len by (simp del: map_map)
  then show "sum_mset (image_mset (\<lambda>(i, v). unat v) (mset (zip is vs))) = sum_list (map unat vs)"
    by (metis mset_map sum_mset_sum_list)
  show "image_mset snd (mset (zip is vs)) = mset vs"
    using len by (metis map_snd_zip mset_map)
qed

lemma correct_size_passes:
  fixes Q :: "'q erasure_queue"
  assumes Q: "fifo Q" and fits: "\<And>k. k < 32 \<Longrightarrow> block_fits A (2 ^ k)"
    and count: "\<And>n s. quiet Q n s \<Longrightarrow> size (contents s) < 2 ^ 32 \<Longrightarrow>
      counter cfg A s = Value (of_nat (size (contents s)))"
  shows "passes (test_iter_has_correct_size counter cfg A Q n lcg spur)"
proof -
  note new = new_quiet [OF Q, where cfg = cfg]
  obtain "is" lcg1 s1 where many: "insert_all cfg A Q lcg (map of_nat [0..<42]) (new_u32_store cfg Q n) =
        Value (is, lcg1, s1)" "quiet Q (0 + length (map of_nat [0..<42] :: u32 list)) s1"
      "length is = length (map of_nat [0..<42] :: u32 list)"
      "contents s1 = {#} + mset (zip is (map of_nat [0..<42]))"
    using insert_all_quiet [OF Q fits new(1) [of n], of "map of_nat [0..<42]" cfg lcg] new(2) [of n] by auto
  then have "size (contents s1) = 42" by simp
  with count [OF many(2)] have c1: "counter cfg A s1 = Value 42" by simp
  obtain i lcg2 s2 where one: "store_insert cfg A Q lcg1 42 (new_u32_store cfg Q (n + 1)) = Value (i, lcg2, s2)"
      "quiet Q 1 s2" "contents s2 = {#(i, 42)#}"
    using insert_quiet [OF Q fits new(1) [of "n + 1"], of cfg lcg1 42] new(2) [of "n + 1"] by auto
  with count [OF one(2)] have c2: "counter cfg A s2 = Value 1" by simp
  have "counter cfg A (new_u32_store cfg Q (n + 2)) = Value 0"
    using count [OF new(1)] new(2) by simp
  with many(1) c1 one(1) c2 show ?thesis by (simp add: test_iter_has_correct_size_def)
qed

lemma correct_elements_passes:
  fixes Q :: "'q erasure_queue"
  assumes Q: "fifo Q" and fits: "\<And>k. k < 32 \<Longrightarrow> block_fits A (2 ^ k)"
    and add: "\<And>n s. quiet Q n s \<Longrightarrow> sum_mset (image_mset (\<lambda>(i, v). unat v) (contents s)) < 2 ^ 32 \<Longrightarrow>
      adder cfg A s = Value (sum_mset (image_mset snd (contents s)))"
  shows "passes (test_iter_has_correct_elements adder cfg A Q n lcg spur)"
    and "passes (test_iter_skips_removed_elements adder cfg A Q n lcg spur)"
proof -
  note new = new_quiet [OF Q, where cfg = cfg]
  obtain i lcg1 s1 where one: "store_insert cfg A Q lcg 1 (new_u32_store cfg Q n) = Value (i, lcg1, s1)"
      "quiet Q 1 s1" "contents s1 = {#(i, 1)#}"
    using insert_quiet [OF Q fits new(1) [of n], of cfg lcg 1] new(2) [of n] by auto
  obtain j lcg2 s2 where two: "store_insert cfg A Q lcg1 2 s1 = Value (j, lcg2, s2)"
      "quiet Q (Suc 1) s2" "contents s2 = {#(j, 2), (i, 1)#}" "abs_store s2 j = Some (2, Free)"
    using insert_quiet [OF Q fits one(2), of cfg lcg1 2] one(3) by auto
  obtain k lcg3 s3 where three: "store_insert cfg A Q lcg2 4 s2 = Value (k, lcg3, s3)"
      "quiet Q (Suc (Suc 1)) s3" "contents s3 = {#(k, 4), (j, 2), (i, 1)#}"
      "k \<notin> issued_ids s2" "issued_ids s3 = insert k (issued_ids s2)"
      "\<forall>j. j \<noteq> k \<longrightarrow> abs_store s3 j = abs_store s2 j"
    using insert_quiet [OF Q fits two(2), of cfg lcg2 4] two(3) by auto
  have "j \<in> issued_ids s2" using two(2,4) by (auto simp: quiet_def intro: present_issued)
  then have j: "j \<in> issued_ids s3" "abs_store s3 j = Some (2, Free)" using three(4-6) two(4) by auto
  obtain s4 where rem: "store_remove cfg Q spur j s3 = Value (Some 2, s4)" "quiet Q (Suc (Suc 1)) s4"
      "contents s3 = add_mset (j, 2) (contents s4)"
    using remove_quiet [OF Q three(2) j] by blast
  then have "contents s4 = {#(k, 4), (i, 1)#}"
    using three(3) by (simp add: add_mset_commute)
  with add [OF rem(2)] have "adder cfg A s4 = Value 5" by simp
  with one(1) two(1) three(1) rem(1)
  show "passes (test_iter_skips_removed_elements adder cfg A Q n lcg spur)"
    by (simp add: test_iter_skips_removed_elements_def option_unwrap_def)
  have c1: "adder cfg A s3 = Value 7" using add [OF three(2)] three(3) by simp
  let ?vs = "map of_nat [1..<43] :: u32 list"
  obtain "is" lcg4 s5 where many: "insert_all cfg A Q lcg3 ?vs (new_u32_store cfg Q (n + 1)) =
        Value (is, lcg4, s5)" "quiet Q (0 + length ?vs) s5" "length is = length ?vs"
      "contents s5 = {#} + mset (zip is ?vs)"
    using insert_all_quiet [OF Q fits new(1) [of "n + 1"], of ?vs cfg lcg3] new(2) [of "n + 1"] by auto
  have total: "sum_list (map unat ?vs) = 903" "sum_list ?vs = 903" by code_simp+
  have "sum_mset (image_mset (\<lambda>(i, v). unat v) (contents s5)) = 903"
    "sum_mset (image_mset snd (contents s5)) = 903"
    using zip_values [OF many(3)] total
    by (simp_all only: many(4) add_0 sum_mset_sum_list)
  with add [OF many(2)] have c2: "adder cfg A s5 = Value 903" by simp
  have "adder cfg A (new_u32_store cfg Q (n + 2)) = Value 0"
    using add [OF new(1)] new(2) by simp
  with one(1) two(1) three(1) c1 many(1) c2
  show "passes (test_iter_has_correct_elements adder cfg A Q n lcg spur)"
    by (simp add: test_iter_has_correct_elements_def)
qed

lemma single_list: "mset xs = {#x#} \<Longrightarrow> xs = [x]"
  by (metis mset_single_iff)

lemma iter_examples_pass:
  fixes Q :: "'q erasure_queue"
  assumes Q: "fifo Q" and fits: "\<And>k. k < 32 \<Longrightarrow> block_fits A (2 ^ k)" and plain: "\<not> element_needs_drop A"
  shows "passes (example_into_iter cfg A Q n lcg spur)" and "passes (example_iter_mut cfg A Q n lcg spur)"
proof -
  note new = new_quiet [OF Q, where cfg = cfg]
  obtain i lcg1 s where ins: "store_insert cfg A Q lcg 42 (new_u32_store cfg Q n) = Value (i, lcg1, s)"
      "quiet Q 1 s" "contents s = {#(i, 42)#}"
    using insert_quiet [OF Q fits new(1) [of n], of cfg lcg 42] new(2) [of n] by auto
  then have live: "live_list s = [(i, 42)]" unfolding contents_def by (intro single_list)
  have ok: "store_ok Q s" "all_free s" using ins(2) by (simp_all add: quiet_def)
  from into_iter_calls [OF ok, of cfg A False "Suc (Suc 0)"] live obtain it h
    where own: "calls (into_iter_next cfg A False) (Suc (Suc 0)) (into_iter_new s) (memory s) =
        Value (([Some (i, 42), None], []), it, h)" "into_iter_drop cfg A False it h = Value []"
    by auto
  obtain it1 h1 where "into_iter_next cfg A False (into_iter_new s) (memory s) =
        Value ((Some (i, 42), []), it1, h1)" "into_iter_next cfg A False it1 h1 = Value ((None, []), it, h)"
    using own(1) unfolding calls_Suc_Value by auto
  with ins(1) own(2) show "passes (example_into_iter cfg A Q n lcg spur)"
    by (simp add: example_into_iter_def store_into_iter_def option_unwrap_def)
  from iter_mut_calls [OF ok(1), of cfg "Suc (Suc 0)"] live obtain it'
    where "calls (iter_mut_next cfg) (Suc (Suc 0)) (iter_mut_new s) (memory s) =
        Value (([Some (i, slot_address i), None], []), it', memory s)"
    by (auto simp: borrow_def)
  then obtain it2 h2 where mut: "iter_mut_next cfg (iter_mut_new s) (memory s) =
        Value ((Some (i, slot_address i), []), it2, h2)"
      "iter_mut_next cfg it2 h2 = Value ((None, []), it', memory s)"
    unfolding calls_Suc_Value by auto
  then have "h2 = memory s" by (auto dest: iter_mut_next_reads)
  moreover have "read_element (memory s) (slot_address i) = Value 42"
    by (rule live_read [OF ok(1)]) (simp add: live)
  ultimately show "passes (example_iter_mut cfg A Q n lcg spur)"
    using ins(1) mut quiet_drop [OF ins(2) drop_definedI(1) [OF plain]]
    by (simp add: example_iter_mut_def store_iter_mut_def option_unwrap_def)
qed

text \<open>
  The iterators behave as their unit tests demand: on every platform with memory
  for the blocks, for both iterators, counting and adding up give the number and the sum of the
  elements that were inserted and not removed; the loops end, and nothing panics.
\<close>

lemma iter_tests_pass:
  assumes Q: "fifo Q" and fits: "\<And>k. k < 32 \<Longrightarrow> block_fits A (2 ^ k)" and plain: "\<not> element_needs_drop A"
  shows "list_all (\<lambda>test. passes (test cfg A Q n lcg spur)) iter_tests"
proof -
  note defined = drop_definedI(1) [OF plain, of cfg]
  have "passes (test_iter_has_correct_size (\<lambda>cfg A. consume_into_iter cfg A (count_step cfg) 0) cfg A Q n lcg spur)"
    "passes (test_iter_has_correct_size (\<lambda>cfg A. consume_iter_mut cfg A (count_step cfg) 0) cfg A Q n lcg spur)"
    by (rule correct_size_passes [OF Q fits]; simp add: count_ok [OF _ defined])+
  moreover note correct_elements_passes [OF Q fits, of "\<lambda>cfg A. consume_into_iter cfg A (sum_values cfg) 0" cfg n lcg spur]
    correct_elements_passes [OF Q fits, of "\<lambda>cfg A. consume_iter_mut cfg A (sum_references cfg) 0" cfg n lcg spur]
  ultimately show ?thesis
    by (simp add: iter_tests_def sum_ok [OF _ defined])
qed

text \<open>
  C35. Inserting the elements of a list of up to 2^31 - 1 elements, of any type, into a new store and
  then consuming its owned iterator gives them all back: on a platform with memory for the blocks the
  inserts succeed with distinct IDs, and the iterator returns each element exactly once, under the
  ID it was given.
\<close>

theorem insert_iterate_roundtrip:
  fixes Q :: "'q erasure_queue" and vs :: "'e list"
  assumes Q: "fifo Q" and fits: "\<And>k. k < 32 \<Longrightarrow> block_fits A (2 ^ k)" and vs: "length vs < 2 ^ 31"
  shows "\<exists>is lcg' s xs. insert_all cfg A Q lcg vs (fst (store_new cfg Q n)) = Value (is, lcg', s) \<and>
    length is = length vs \<and> distinct is \<and>
    consume_into_iter cfg A (\<lambda>acc x _. Value (acc @ [x])) [] s = Value xs \<and>
    mset xs = mset (zip is vs)"
proof -
  obtain "is" lcg' s where ins: "insert_all cfg A Q lcg vs (fst (store_new cfg Q n)) = Value (is, lcg', s)"
      "quiet Q (0 + length vs) s" "length is = length vs" "distinct is" "contents s = {#} + mset (zip is vs)"
    using insert_all_quiet [OF Q fits new_store_quiet(1) [OF Q, where cfg = cfg and n = n], of vs cfg lcg]
      new_store_quiet(2) [OF Q, where cfg = cfg and n = n] vs
    by auto
  have "consume_into_iter cfg A (\<lambda>acc x _. Value (acc @ [x])) [] s = Value ([] @ live_list s)"
    by (rule consume_into_iter_ok [OF ins(2) refl ofold_push])
  with ins show ?thesis by (auto simp: contents_def)
qed

theorem insert_iterate_roundtrip_witness:
  "\<exists>is lcg' s xs. insert_all debug_build plain_platform vec_queue 7 [1 :: u32, 2, 4] (fst (store_new debug_build vec_queue 0)) =
      Value (is, lcg', s) \<and>
    consume_into_iter debug_build plain_platform (\<lambda>acc x _. Value (acc @ [x])) [] s = Value xs \<and>
    mset xs = mset (zip is [1, 2, 4])"
proof -
  have "block_fits plain_platform (2 ^ k)" if "k < 32" for k
    using that by (intro plain_platform_fits power_increasing) simp_all
  from insert_iterate_roundtrip [OF vec.fifo_axioms this, of "[1, 2, 4]" debug_build 7 0] show ?thesis
    by auto
qed

end
