(* ===== verification/RwTests.thy ===== *)
theory RwTests
  imports RwIterTests RwTimeout
begin

text \<open>
  The model against the tests of the repository: all unit tests with content at run time (the
  others check marker traits when they are compiled) and all examples of the documentation that
  make assertions.
\<close>

text \<open>
  C36. The program passes its own unit tests, not only in the runs a test harness happens to make:
  for every build, every spurious failure of the weak exchanges, every state of the bucket
  generator and of the counter of store identities, every queue that meets its contract, all
  platforms with memory for the blocks, and every time of the clock at least a second after its
  start and before its end, no assertion of a unit test of \<open>header.rs\<close>, \<open>block.rs\<close>, \<open>lib.rs\<close>,
  \<open>iter.rs\<close> or \<open>timeout.rs\<close> fails, nothing panics and every loop ends. The platforms are those of the
  element types of the tests: integers and \<open>()\<close> without a destructor (\<open>A\<close>), and an \<open>Rc\<close> with one, in
  whose \<open>Option\<close> it comes first (\<open>B\<close>).
\<close>

theorem unit_tests_pass:
  assumes "fifo Q" and "\<And>k. k < 32 \<Longrightarrow> block_fits A (2 ^ k)" and "\<not> element_needs_drop A"
    and "block_fits B 32" and "element_needs_drop B" and "option_offset B = 0"
    and "10 ^ 9 \<le> now" and "now + 10 ^ 9 \<le> limit"
  shows "list_all passes
    (header_tests cfg spur @ block_tests cfg A B n spur @
     map (\<lambda>test. test cfg A Q n lcg spur) (store_tests @ iter_tests) @
     [test_timeout_ordering_is_correct limit now])"
proof -
  have "block_fits A 32" using assms(2) [of 5] by simp
  then show ?thesis
    using header_tests_pass [of cfg spur] block_tests_pass [OF _ assms(3-6), of cfg n spur]
      store_tests_pass [OF assms(1) _ assms(3), of cfg n lcg spur]
      iter_tests_pass [OF assms(1-3), of cfg n lcg spur] timeout_tests_pass [of now now limit] assms(7,8)
    by (simp add: list.pred_map comp_def)
qed

lemma plain_fits: "k < 32 \<Longrightarrow> block_fits plain_platform (2 ^ k)"
  by (intro plain_platform_fits power_increasing) simp_all

theorem unit_tests_pass_witness:
  "list_all passes
    (header_tests debug_build 2 @ block_tests debug_build plain_platform small_platform 0 2 @
     map (\<lambda>test. test debug_build plain_platform vec_queue 0 7 2) (store_tests @ iter_tests) @
     [test_timeout_ordering_is_correct (10 ^ 11) (10 ^ 10)])"
  by (rule unit_tests_pass [OF vec.fifo_axioms plain_fits])
    (simp_all add: plain_platform_def small_platform_def small_platform_fits [unfolded small_platform_def])



end
