(* ===== verification/RwRwLock.thy ===== *)
theory RwRwLock
  imports Main "HOL-Library.Multiset"
begin

text \<open>
  The read-write lock that protects the data of a bucket (\<open>src/src/util/sync/rwlock.rs\<close>). The lock
  itself is that of \<open>parking_lot\<close>, or of loom under \<open>cfg(loom)\<close>; the source wraps it and its guards.
  A \<open>native_lock\<close> is such a lock with the data in it; \<open>None\<close> means that the calling thread has to
  wait. Two observers give the threads that hold a read guard and the one with a write guard.
\<close>

section \<open>The interface\<close>

record ('a, 'l) native_lock =
  nl_new :: "'a \<Rightarrow> 'l"
  nl_read :: "nat \<Rightarrow> 'l \<Rightarrow> 'l option"
  nl_write :: "nat \<Rightarrow> 'l \<Rightarrow> 'l option"
  nl_drop_read :: "nat \<Rightarrow> 'l \<Rightarrow> 'l"
  nl_drop_write :: "nat \<Rightarrow> 'l \<Rightarrow> 'l"
  nl_deref :: "'l \<Rightarrow> 'a"
  nl_update :: "'a \<Rightarrow> 'l \<Rightarrow> 'l"
  nl_readers :: "'l \<Rightarrow> nat multiset"
  nl_writer :: "'l \<Rightarrow> nat option"

text \<open>
  The documented behaviour: a write guard excludes all others, guards give access to the data and
  change nothing but who holds the lock, and a lock that nobody holds can be taken. \<open>nl_update\<close>
  is a write through \<open>deref_mut\<close>, or to an atomic in the data through \<open>deref\<close>.
\<close>

locale rw_locking =
  fixes K :: "('a, 'l) native_lock"
  assumes new_free: "nl_deref K (nl_new K a) = a" "nl_readers K (nl_new K a) = {#}"
      "nl_writer K (nl_new K a) = None"
    and read_shares: "nl_read K t l = Some l' \<Longrightarrow> nl_writer K l = None \<and> nl_writer K l' = None \<and>
      nl_readers K l' = add_mset t (nl_readers K l) \<and> nl_deref K l' = nl_deref K l"
    and write_excludes: "nl_write K t l = Some l' \<Longrightarrow> nl_writer K l = None \<and> nl_readers K l = {#} \<and>
      nl_writer K l' = Some t \<and> nl_readers K l' = {#} \<and> nl_deref K l' = nl_deref K l"
    and free_available: "nl_writer K l = None \<Longrightarrow> nl_readers K l = {#} \<Longrightarrow>
      nl_read K t l \<noteq> None \<and> nl_write K t l \<noteq> None"
    and drop_read: "t \<in># nl_readers K l \<Longrightarrow> nl_readers K (nl_drop_read K t l) = nl_readers K l - {#t#} \<and>
      nl_writer K (nl_drop_read K t l) = nl_writer K l \<and> nl_deref K (nl_drop_read K t l) = nl_deref K l"
    and drop_write: "nl_writer K l = Some t \<Longrightarrow> nl_writer K (nl_drop_write K t l) = None \<and>
      nl_readers K (nl_drop_write K t l) = nl_readers K l \<and> nl_deref K (nl_drop_write K t l) = nl_deref K l"
    and update: "nl_deref K (nl_update K a l) = a" "nl_readers K (nl_update K a l) = nl_readers K l"
      "nl_writer K (nl_update K a l) = nl_writer K l"
begin

lemma held_excludes:
  "nl_writer K l \<noteq> None \<Longrightarrow> nl_read K u l = None"
  "nl_writer K l \<noteq> None \<or> nl_readers K l \<noteq> {#} \<Longrightarrow> nl_write K u l = None"
proof -
  show "nl_read K u l = None" if "nl_writer K l \<noteq> None"
    using that read_shares [of u l] by (cases "nl_read K u l") auto
  show "nl_write K u l = None" if "nl_writer K l \<noteq> None \<or> nl_readers K l \<noteq> {#}"
    using that write_excludes [of u l] by (cases "nl_write K u l") auto
qed

lemma reader_excludes_writer: "nl_read K t l = Some l' \<Longrightarrow> nl_write K u l' = None"
  using read_shares [of t l l'] by (intro held_excludes(2)) simp

lemma writer_excludes_all:
  "nl_write K t l = Some l' \<Longrightarrow> nl_read K u l' = None \<and> nl_write K u l' = None"
  using write_excludes [of t l l'] held_excludes [of l' u] by simp

end

section \<open>The wrapper\<close>

record 'l rwlock =
  rw_inner :: 'l

definition rwlock_new :: "('a, 'l) native_lock \<Rightarrow> 'a \<Rightarrow> 'l rwlock" where
  "rwlock_new K v = \<lparr>rw_inner = nl_new K v\<rparr>"

definition rwlock_read :: "('a, 'l) native_lock \<Rightarrow> nat \<Rightarrow> 'l rwlock \<Rightarrow> 'l rwlock option" where
  "rwlock_read K t l = map_option (\<lambda>i. l\<lparr>rw_inner := i\<rparr>) (nl_read K t (rw_inner l))"

definition rwlock_write :: "('a, 'l) native_lock \<Rightarrow> nat \<Rightarrow> 'l rwlock \<Rightarrow> 'l rwlock option" where
  "rwlock_write K t l = map_option (\<lambda>i. l\<lparr>rw_inner := i\<rparr>) (nl_write K t (rw_inner l))"

text \<open>Dropping a guard drops the guard inside.\<close>

definition read_guard_dropped :: "('a, 'l) native_lock \<Rightarrow> nat \<Rightarrow> 'l rwlock \<Rightarrow> 'l rwlock" where
  "read_guard_dropped K t l = l\<lparr>rw_inner := nl_drop_read K t (rw_inner l)\<rparr>"

definition write_guard_dropped :: "('a, 'l) native_lock \<Rightarrow> nat \<Rightarrow> 'l rwlock \<Rightarrow> 'l rwlock" where
  "write_guard_dropped K t l = l\<lparr>rw_inner := nl_drop_write K t (rw_inner l)\<rparr>"

definition guard_deref :: "('a, 'l) native_lock \<Rightarrow> 'l rwlock \<Rightarrow> 'a" where
  "guard_deref K l = nl_deref K (rw_inner l)"

definition guard_update :: "('a, 'l) native_lock \<Rightarrow> 'a \<Rightarrow> 'l rwlock \<Rightarrow> 'l rwlock" where
  "guard_update K v l = l\<lparr>rw_inner := nl_update K v (rw_inner l)\<rparr>"

text \<open>With exclusive access to the lock, as the borrow checker guarantees, there are no guards.\<close>

definition rwlock_into_inner :: "('a, 'l) native_lock \<Rightarrow> 'l rwlock \<Rightarrow> 'a" where
  "rwlock_into_inner K l = nl_deref K (rw_inner l)"

definition rwlock_get_mut :: "('a, 'l) native_lock \<Rightarrow> 'l rwlock \<Rightarrow> 'a" where
  "rwlock_get_mut K l = nl_deref K (rw_inner l)"

definition wrapped :: "('a, 'l) native_lock \<Rightarrow> ('a, 'l rwlock) native_lock" where
  "wrapped K = \<lparr>nl_new = rwlock_new K, nl_read = rwlock_read K, nl_write = rwlock_write K,
     nl_drop_read = read_guard_dropped K, nl_drop_write = write_guard_dropped K,
     nl_deref = guard_deref K, nl_update = guard_update K,
     nl_readers = (\<lambda>l. nl_readers K (rw_inner l)), nl_writer = (\<lambda>l. nl_writer K (rw_inner l))\<rparr>"

lemmas wrapper_defs = rwlock_new_def rwlock_read_def rwlock_write_def read_guard_dropped_def
  write_guard_dropped_def guard_deref_def guard_update_def rwlock_into_inner_def rwlock_get_mut_def
  wrapped_def

text \<open>The wrapper keeps the contract of the lock inside it.\<close>

context rw_locking
begin

lemma wrapper_meets: "rw_locking (wrapped K)"
  by unfold_locales
    (auto simp: wrapper_defs new_free update drop_read drop_write free_available
      dest: read_shares write_excludes)

lemma exclusive_access: "rwlock_into_inner K (rwlock_new K a) = a"
    "rwlock_get_mut K (guard_update K a l) = a"
  by (simp_all add: wrapper_defs new_free update)

end

section \<open>A lock that meets the contract\<close>

text \<open>A lock as its contract describes it, for the witnesses.\<close>

record 'a plain_lock =
  pl_data :: 'a
  pl_readers :: "nat multiset"
  pl_writer :: "nat option"

definition plain_lock :: "('a, 'a plain_lock) native_lock" where
  "plain_lock =
     \<lparr>nl_new = (\<lambda>a. \<lparr>pl_data = a, pl_readers = {#}, pl_writer = None\<rparr>),
      nl_read = (\<lambda>t l. if pl_writer l = None then Some (l\<lparr>pl_readers := add_mset t (pl_readers l)\<rparr>) else None),
      nl_write = (\<lambda>t l. if pl_writer l = None \<and> pl_readers l = {#} then Some (l\<lparr>pl_writer := Some t\<rparr>) else None),
      nl_drop_read = (\<lambda>t l. l\<lparr>pl_readers := pl_readers l - {#t#}\<rparr>),
      nl_drop_write = (\<lambda>t l. l\<lparr>pl_writer := None\<rparr>),
      nl_deref = pl_data, nl_update = (\<lambda>a l. l\<lparr>pl_data := a\<rparr>),
      nl_readers = pl_readers, nl_writer = pl_writer\<rparr>"

interpretation plain: rw_locking plain_lock
  by unfold_locales (auto simp: plain_lock_def split: if_splits)

interpretation plain_wrapped: rw_locking "wrapped plain_lock"
  by (rule plain.wrapper_meets)

end
