(* ===== verification/RwBucketLock.thy ===== *)
theory RwBucketLock
  imports RwBucket RwRwLock
begin

text \<open>
  A bucket under its read-write lock (\<open>src/src/bucket.rs\<close>), one step per acquisition or release of
  the lock and per access to the data it protects: any number of threads run
  \<open>Bucket::next_insert_location\<close> and \<open>Bucket::capacity\<close> in any interleaving. Under a read guard
  only the atomic counter changes; a call of a \<open>BucketInner\<close> function is one step, because its
  other accesses are to data that cannot change while the guard is held. The theory shows that
  this machine refines \<open>race_step\<close>, in which the two paths are single steps.
\<close>

section \<open>The threads\<close>

text \<open>The program counters are named after the points of the two functions.\<close>

datatype bucket_pc =
    Outside
  | FastRead
  | FastLocked
  | FastFound address
  | FastMissed
  | SlowWrite
  | SlowLocked
  | SlowMissed
  | SlowExpanded
  | SlowFound address
  | Located address
  | CapacityRead
  | CapacityLocked
  | CapacitySized u32
  | CapacityLoaded u32 u32
  | CapacityFreed u32 u32
  | Measured "u32 \<times> u32"
  | Panicked fault
  | CapacityPanicked fault

text \<open>The arithmetic at the end of \<open>Bucket::capacity\<close>.\<close>

definition capacity_result :: "build \<Rightarrow> u32 \<Rightarrow> u32 \<Rightarrow> (u32 \<times> u32) outcome" where
  "capacity_result cfg head_size next_slot =
     obind (head_size_to_total_size cfg head_size) (\<lambda>allocated.
     obind (head_size_to_total_size cfg head_size) (\<lambda>total_size.
     obind (checked_sub cfg head_size next_slot) (\<lambda>unused.
     obind (checked_sub cfg total_size unused) (\<lambda>touched.
       Value (touched, allocated)))))"

lemma bucket_capacity_result: "bucket_capacity cfg b = capacity_result cfg (head_len b) (next_unused_slot b)"
  by (simp add: bucket_capacity_def capacity_result_def load_def Let_def)

text \<open>
  The next step of a thread; \<open>None\<close> when it has to wait, or is not inside a call. A panic drops the
  guard; what unwinding out of \<open>expand\<close> does to the chain of blocks is not modelled.
\<close>

fun bstep ::
  "build \<Rightarrow> platform \<Rightarrow> (bucket, 'l) native_lock \<Rightarrow> nat \<Rightarrow> bucket_pc \<Rightarrow> 'l \<times> 'e heap \<Rightarrow>
    (bucket_pc \<times> 'l \<times> 'e heap) option"
where
  "bstep cfg A K t FastRead (l, h) = map_option (\<lambda>l'. (FastLocked, l', h)) (nl_read K t l)"
| "bstep cfg A K t FastLocked (l, h) =
     (case inner_next_insert_location cfg (nl_deref K l) of
        Value (Some p, b') \<Rightarrow> Some (FastFound p, nl_update K b' l, h)
      | Value (None, b') \<Rightarrow> Some (FastMissed, nl_update K b' l, h)
      | Fault f \<Rightarrow> Some (Panicked f, nl_drop_read K t l, h)
      | Hang \<Rightarrow> None)"
| "bstep cfg A K t (FastFound p) (l, h) = Some (Located p, nl_drop_read K t l, h)"
| "bstep cfg A K t FastMissed (l, h) = Some (SlowWrite, nl_drop_read K t l, h)"
| "bstep cfg A K t SlowWrite (l, h) = map_option (\<lambda>l'. (SlowLocked, l', h)) (nl_write K t l)"
| "bstep cfg A K t SlowLocked (l, h) =
     (case inner_next_insert_location cfg (nl_deref K l) of
        Value (Some p, b') \<Rightarrow> Some (SlowFound p, nl_update K b' l, h)
      | Value (None, b') \<Rightarrow> Some (SlowMissed, nl_update K b' l, h)
      | Fault f \<Rightarrow> Some (Panicked f, nl_drop_write K t l, h)
      | Hang \<Rightarrow> None)"
| "bstep cfg A K t SlowMissed (l, h) =
     (case bucket_expand cfg A (nl_deref K l) h of
        Value (b', h') \<Rightarrow> Some (SlowExpanded, nl_update K b' l, h')
      | Fault f \<Rightarrow> Some (Panicked f, nl_drop_write K t l, h)
      | Hang \<Rightarrow> None)"
| "bstep cfg A K t SlowExpanded (l, h) =
     (case inner_next_insert_location cfg (nl_deref K l) of
        Value (Some p, b') \<Rightarrow> Some (SlowFound p, nl_update K b' l, h)
      | Value (None, b') \<Rightarrow> Some (Panicked UnwrapNone, nl_drop_write K t (nl_update K b' l), h)
      | Fault f \<Rightarrow> Some (Panicked f, nl_drop_write K t l, h)
      | Hang \<Rightarrow> None)"
| "bstep cfg A K t (SlowFound p) (l, h) = Some (Located p, nl_drop_write K t l, h)"
| "bstep cfg A K t CapacityRead (l, h) = map_option (\<lambda>l'. (CapacityLocked, l', h)) (nl_read K t l)"
| "bstep cfg A K t CapacityLocked (l, h) = Some (CapacitySized (head_len (nl_deref K l)), l, h)"
| "bstep cfg A K t (CapacitySized head_size) (l, h) =
     Some (CapacityLoaded head_size (load (next_unused_slot (nl_deref K l))), l, h)"
| "bstep cfg A K t (CapacityLoaded head_size next_slot) (l, h) =
     Some (CapacityFreed head_size next_slot, nl_drop_read K t l, h)"
| "bstep cfg A K t (CapacityFreed head_size next_slot) (l, h) =
     (case capacity_result cfg head_size next_slot of
        Value r \<Rightarrow> Some (Measured r, l, h)
      | Fault f \<Rightarrow> Some (CapacityPanicked f, l, h)
      | Hang \<Rightarrow> None)"
| "bstep cfg A K t p (l, h) = None"

section \<open>Many threads\<close>

text \<open>\<open>located\<close> lists the slots that calls have returned.\<close>

record ('e, 'l) guarded =
  guarded_bucket :: 'l
  guarded_heap :: "'e heap"
  bpcs :: "nat \<Rightarrow> bucket_pc"
  located :: "address list"

definition locked_bucket_new :: "(bucket, 'l) native_lock \<Rightarrow> store_id \<Rightarrow> 'l" where
  "locked_bucket_new K sid = nl_new K (bucket_new sid)"

definition guarded_init :: "store_id \<Rightarrow> (bucket, 'l) native_lock \<Rightarrow> ('e, 'l) guarded" where
  "guarded_init sid K = \<lparr>guarded_bucket = locked_bucket_new K sid,
     guarded_heap = \<lparr>cells = (\<lambda>_. None), allocations = 0\<rparr>, bpcs = (\<lambda>_. Outside), located = []\<rparr>"

inductive guarded_step ::
  "build \<Rightarrow> platform \<Rightarrow> (bucket, 'l) native_lock \<Rightarrow> nat \<Rightarrow> ('e, 'l) guarded \<Rightarrow> ('e, 'l) guarded \<Rightarrow> bool"
  for cfg :: build and A :: platform and K :: "(bucket, 'l) native_lock" and N :: nat where
  locate: "t < N \<Longrightarrow> bpcs s t = Outside \<Longrightarrow>
    guarded_step cfg A K N s (s\<lparr>bpcs := (bpcs s)(t := FastRead)\<rparr>)"
| measure: "t < N \<Longrightarrow> bpcs s t = Outside \<Longrightarrow>
    guarded_step cfg A K N s (s\<lparr>bpcs := (bpcs s)(t := CapacityRead)\<rparr>)"
| run: "t < N \<Longrightarrow> bstep cfg A K t (bpcs s t) (guarded_bucket s, guarded_heap s) = Some (p', l', h') \<Longrightarrow>
    guarded_step cfg A K N s
      (s\<lparr>guarded_bucket := l', guarded_heap := h', bpcs := (bpcs s)(t := p')\<rparr>)"
| found: "t < N \<Longrightarrow> bpcs s t = Located p \<Longrightarrow>
    guarded_step cfg A K N s (s\<lparr>bpcs := (bpcs s)(t := Outside), located := p # located s\<rparr>)"
| measured: "t < N \<Longrightarrow> bpcs s t = Measured c \<Longrightarrow>
    guarded_step cfg A K N s (s\<lparr>bpcs := (bpcs s)(t := Outside)\<rparr>)"

inductive guarded_reachable ::
  "build \<Rightarrow> platform \<Rightarrow> (bucket, 'l) native_lock \<Rightarrow> nat \<Rightarrow> store_id \<Rightarrow> ('e, 'l) guarded \<Rightarrow> bool"
  for cfg :: build and A :: platform and K :: "(bucket, 'l) native_lock" and N :: nat and sid :: store_id where
  start: "guarded_reachable cfg A K N sid (guarded_init sid K)"
| step: "guarded_reachable cfg A K N sid s \<Longrightarrow> guarded_step cfg A K N s s' \<Longrightarrow>
    guarded_reachable cfg A K N sid s'"

section \<open>Who holds the lock\<close>

fun reading_pc :: "bucket_pc \<Rightarrow> bool" where
  "reading_pc FastLocked = True"
| "reading_pc (FastFound p) = True"
| "reading_pc FastMissed = True"
| "reading_pc CapacityLocked = True"
| "reading_pc (CapacitySized n) = True"
| "reading_pc (CapacityLoaded n u) = True"
| "reading_pc _ = False"

fun writing_pc :: "bucket_pc \<Rightarrow> bool" where
  "writing_pc SlowLocked = True"
| "writing_pc SlowMissed = True"
| "writing_pc SlowExpanded = True"
| "writing_pc (SlowFound p) = True"
| "writing_pc _ = False"

definition lock_inv :: "(bucket, 'l) native_lock \<Rightarrow> nat \<Rightarrow> ('e, 'l) guarded \<Rightarrow> bool" where
  "lock_inv K N s \<longleftrightarrow>
     nl_readers K (guarded_bucket s) = mset_set {t. t < N \<and> reading_pc (bpcs s t)} \<and>
     (\<forall>t. nl_writer K (guarded_bucket s) = Some t \<longleftrightarrow> t < N \<and> writing_pc (bpcs s t)) \<and>
     (nl_writer K (guarded_bucket s) \<noteq> None \<longrightarrow> nl_readers K (guarded_bucket s) = {#})"

lemma finite_below [simp]: "finite {t. t < (N :: nat) \<and> P t}"
  by (rule finite_subset [of _ "{..<N}"]) auto

lemma reading_update:
  fixes f :: "nat \<Rightarrow> bucket_pc"
  assumes "t < N"
  shows "mset_set {u. u < N \<and> reading_pc ((f(t := p)) u)} =
    mset_set ({u. u < N \<and> reading_pc (f u)} - {t}) + (if reading_pc p then {#t#} else {#})"
proof -
  have "{u. u < N \<and> reading_pc ((f(t := p)) u)} =
      (if reading_pc p then insert t ({u. u < N \<and> reading_pc (f u)} - {t})
       else {u. u < N \<and> reading_pc (f u)} - {t})"
    using assms by auto
  moreover have "finite ({u. u < N \<and> reading_pc (f u)} - {t})" by simp
  ultimately show ?thesis by (simp del: insert_Diff_single)
qed

text \<open>What a step does to the lock.\<close>

inductive lock_effect :: "(bucket, 'l) native_lock \<Rightarrow> nat \<Rightarrow> bucket_pc \<Rightarrow> 'l \<Rightarrow> bucket_pc \<Rightarrow> 'l \<Rightarrow> bool"
  for K :: "(bucket, 'l) native_lock" and t :: nat where
  same: "reading_pc p' = reading_pc p \<Longrightarrow> writing_pc p' = writing_pc p \<Longrightarrow>
    nl_readers K l' = nl_readers K l \<Longrightarrow> nl_writer K l' = nl_writer K l \<Longrightarrow> lock_effect K t p l p' l'"
| acquire_read: "nl_writer K l = None \<Longrightarrow> nl_writer K l' = None \<Longrightarrow>
    nl_readers K l' = add_mset t (nl_readers K l) \<Longrightarrow> \<not> reading_pc p \<Longrightarrow> \<not> writing_pc p \<Longrightarrow>
    reading_pc p' \<Longrightarrow> \<not> writing_pc p' \<Longrightarrow> lock_effect K t p l p' l'"
| acquire_write: "nl_writer K l = None \<Longrightarrow> nl_readers K l = {#} \<Longrightarrow> nl_writer K l' = Some t \<Longrightarrow>
    nl_readers K l' = {#} \<Longrightarrow> \<not> reading_pc p \<Longrightarrow> \<not> writing_pc p \<Longrightarrow>
    \<not> reading_pc p' \<Longrightarrow> writing_pc p' \<Longrightarrow> lock_effect K t p l p' l'"
| release_read: "nl_writer K l' = nl_writer K l \<Longrightarrow> nl_readers K l' = nl_readers K l - {#t#} \<Longrightarrow>
    reading_pc p \<Longrightarrow> \<not> writing_pc p \<Longrightarrow> \<not> reading_pc p' \<Longrightarrow> \<not> writing_pc p' \<Longrightarrow> lock_effect K t p l p' l'"
| release_write: "nl_writer K l' = None \<Longrightarrow> nl_readers K l' = nl_readers K l \<Longrightarrow>
    \<not> reading_pc p \<Longrightarrow> writing_pc p \<Longrightarrow> \<not> reading_pc p' \<Longrightarrow> \<not> writing_pc p' \<Longrightarrow> lock_effect K t p l p' l'"

section \<open>The abstraction\<close>

text \<open>Threads between the two paths, and slots that a call has found but not returned.\<close>

fun waiting_pc :: "bucket_pc \<Rightarrow> bool" where
  "waiting_pc FastMissed = True"
| "waiting_pc SlowWrite = True"
| "waiting_pc SlowLocked = True"
| "waiting_pc SlowMissed = True"
| "waiting_pc SlowExpanded = True"
| "waiting_pc _ = False"

fun pc_slots :: "bucket_pc \<Rightarrow> address multiset" where
  "pc_slots (FastFound p) = {#p#}"
| "pc_slots (SlowFound p) = {#p#}"
| "pc_slots (Located p) = {#p#}"
| "pc_slots _ = {#}"

definition between :: "nat \<Rightarrow> ('e, 'l) guarded \<Rightarrow> nat" where
  "between N s = (\<Sum>t<N. of_bool (waiting_pc (bpcs s t)))"

definition slots_out :: "nat \<Rightarrow> ('e, 'l) guarded \<Rightarrow> address multiset" where
  "slots_out N s = mset (located s) + (\<Sum>t<N. pc_slots (bpcs s t))"

text \<open>
  What the bucket and memory were before the thread inside the slow path, if there is one, began
  to change them.
\<close>

fun expanding :: "build \<Rightarrow> platform \<Rightarrow> bucket \<Rightarrow> 'e heap \<Rightarrow> bucket_pc \<Rightarrow> bucket \<Rightarrow> 'e heap \<Rightarrow> bool" where
  "expanding cfg A b h SlowMissed b' h' \<longleftrightarrow> inner_next_insert_location cfg b = Value (None, b') \<and> h' = h"
| "expanding cfg A b h SlowExpanded b' h' \<longleftrightarrow>
     (\<exists>b1. inner_next_insert_location cfg b = Value (None, b1) \<and> bucket_expand cfg A b1 h = Value (b', h'))"
| "expanding cfg A b h _ b' h' \<longleftrightarrow> True"

fun busy_pc :: "bucket_pc \<Rightarrow> bool" where
  "busy_pc SlowMissed = True"
| "busy_pc SlowExpanded = True"
| "busy_pc _ = False"

definition bucket_before ::
  "build \<Rightarrow> platform \<Rightarrow> (bucket, 'l) native_lock \<Rightarrow> nat \<Rightarrow> ('e, 'l) guarded \<Rightarrow> bucket \<Rightarrow> 'e heap \<Rightarrow> bool" where
  "bucket_before cfg A K N s b h \<longleftrightarrow>
     (\<forall>t<N. expanding cfg A b h (bpcs s t) (nl_deref K (guarded_bucket s)) (guarded_heap s)) \<and>
     ((\<forall>t<N. \<not> busy_pc (bpcs s t)) \<longrightarrow>
        b = nl_deref K (guarded_bucket s) \<and> h = guarded_heap s)"

definition simulates ::
  "build \<Rightarrow> platform \<Rightarrow> (bucket, 'l) native_lock \<Rightarrow> nat \<Rightarrow> ('e, 'l) guarded \<Rightarrow> 'e race \<Rightarrow> bool" where
  "simulates cfg A K N s r \<longleftrightarrow>
     bucket_before cfg A K N s (race_bucket r) (race_heap r) \<and>
     pending r = between N s \<and> mset (given r) = slots_out N s"

lemma between_update:
  assumes "t < N"
  shows "between N (s\<lparr>guarded_bucket := l, guarded_heap := h, bpcs := (bpcs s)(t := p)\<rparr>) + of_bool (waiting_pc (bpcs s t)) =
    between N s + of_bool (waiting_pc p)"
proof -
  have "between N s = of_bool (waiting_pc (bpcs s t)) + (\<Sum>u\<in>{..<N} - {t}. of_bool (waiting_pc (bpcs s u)))"
    using assms unfolding between_def by (intro sum.remove) auto
  moreover have "between N (s\<lparr>guarded_bucket := l, guarded_heap := h, bpcs := (bpcs s)(t := p)\<rparr>) =
      of_bool (waiting_pc p) + (\<Sum>u\<in>{..<N} - {t}. of_bool (waiting_pc (bpcs s u)))"
    using assms unfolding between_def by (subst sum.remove [of _ t]) (auto intro!: sum.cong)
  ultimately show ?thesis by simp
qed

lemma between_less:
  assumes "t < N" and "\<not> waiting_pc (bpcs s t)"
  shows "between N s < N"
proof -
  have "between N s = (\<Sum>u\<in>{..<N} - {t}. of_bool (waiting_pc (bpcs s u)))"
    using assms unfolding between_def by (subst sum.remove [of _ t]) auto
  also have "\<dots> \<le> (\<Sum>u\<in>{..<N} - {t}. 1)" by (rule sum_mono) simp
  also have "\<dots> < N" using assms(1) by simp
  finally show ?thesis .
qed

lemma slots_out_update:
  assumes "t < N"
  shows "slots_out N (s\<lparr>guarded_bucket := l, guarded_heap := h, bpcs := (bpcs s)(t := p)\<rparr>) + pc_slots (bpcs s t) =
    slots_out N s + pc_slots p"
proof -
  have "(\<Sum>u<N. pc_slots (bpcs s u)) = pc_slots (bpcs s t) + (\<Sum>u\<in>{..<N} - {t}. pc_slots (bpcs s u))"
    using assms by (intro sum.remove) auto
  moreover have "(\<Sum>u<N. pc_slots (((bpcs s)(t := p)) u)) = pc_slots p + (\<Sum>u\<in>{..<N} - {t}. pc_slots (bpcs s u))"
    using assms by (subst sum.remove [of _ t]) (auto intro!: sum.cong)
  ultimately show ?thesis by (simp add: slots_out_def)
qed

lemma busy_writing: "busy_pc p \<Longrightarrow> writing_pc p"
  by (cases p) auto

lemma expanding_idle: "\<not> busy_pc p \<Longrightarrow> expanding cfg A b h p b' h'"
  by (cases p) auto

lemma before_settled:
  "(\<And>u. u < N \<Longrightarrow> \<not> busy_pc (bpcs s u)) \<Longrightarrow> bucket_before cfg A K N s b h \<longleftrightarrow>
    b = nl_deref K (guarded_bucket s) \<and> h = guarded_heap s"
  by (auto simp: bucket_before_def expanding_idle)

lemma before_busy:
  assumes "t < N" and "busy_pc (bpcs s t)" and "\<And>u. u < N \<Longrightarrow> u \<noteq> t \<Longrightarrow> \<not> busy_pc (bpcs s u)"
  shows "bucket_before cfg A K N s b h \<longleftrightarrow>
    expanding cfg A b h (bpcs s t) (nl_deref K (guarded_bucket s)) (guarded_heap s)"
proof -
  have "expanding cfg A b h (bpcs s u) b' h'" if "u < N" "u \<noteq> t" for u b' h'
    using assms(3) [OF that] by (rule expanding_idle)
  then show ?thesis using assms(1,2) unfolding bucket_before_def by blast
qed

text \<open>The contract of the lock at the type of a bucket.\<close>

locale bucket_lock = rw_locking K
  for K :: "(bucket, 'l) native_lock"
begin

lemma deref_update [simp]: "nl_deref K (nl_update K a l) = a"
  by (rule update)

lemma bstep_lock:
  assumes step: "bstep cfg A K t p (l, h) = Some (p', l', h')"
    and r: "reading_pc p \<Longrightarrow> t \<in># nl_readers K l" and w: "writing_pc p \<Longrightarrow> nl_writer K l = Some t"
  shows "lock_effect K t p l p' l'"
proof (cases p)
  case FastRead
  with step read_shares [of t l l'] show ?thesis by (auto simp: lock_effect.simps)
next
  case SlowWrite
  with step write_excludes [of t l l'] show ?thesis by (auto simp: lock_effect.simps)
next
  case CapacityRead
  with step read_shares [of t l l'] show ?thesis by (auto simp: lock_effect.simps)
next
  case FastLocked
  with r step drop_read [of t l] show ?thesis
    by (auto simp: update lock_effect.simps split: outcome.splits option.splits)
next
  case SlowExpanded
  with w step drop_write [of l t] drop_write [of "nl_update K b l" t for b] show ?thesis
    by (auto simp: update lock_effect.simps split: outcome.splits option.splits)
qed (use r w step drop_read [of t l] drop_write [of l t] in
    \<open>auto simp: update lock_effect.simps split: outcome.splits option.splits\<close>)

lemma lock_inv_effect:
  assumes inv: "lock_inv K N s" and t: "t < N"
    and eff: "lock_effect K t (bpcs s t) (guarded_bucket s) p' l'"
  shows "lock_inv K N (s\<lparr>guarded_bucket := l', guarded_heap := h', bpcs := (bpcs s)(t := p')\<rparr>)"
proof -
  let ?R = "{u. u < N \<and> reading_pc (bpcs s u)}"
  have R: "nl_readers K (guarded_bucket s) = mset_set ?R"
    and W: "\<And>u. nl_writer K (guarded_bucket s) = Some u \<longleftrightarrow> u < N \<and> writing_pc (bpcs s u)"
    and E: "nl_writer K (guarded_bucket s) \<noteq> None \<longrightarrow> nl_readers K (guarded_bucket s) = {#}"
    using inv unfolding lock_inv_def by blast+
  have new: "mset_set {u. u < N \<and> reading_pc (((bpcs s)(t := p')) u)} =
      mset_set (?R - {t}) + (if reading_pc p' then {#t#} else {#})"
    by (rule reading_update [OF t])
  have none: "nl_writer K (guarded_bucket s) = None \<Longrightarrow> u < N \<Longrightarrow> \<not> writing_pc (bpcs s u)" for u
    using W [of u] by auto
  have rule: ?thesis
    if "nl_readers K l' = mset_set {u. u < N \<and> reading_pc (((bpcs s)(t := p')) u)}"
      and "\<And>u. nl_writer K l' = Some u \<longleftrightarrow> u < N \<and> writing_pc (((bpcs s)(t := p')) u)"
      and "nl_writer K l' \<noteq> None \<Longrightarrow> nl_readers K l' = {#}"
    using that by (simp add: lock_inv_def)
  from eff show ?thesis
  proof cases
    case same
    have eq: "{u. u < N \<and> reading_pc (((bpcs s)(t := p')) u)} = ?R" using same(1) by auto
    show ?thesis
    proof (rule rule)
      show "nl_readers K l' = mset_set {u. u < N \<and> reading_pc (((bpcs s)(t := p')) u)}"
        unfolding eq using same R by simp
      show "nl_writer K l' = Some u \<longleftrightarrow> u < N \<and> writing_pc (((bpcs s)(t := p')) u)" for u
        using same W [of u] t by (cases "u = t") auto
    qed (use same E in simp)
  next
    case acquire_read
    then have "t \<notin> ?R" by simp
    with acquire_read R have "nl_readers K l' = mset_set (?R - {t}) + {#t#}" by simp
    with acquire_read(6) new
    have "nl_readers K l' = mset_set {u. u < N \<and> reading_pc (((bpcs s)(t := p')) u)}" by simp
    then show ?thesis
      by (rule rule) (use acquire_read none in auto)
  next
    case acquire_write
    have empty: "mset_set ?R = {#}" using acquire_write(2) R by simp
    then have "?R = {}" by (simp add: mset_set_empty_iff)
    with acquire_write new
    have "nl_readers K l' = mset_set {u. u < N \<and> reading_pc (((bpcs s)(t := p')) u)}" by simp
    then show ?thesis
      by (rule rule) (use acquire_write none t in auto)
  next
    case release_read
    then have "t \<in> ?R" using t by simp
    with release_read R have "nl_readers K l' = mset_set (?R - {t})" by (simp add: mset_set_Diff)
    with release_read(5) new
    have "nl_readers K l' = mset_set {u. u < N \<and> reading_pc (((bpcs s)(t := p')) u)}" by simp
    then show ?thesis
    proof (rule rule)
      show "nl_writer K l' = Some u \<longleftrightarrow> u < N \<and> writing_pc (((bpcs s)(t := p')) u)" for u
        using release_read W [of u] by (cases "u = t") auto
    qed (use release_read E in simp)
  next
    case release_write
    then have wr: "nl_writer K (guarded_bucket s) = Some t" using W t by simp
    have only: "u = t" if "u < N" "writing_pc (bpcs s u)" for u
    proof -
      have "nl_writer K (guarded_bucket s) = Some u" unfolding W using that by simp
      with wr show ?thesis by simp
    qed
    have "t \<notin> ?R" using release_write by simp
    then have "?R - {t} = ?R" by blast
    with release_write(2,5) R new
    have "nl_readers K l' = mset_set {u. u < N \<and> reading_pc (((bpcs s)(t := p')) u)}" by simp
    then show ?thesis
    proof (rule rule)
      show "nl_writer K l' = Some u \<longleftrightarrow> u < N \<and> writing_pc (((bpcs s)(t := p')) u)" for u
        using release_write only [of u] by (cases "u = t") auto
    qed (use release_write in simp)
  qed
qed

lemma lock_inv_quiet:
  assumes "lock_inv K N s" and "t < N" and "reading_pc p = reading_pc (bpcs s t)"
    and "writing_pc p = writing_pc (bpcs s t)"
  shows "lock_inv K N (s\<lparr>bpcs := (bpcs s)(t := p)\<rparr>)"
  using lock_inv_effect [OF assms(1,2) same, of p "guarded_bucket s" "guarded_heap s"] assms(3,4) by simp

lemma lock_inv_located [simp]: "lock_inv K N (s\<lparr>located := ps\<rparr>) = lock_inv K N s"
  by (simp add: lock_inv_def)

lemma lock_inv_step:
  assumes "guarded_step cfg A K N s s'" and inv: "lock_inv K N s"
  shows "lock_inv K N s'"
  using assms(1)
proof cases
  case (run t p' l' h')
  have "lock_effect K t (bpcs s t) (guarded_bucket s) p' l'"
    by (rule bstep_lock [OF run(3)]) (use inv run(2) in \<open>auto simp: lock_inv_def\<close>)
  with run inv show ?thesis by (simp add: lock_inv_effect)
next
  case (found t p)
  have "lock_inv K N (s\<lparr>bpcs := (bpcs s)(t := Outside)\<rparr>)"
    using inv found by (intro lock_inv_quiet) auto
  then have "lock_inv K N (s\<lparr>bpcs := (bpcs s)(t := Outside)\<rparr>\<lparr>located := p # located s\<rparr>)"
    by (simp only: lock_inv_located)
  then show ?thesis using found by simp
qed (use inv in \<open>auto intro!: lock_inv_quiet\<close>)

lemma lock_inv_reachable: "guarded_reachable cfg A K N sid s \<Longrightarrow> lock_inv K N s"
proof (induction rule: guarded_reachable.induct)
  case start
  show ?case by (simp add: lock_inv_def guarded_init_def locked_bucket_new_def new_free)
qed (rule lock_inv_step)

text \<open>Every step is a step of the abstraction, or none at all.\<close>

lemma lock_invD:
  assumes "lock_inv K N s"
  shows "nl_readers K (guarded_bucket s) = mset_set {t. t < N \<and> reading_pc (bpcs s t)}"
    and "t < N \<Longrightarrow> writing_pc (bpcs s t) \<Longrightarrow>
      nl_writer K (guarded_bucket s) = Some t \<and> nl_readers K (guarded_bucket s) = {#}"
  using assms unfolding lock_inv_def by (blast, metis option.distinct(1))

lemma reading_alone:
  assumes "lock_inv K N s" and "t < N" and "reading_pc (bpcs s t)" and "u < N"
  shows "\<not> writing_pc (bpcs s u)"
proof
  assume "writing_pc (bpcs s u)"
  then have "mset_set {t. t < N \<and> reading_pc (bpcs s t)} = {#}"
    using lock_invD [OF assms(1)] assms(4) by metis
  then show False using assms(2,3) by (auto simp: mset_set_empty_iff)
qed

lemma writing_alone:
  assumes "lock_inv K N s" and "t < N" and "writing_pc (bpcs s t)" and "u < N" and "writing_pc (bpcs s u)"
  shows "u = t"
  using lock_invD(2) [OF assms(1-3)] lock_invD(2) [OF assms(1,4,5)] by simp

lemma simulates_update:
  assumes "simulates cfg A K N s r" and "t < N"
    and "s' = s\<lparr>guarded_bucket := l', guarded_heap := h', bpcs := (bpcs s)(t := p')\<rparr>"
    and "bucket_before cfg A K N s' (race_bucket r') (race_heap r')"
    and "pending r' + of_bool (waiting_pc (bpcs s t)) = pending r + of_bool (waiting_pc p')"
    and "mset (given r') + pc_slots (bpcs s t) = mset (given r) + pc_slots p'"
  shows "simulates cfg A K N s' r'"
proof -
  have "pending r' = between N s'"
    using between_update [OF assms(2), where s = s and l = l' and h = h' and p = p'] assms(1,3,5) by (simp add: simulates_def)
  moreover have "mset (given r') + pc_slots (bpcs s t) = slots_out N s' + pc_slots (bpcs s t)"
    using slots_out_update [OF assms(2), where s = s and l = l' and h = h' and p = p'] assms(1,3,6) by (simp add: simulates_def)
  ultimately show ?thesis using assms(4) by (simp add: simulates_def)
qed

lemma simulates_stutter:
  assumes sim: "simulates cfg A K N s r" and t: "t < N"
    and s': "s' = s\<lparr>guarded_bucket := l', guarded_heap := guarded_heap s, bpcs := (bpcs s)(t := p')\<rparr>"
    and same: "nl_deref K l' = nl_deref K (guarded_bucket s)" "waiting_pc p' = waiting_pc (bpcs s t)"
      "pc_slots p' = pc_slots (bpcs s t)" "\<not> busy_pc (bpcs s t)" "\<not> busy_pc p'"
  shows "simulates cfg A K N s' r"
proof (rule simulates_update [OF sim t s'])
  have "bucket_before cfg A K N s (race_bucket r) (race_heap r)" using sim by (simp add: simulates_def)
  then show "bucket_before cfg A K N s' (race_bucket r) (race_heap r)"
    using same(1,4,5) t
    by (auto simp: s' bucket_before_def expanding_idle)
qed (use same in simp_all)

lemma simulates_run:
  assumes inv: "lock_inv K N s" and sim: "simulates cfg A K N s r" and t: "t < N"
    and step: "bstep cfg A K t (bpcs s t) (guarded_bucket s, guarded_heap s) = Some (p', l', h')"
    and calm: "\<And>f. p' \<noteq> Panicked f"
    and s': "s' = s\<lparr>guarded_bucket := l', guarded_heap := h', bpcs := (bpcs s)(t := p')\<rparr>"
  shows "simulates cfg A K N s' r \<or> (\<exists>r'. race_step cfg A N r r' \<and> simulates cfg A K N s' r')"
proof -
  let ?b = "nl_deref K (guarded_bucket s)"
  have before: "bucket_before cfg A K N s (race_bucket r) (race_heap r)"
    and pend: "pending r = between N s"
    using sim by (simp_all add: simulates_def)
  note update_sim = simulates_update [OF sim t s']
  have rd: "nl_deref K (nl_drop_read K t (guarded_bucket s)) = ?b" if "reading_pc (bpcs s t)"
    using that t drop_read [of t "guarded_bucket s"] lock_invD(1) [OF inv] by simp
  have wd: "nl_deref K (nl_drop_write K t (guarded_bucket s)) = ?b" if "writing_pc (bpcs s t)"
    using that t drop_write [of "guarded_bucket s" t] lock_invD(2) [OF inv] by simp
  have settled: "race_bucket r = ?b \<and> race_heap r = guarded_heap s"
    if "\<And>u. u < N \<Longrightarrow> \<not> busy_pc (bpcs s u)"
    using before before_settled [OF that] by blast
  have after: "bucket_before cfg A K N s' (nl_deref K l') h'"
    if "\<And>u. u < N \<Longrightarrow> u \<noteq> t \<Longrightarrow> \<not> busy_pc (bpcs s u)" "\<not> busy_pc p'"
    using that by (subst before_settled) (auto simp: s')
  show ?thesis
  proof (cases "bpcs s t")
    case FastLocked
    have idle: "\<not> busy_pc (bpcs s u)" if "u < N" for u
      using reading_alone [OF inv t _ that] busy_writing FastLocked by auto
    note r = settled [OF idle]
    from step FastLocked calm consider
        q b' where "inner_next_insert_location cfg ?b = Value (Some q, b')" "p' = FastFound q"
          "l' = nl_update K b' (guarded_bucket s)" "h' = guarded_heap s"
      | b' where "inner_next_insert_location cfg ?b = Value (None, b')" "p' = FastMissed"
          "l' = nl_update K b' (guarded_bucket s)" "h' = guarded_heap s"
      by (auto split: outcome.splits option.splits)
    then show ?thesis
    proof cases
      case 1
      let ?r = "r\<lparr>race_bucket := b', given := q # given r\<rparr>"
      have "race_step cfg A N r ?r" using 1 r by (intro fast_hit) simp
      moreover have "simulates cfg A K N s' ?r"
        by (rule update_sim) (use 1 FastLocked after idle r in auto)
      ultimately show ?thesis by blast
    next
      case 2
      let ?r = "r\<lparr>race_bucket := b', pending := Suc (pending r)\<rparr>"
      have "pending r < N" using between_less [OF t, of s] FastLocked pend by simp
      then have "race_step cfg A N r ?r" using 2 r by (intro fast_miss) simp_all
      moreover have "simulates cfg A K N s' ?r"
        by (rule update_sim) (use 2 FastLocked after idle r in auto)
      ultimately show ?thesis by blast
    qed
  next
    case SlowLocked
    have others: "\<not> busy_pc (bpcs s u)" if "u < N" "u \<noteq> t" for u
      using writing_alone [OF inv t _ that(1)] busy_writing [of "bpcs s u"] SlowLocked that(2) by auto
    have idle: "\<not> busy_pc (bpcs s u)" if "u < N" for u
      using others [OF that] SlowLocked by (cases "u = t") auto
    note r = settled [OF idle]
    have pos: "0 < pending r"
      using pend sum.remove [of "{..<N}" t "\<lambda>u. of_bool (waiting_pc (bpcs s u)) :: nat"] t SlowLocked
      by (simp add: between_def)
    from step SlowLocked calm consider
        q b' where "inner_next_insert_location cfg ?b = Value (Some q, b')" "p' = SlowFound q"
          "l' = nl_update K b' (guarded_bucket s)" "h' = guarded_heap s"
      | b' where "inner_next_insert_location cfg ?b = Value (None, b')" "p' = SlowMissed"
          "l' = nl_update K b' (guarded_bucket s)" "h' = guarded_heap s"
      by (auto split: outcome.splits option.splits)
    then show ?thesis
    proof cases
      case 1
      let ?r = "r\<lparr>race_bucket := b', race_heap := guarded_heap s, pending := pending r - 1, given := q # given r\<rparr>"
      have "next_insert_location_slow cfg A (race_bucket r) (race_heap r) = Value (q, b', guarded_heap s)"
        using 1 r by (simp add: next_insert_location_slow_def)
      then have "race_step cfg A N r ?r" using pos by (rule slow)
      moreover have "simulates cfg A K N s' ?r"
        by (rule update_sim) (use 1 SlowLocked after others r pos in auto)
      ultimately show ?thesis by blast
    next
      case 2
      have "simulates cfg A K N s' r"
      proof (rule update_sim)
        show "bucket_before cfg A K N s' (race_bucket r) (race_heap r)"
          using 2 t others r by (subst before_busy [of t]) (auto simp: s')
      qed (use 2 SlowLocked in simp_all)
      then show ?thesis by blast
    qed
  next
    case SlowMissed
    have others: "\<not> busy_pc (bpcs s u)" if "u < N" "u \<noteq> t" for u
      using writing_alone [OF inv t _ that(1)] busy_writing [of "bpcs s u"] SlowMissed that(2) by auto
    have r: "inner_next_insert_location cfg (race_bucket r) = Value (None, ?b)" "guarded_heap s = race_heap r"
      using before before_busy [of t N s, OF t _ others] SlowMissed by auto
    obtain b' where b': "bucket_expand cfg A ?b (guarded_heap s) = Value (b', h')" "p' = SlowExpanded"
        "l' = nl_update K b' (guarded_bucket s)"
      using step SlowMissed calm by (auto split: outcome.splits)
    have "simulates cfg A K N s' r"
    proof (rule update_sim)
      show "bucket_before cfg A K N s' (race_bucket r) (race_heap r)"
        using b' t others r by (subst before_busy [of t]) (auto simp: s')
    qed (use b' SlowMissed in simp_all)
    then show ?thesis by blast
  next
    case SlowExpanded
    have others: "\<not> busy_pc (bpcs s u)" if "u < N" "u \<noteq> t" for u
      using writing_alone [OF inv t _ that(1)] busy_writing [of "bpcs s u"] SlowExpanded that(2) by auto
    obtain b1 where r: "inner_next_insert_location cfg (race_bucket r) = Value (None, b1)"
        "bucket_expand cfg A b1 (race_heap r) = Value (?b, guarded_heap s)"
      using before before_busy [of t N s, OF t _ others] SlowExpanded by auto
    obtain q b' where b': "inner_next_insert_location cfg ?b = Value (Some q, b')" "p' = SlowFound q"
        "l' = nl_update K b' (guarded_bucket s)" "h' = guarded_heap s"
      using step SlowExpanded by (auto simp: calm split: outcome.splits option.splits)
    have pos: "0 < pending r"
      using pend sum.remove [of "{..<N}" t "\<lambda>u. of_bool (waiting_pc (bpcs s u)) :: nat"] t SlowExpanded
      by (simp add: between_def)
    let ?r = "r\<lparr>race_bucket := b', race_heap := guarded_heap s, pending := pending r - 1, given := q # given r\<rparr>"
    have "next_insert_location_slow cfg A (race_bucket r) (race_heap r) = Value (q, b', guarded_heap s)"
      using b' r by (simp add: next_insert_location_slow_def option_unwrap_def)
    then have "race_step cfg A N r ?r" using pos by (rule slow)
    moreover have "simulates cfg A K N s' ?r"
      by (rule update_sim) (use b' SlowExpanded after others pos in auto)
    ultimately show ?thesis by blast
  qed (use step s' calm in \<open>auto intro!: simulates_stutter [OF sim t]
      simp: rd wd dest: read_shares write_excludes split: outcome.splits\<close>)
qed

lemma simulates_located:
  assumes "simulates cfg A K N s r" and t: "t < N" and p: "bpcs s t = Located p"
  shows "simulates cfg A K N (s\<lparr>bpcs := (bpcs s)(t := Outside), located := p # located s\<rparr>) r"
proof -
  let ?s = "s\<lparr>bpcs := (bpcs s)(t := Outside), located := p # located s\<rparr>"
  have "slots_out N (s\<lparr>bpcs := (bpcs s)(t := Outside)\<rparr>) + {#p#} = slots_out N s"
    using slots_out_update [OF t, of s Outside "guarded_heap s" "guarded_bucket s"] p by simp
  then have "slots_out N ?s = slots_out N s" by (simp add: slots_out_def)
  moreover have "between N ?s = between N s"
    using between_update [OF t, of s Outside "guarded_heap s" "guarded_bucket s"] p
    by (simp add: between_def)
  moreover have "bucket_before cfg A K N ?s (race_bucket r) (race_heap r)"
  proof -
    have "busy_pc (bpcs ?s u) = busy_pc (bpcs s u)" for u using p by (cases "u = t") simp_all
    moreover have "expanding cfg A b h (bpcs ?s u) b' h' = expanding cfg A b h (bpcs s u) b' h'" for u b h b' h'
      using p by (cases "u = t") simp_all
    moreover have "bucket_before cfg A K N s (race_bucket r) (race_heap r)"
      using assms(1) by (simp add: simulates_def)
    ultimately show ?thesis unfolding bucket_before_def by simp
  qed
  ultimately show ?thesis using assms(1) by (simp add: simulates_def)
qed

lemma simulates_step:
  assumes step: "guarded_step cfg A K N s s'" and inv: "lock_inv K N s" and sim: "simulates cfg A K N s r"
    and calm: "\<And>t f. t < N \<Longrightarrow> bpcs s' t \<noteq> Panicked f"
  shows "simulates cfg A K N s' r \<or> (\<exists>r'. race_step cfg A N r r' \<and> simulates cfg A K N s' r')"
  using step
proof cases
  case (run t p' l' h')
  have "p' \<noteq> Panicked f" for f using calm [of t f] run by simp
  from simulates_run [OF inv sim run(2,3) this run(1)] show ?thesis .
next
  case (found t p)
  then show ?thesis using simulates_located [OF sim] by simp
qed (auto intro!: simulates_stutter [OF sim, where l' = "guarded_bucket s"])

lemma panic_stays:
  assumes "guarded_step cfg A K N s s'" and "bpcs s t = Panicked f"
  shows "bpcs s' t = Panicked f"
  using assms by (cases rule: guarded_step.cases) auto

lemma refines_race:
  assumes "guarded_reachable cfg A K N sid s" and "\<And>t f. t < N \<Longrightarrow> bpcs s t \<noteq> Panicked f"
  shows "\<exists>r. race_reachable cfg A N sid r \<and> simulates cfg A K N s r"
  using assms
proof (induction rule: guarded_reachable.induct)
  case start
  have "simulates cfg A K N (guarded_init sid K) (race_init sid)"
    by (simp add: simulates_def bucket_before_def guarded_init_def race_init_def between_def
        slots_out_def locked_bucket_new_def new_free)
  then show ?case using race_reachable.start by blast
next
  case (step s s')
  have "bpcs s t \<noteq> Panicked f" if "t < N" for t f
    using panic_stays [OF step.hyps(2)] step.prems [OF that] by auto
  with step.IH obtain r where r: "race_reachable cfg A N sid r" "simulates cfg A K N s r" by blast
  from simulates_step [OF step.hyps(2) lock_inv_reachable [OF step.hyps(1)] r(2) step.prems]
  show ?case using r(1) race_reachable.step by blast
qed

text \<open>Slots that were found are never lost.\<close>

lemma slots_grow:
  assumes step: "guarded_step cfg A K N s s'"
  shows "size (slots_out N s) \<le> size (slots_out N s')"
  using step
proof cases
  case (run t p' l' h')
  have "size (pc_slots (bpcs s t)) \<le> size (pc_slots p')"
    using run(3) by (cases "bpcs s t") (auto split: outcome.splits option.splits)
  moreover have "size (slots_out N s') + size (pc_slots (bpcs s t)) = size (slots_out N s) + size (pc_slots p')"
    using slots_out_update [OF run(2), of s p' h' l'] run(1)
    by (simp flip: size_union)
  ultimately show ?thesis by simp
next
  case (found t p)
  have "slots_out N (s\<lparr>bpcs := (bpcs s)(t := Outside)\<rparr>) + {#p#} = slots_out N s"
    using slots_out_update [OF found(2), of s Outside "guarded_heap s" "guarded_bucket s"] found(3) by simp
  then have "slots_out N s' = slots_out N s" using found by (simp add: slots_out_def)
  then show ?thesis by simp
next
  case (locate t)
  then show ?thesis
    using slots_out_update [OF locate(2), of s FastRead "guarded_heap s" "guarded_bucket s"] by simp
next
  case (measure t)
  then show ?thesis
    using slots_out_update [OF measure(2), of s CapacityRead "guarded_heap s" "guarded_bucket s"] by simp
next
  case (measured t c)
  then show ?thesis
    using slots_out_update [OF measured(2), of s Outside "guarded_heap s" "guarded_bucket s"] by simp
qed

lemma inner_next_returns:
  assumes inv: "race_inv T sid r" and T: "T < 2147483647"
  shows "\<exists>x. inner_next_insert_location cfg (race_bucket r) = Value x"
proof -
  have ok: "bucket_ok sid (race_bucket r)" "untouched_fresh (race_heap r) (race_bucket r)"
      "bases_allocated (race_heap r) (race_bucket r)"
    using inv by (simp_all add: race_inv_def)
  have bound: "unat (next_unused_slot (race_bucket r)) < 4294967295"
    using head_len_le [OF ok(1)] inv T by (simp add: race_inv_def)
  show ?thesis
  proof (cases "next_unused_slot (race_bucket r) < head_len (race_bucket r)")
    case True
    from ok(1) True ok(2,3) show ?thesis by (rule hands_out_hit [where cfg = cfg]) blast
  next
    case False
    from ok(1) False bound show ?thesis by (rule inner_next_miss [where cfg = cfg]) blast
  qed
qed

text \<open>The next step of a thread that is inside the lock.\<close>

lemma inside_steps:
  assumes inv: "lock_inv K N s" and sim: "simulates cfg A K N s r" and t: "t < N"
    and inner: "\<exists>x. inner_next_insert_location cfg (race_bucket r) = Value x"
    and slow: "\<exists>x. next_insert_location_slow cfg A (race_bucket r) (race_heap r) = Value x"
    and p: "reading_pc (bpcs s t) \<or> writing_pc (bpcs s t)"
  shows "\<exists>p' l' h'. bstep cfg A K t (bpcs s t) (guarded_bucket s, guarded_heap s) = Some (p', l', h') \<and>
    (\<forall>f. p' \<noteq> Panicked f)"
proof -
  let ?b = "nl_deref K (guarded_bucket s)"
  have before: "bucket_before cfg A K N s (race_bucket r) (race_heap r)"
    using sim by (simp add: simulates_def)
  have idle: "\<exists>x. inner_next_insert_location cfg ?b = Value x" if "\<not> busy_pc (bpcs s t)"
  proof -
    have "\<not> busy_pc (bpcs s u)" if "u < N" for u
      using p
    proof
      assume "reading_pc (bpcs s t)"
      with reading_alone [OF inv t _ \<open>u < N\<close>] busy_writing show ?thesis by blast
    next
      assume "writing_pc (bpcs s t)"
      with writing_alone [OF inv t _ \<open>u < N\<close>] busy_writing \<open>\<not> busy_pc (bpcs s t)\<close> show ?thesis by blast
    qed
    then have "race_bucket r = ?b" using before before_settled by blast
    with inner show ?thesis by simp
  qed
  have others: "\<not> busy_pc (bpcs s u)" if "busy_pc (bpcs s t)" "u < N" "u \<noteq> t" for u
    using writing_alone [OF inv t _ that(2)] busy_writing that by blast
  show ?thesis
  proof (cases "bpcs s t")
    case SlowMissed
    then have "expanding cfg A (race_bucket r) (race_heap r) SlowMissed ?b (guarded_heap s)"
      using before before_busy [OF t _ others] by simp
    with slow have "\<exists>x. bucket_expand cfg A ?b (guarded_heap s) = Value x"
      by (auto simp: next_insert_location_slow_def obind_Value_iff)
    with SlowMissed show ?thesis by auto
  next
    case SlowExpanded
    then have "expanding cfg A (race_bucket r) (race_heap r) SlowExpanded ?b (guarded_heap s)"
      using before before_busy [OF t _ others] by simp
    with slow have "\<exists>q b'. inner_next_insert_location cfg ?b = Value (Some q, b')"
      by (auto simp: next_insert_location_slow_def obind_Value_iff omap_Value_iff option_unwrap_def
          split: option.split_asm)
    with SlowExpanded show ?thesis by auto
  qed (use idle p in \<open>auto split: option.split\<close>)
qed

end

end
