(* ===== verification/RwBucketSafety.thy ===== *)
theory RwBucketSafety
  imports RwBucketLock
begin

text \<open>
  What holds of a bucket under its read-write lock, however its threads interleave: nothing panics
  on the way to a slot, no slot is found twice, no thread waits for ever, and \<open>capacity\<close> is exact
  as long as no thread is between the two paths.
\<close>

section \<open>The result of \<open>capacity\<close>\<close>

definition chain_size :: "u32 \<Rightarrow> bool" where
  "chain_size n \<longleftrightarrow> n = 0 \<or> (\<exists>k<31. n = 2 ^ k)"

lemma chain_size_head:
  assumes "bucket_ok sid b" and "depth b < 32"
  shows "chain_size (head_len b)"
  using assms(1)
proof (cases rule: bucket_ok_cases)
  case empty
  then show ?thesis by (simp add: chain_size_def bucket_new_def head_len_def)
next
  case (blocks blk k)
  then show ?thesis using assms(2) by (auto simp: chain_size_def)
qed

lemma capacity_result_returns:
  assumes "chain_size n"
  shows "capacity_result cfg n u \<noteq> Hang"
proof -
  obtain x where "head_size_to_total_size cfg n = Value x"
    using assms head_size_to_total_size_0 head_size_to_total_size_exp by (auto simp: chain_size_def)
  then show ?thesis by (auto simp: capacity_result_def checked_sub_def)
qed

text \<open>What a thread inside \<open>capacity\<close> remembers.\<close>

fun sized :: "bucket_pc \<Rightarrow> u32 option" where
  "sized (CapacitySized n) = Some n"
| "sized (CapacityLoaded n u) = Some n"
| "sized (CapacityFreed n u) = Some n"
| "sized _ = None"

definition inside_call :: "bucket_pc \<Rightarrow> bool" where
  "inside_call p \<longleftrightarrow> (\<forall>q c f. p \<noteq> Outside \<and> p \<noteq> Located q \<and> p \<noteq> Measured c \<and> p \<noteq> Panicked f \<and>
     p \<noteq> CapacityPanicked f)"

text \<open>A bound on the steps that a call still takes.\<close>

fun steps_left :: "bucket_pc \<Rightarrow> nat" where
  "steps_left FastRead = 8"
| "steps_left FastLocked = 7"
| "steps_left FastMissed = 6"
| "steps_left SlowWrite = 5"
| "steps_left SlowLocked = 4"
| "steps_left SlowMissed = 3"
| "steps_left SlowExpanded = 2"
| "steps_left (FastFound p) = 1"
| "steps_left (SlowFound p) = 1"
| "steps_left CapacityRead = 5"
| "steps_left CapacityLocked = 4"
| "steps_left (CapacitySized n) = 3"
| "steps_left (CapacityLoaded n u) = 2"
| "steps_left (CapacityFreed n u) = 1"
| "steps_left _ = 0"

lemma bstep_steps_left:
  "bstep cfg A K t p (l, h) = Some (p', l', h') \<Longrightarrow> steps_left p' < steps_left p"
  by (cases p) (auto split: outcome.splits option.splits)

lemma bstep_sized:
  "bstep cfg A K t p (l, h) = Some (p', l', h') \<Longrightarrow> sized p' = Some n \<Longrightarrow> \<not> reading_pc p' \<Longrightarrow>
    sized p = Some n"
  by (cases p) (auto split: outcome.splits option.splits)

lemma inside_call_cases:
  assumes "inside_call p"
  obtains (holds) "reading_pc p \<or> writing_pc p"
  | (asks) "p = FastRead \<or> p = SlowWrite \<or> p = CapacityRead"
  | (computes) n u where "p = CapacityFreed n u"
  using assms by (cases p) (auto simp: inside_call_def)

lemma inner_next_head:
  "inner_next_insert_location cfg b = Value (x, b') \<Longrightarrow> head_len b' = head_len b"
  by (auto simp: inner_next_insert_location_def head_len_def omap_Value_iff Let_def
      split: option.splits if_splits prod.splits)

context bucket_lock
begin

section \<open>No panic\<close>

lemma ready:
  assumes reach: "guarded_reachable cfg A K N sid s" and N: "N < 2147483647"
    and memory: "\<And>k. k < 32 \<Longrightarrow> block_fits A (2 ^ k)" and few: "size (slots_out N s) < 2147483647"
    and calm: "\<And>t f. t < N \<Longrightarrow> bpcs s t \<noteq> Panicked f"
  obtains r where "race_reachable cfg A N sid r" "simulates cfg A K N s r" "race_inv N sid r"
    "length (given r) < 2147483647"
    "\<exists>x. inner_next_insert_location cfg (race_bucket r) = Value x"
    "\<exists>x. next_insert_location_slow cfg A (race_bucket r) (race_heap r) = Value x"
proof -
  obtain r where r: "race_reachable cfg A N sid r" "simulates cfg A K N s r"
    using refines_race [OF reach calm] by blast
  then have "length (given r) < 2147483647"
    using few unfolding simulates_def by (metis size_mset)
  note bound = r(1) N memory this
  have "race_inv N sid r" using bound by (rule race_reachable_inv)
  moreover from this N have "\<exists>x. inner_next_insert_location cfg (race_bucket r) = Value x"
    by (rule inner_next_returns)
  moreover have "\<exists>x. next_insert_location_slow cfg A (race_bucket r) (race_heap r) = Value x"
    using race_reachable_safe [OF bound] by blast
  ultimately show ?thesis using that r bound(4) by blast
qed

lemma calm_step:
  assumes step: "guarded_step cfg A K N s s'" and reach: "guarded_reachable cfg A K N sid s"
    and N: "N < 2147483647" and memory: "\<And>k. k < 32 \<Longrightarrow> block_fits A (2 ^ k)"
    and few: "size (slots_out N s) < 2147483647" and calm: "\<And>t f. t < N \<Longrightarrow> bpcs s t \<noteq> Panicked f"
    and u: "u < N"
  shows "bpcs s' u \<noteq> Panicked f"
  using step
proof cases
  case (run t p' l' h')
  have "p' \<noteq> Panicked f"
  proof (cases "reading_pc (bpcs s t) \<or> writing_pc (bpcs s t)")
    case True
    obtain r where "simulates cfg A K N s r"
        "\<exists>x. inner_next_insert_location cfg (race_bucket r) = Value x"
        "\<exists>x. next_insert_location_slow cfg A (race_bucket r) (race_heap r) = Value x"
      using ready [OF reach N memory few calm] by blast
    from inside_steps [OF lock_inv_reachable [OF reach] this(1) run(2) this(2,3) True] run(3)
    show ?thesis by auto
  next
    case False
    with run(3) calm [OF run(2)] show ?thesis by (cases "bpcs s t") (auto split: outcome.splits)
  qed
  then show ?thesis using run calm [OF u] by simp
qed (use calm [OF u] in auto)

lemma no_panic:
  assumes "guarded_reachable cfg A K N sid s" and "N < 2147483647"
    and "\<And>k. k < 32 \<Longrightarrow> block_fits A (2 ^ k)" and "size (slots_out N s) < 2147483647" and "t < N"
  shows "bpcs s t \<noteq> Panicked f"
  using assms(1,4,5)
proof (induction arbitrary: t f rule: guarded_reachable.induct)
  case start
  show ?case by (simp add: guarded_init_def)
next
  case (step s s')
  have "size (slots_out N s) < 2147483647"
    using slots_grow [OF step.hyps(2)] step.prems(1) by simp
  with step assms(2,3) show ?case by (intro calm_step [OF step.hyps(2,1)]) auto
qed

section \<open>Capacity\<close>

lemma reading_settled:
  assumes inv: "lock_inv K N s" and sim: "simulates cfg A K N s r" and t: "t < N" and p: "reading_pc (bpcs s t)"
  shows "race_bucket r = nl_deref K (guarded_bucket s)"
proof -
  have "\<not> busy_pc (bpcs s u)" if "u < N" for u
    using reading_alone [OF inv t p that] busy_writing by blast
  moreover have "bucket_before cfg A K N s (race_bucket r) (race_heap r)"
    using sim by (simp add: simulates_def)
  ultimately show ?thesis using before_settled by blast
qed

lemma reading_bucket:
  assumes "guarded_reachable cfg A K N sid s" and "N < 2147483647"
    and "\<And>k. k < 32 \<Longrightarrow> block_fits A (2 ^ k)" and "size (slots_out N s) < 2147483647"
    and t: "t < N" and p: "reading_pc (bpcs s t)"
  obtains r where "race_inv N sid r" "simulates cfg A K N s r"
    "race_bucket r = nl_deref K (guarded_bucket s)" "depth (race_bucket r) < 32"
proof -
  obtain r where r: "simulates cfg A K N s r" "race_inv N sid r" "length (given r) < 2147483647"
    by (rule ready [OF assms(1-4) no_panic [OF assms(1-4)]])
  then have "depth (race_bucket r) < 32"
    by (intro depth_bound [of sid]) (simp_all add: race_inv_def)
  with r show ?thesis
    using that reading_settled [OF lock_inv_reachable [OF assms(1)] r(1) t p] by blast
qed

lemma bstep_head:
  assumes step: "bstep cfg A K t p (l, h) = Some (p', l', h')" and p: "\<not> writing_pc p"
    and r: "reading_pc p \<Longrightarrow> t \<in># nl_readers K l"
  shows "head_len (nl_deref K l') = head_len (nl_deref K l)"
  using step p r
  by (cases p) (auto simp: drop_read inner_next_head split: outcome.splits option.splits
      dest: read_shares write_excludes)

lemma sized_step:
  assumes "guarded_step cfg A K N s s'" and inv: "lock_inv K N s" and u: "u < N"
    and old: "reading_pc (bpcs s u) \<Longrightarrow> sized (bpcs s u) = Some n \<Longrightarrow>
      n = head_len (nl_deref K (guarded_bucket s))"
    and new: "reading_pc (bpcs s' u)" "sized (bpcs s' u) = Some n"
  shows "n = head_len (nl_deref K (guarded_bucket s'))"
  using assms(1)
proof cases
  case (run t p' l' h')
  have r: "t \<in># nl_readers K (guarded_bucket s)" if "reading_pc (bpcs s t)"
    using lock_invD(1) [OF inv] run(2) that by simp
  show ?thesis
  proof (cases "u = t")
    case True
    with run new have p': "reading_pc p'" "sized p' = Some n" by simp_all
    then have "\<not> writing_pc (bpcs s t)"
      using run(3) by (cases "bpcs s t") (auto split: outcome.splits option.splits)
    then have "head_len (nl_deref K l') = head_len (nl_deref K (guarded_bucket s))"
      using run(3) r by (rule_tac bstep_head)
    moreover have "n = head_len (nl_deref K (guarded_bucket s))"
      using run(3) p' old True
      by (cases "bpcs s t") (auto split: outcome.splits option.splits)
    ultimately show ?thesis using run(1) by simp
  next
    case False
    with run new have p: "reading_pc (bpcs s u)" "sized (bpcs s u) = Some n" by simp_all
    then have "head_len (nl_deref K l') = head_len (nl_deref K (guarded_bucket s))"
      using bstep_head [OF run(3) reading_alone [OF inv u p(1) run(2)] r] by simp
    with old [OF p] run(1) show ?thesis by simp
  qed
qed (use old new in \<open>auto split: if_splits\<close>)

lemma sized_head:
  assumes "guarded_reachable cfg A K N sid s" and "t < N"
    and "reading_pc (bpcs s t)" and "sized (bpcs s t) = Some n"
  shows "n = head_len (nl_deref K (guarded_bucket s))"
  using assms
proof (induction rule: guarded_reachable.induct)
  case start
  then show ?case by (simp add: guarded_init_def)
next
  case (step s s')
  from step.hyps(2) lock_inv_reachable [OF step.hyps(1)] step.prems(1) step.IH [OF step.prems(1)] step.prems(2,3)
  show ?case by (rule sized_step)
qed

lemma sized_chain:
  assumes "guarded_reachable cfg A K N sid s" and "N < 2147483647"
    and "\<And>k. k < 32 \<Longrightarrow> block_fits A (2 ^ k)" and "size (slots_out N s) < 2147483647"
    and "t < N" and "sized (bpcs s t) = Some n"
  shows "chain_size n"
  using assms(1,4,5,6)
proof (induction rule: guarded_reachable.induct)
  case start
  then show ?case by (simp add: guarded_init_def)
next
  case (step s s')
  have few: "size (slots_out N s) < 2147483647"
    using slots_grow [OF step.hyps(2)] step.prems(1) by simp
  show ?case
  proof (cases "reading_pc (bpcs s' t)")
    case True
    have reach: "guarded_reachable cfg A K N sid s'"
      using step.hyps by (rule guarded_reachable.step)
    obtain r where
      r: "race_inv N sid r" "simulates cfg A K N s' r" "race_bucket r = nl_deref K (guarded_bucket s')"
        "depth (race_bucket r) < 32"
      by (rule reading_bucket [OF reach assms(2,3) step.prems(1,2) True])
    then have "chain_size (head_len (race_bucket r))"
      by (intro chain_size_head [of sid]) (simp_all add: race_inv_def)
    with r(3) sized_head [OF reach step.prems(2) True step.prems(3)] show ?thesis by simp
  next
    case False
    with step.hyps(2) step.prems(3) have "sized (bpcs s t) = Some n"
      by cases (auto split: if_splits dest: bstep_sized)
    with step.IH few step.prems(2) show ?thesis by blast
  qed
qed

lemma capacity_exact_reading:
  assumes "guarded_reachable cfg A K N sid s" and "N < 2147483647"
    and "\<And>k. k < 32 \<Longrightarrow> block_fits A (2 ^ k)" and "size (slots_out N s) < 2147483647"
    and t: "t < N" and p: "bpcs s t = CapacitySized n" and "between N s = 0"
  shows "\<exists>touched allocated.
    capacity_result cfg n (load (next_unused_slot (nl_deref K (guarded_bucket s)))) = Value (touched, allocated) \<and>
    unat touched = size (slots_out N s) \<and> touched \<le> allocated"
proof -
  have reading: "reading_pc (bpcs s t)" "sized (bpcs s t) = Some n" using p by simp_all
  obtain r where r: "race_inv N sid r" "simulates cfg A K N s r"
      "race_bucket r = nl_deref K (guarded_bucket s)" "depth (race_bucket r) < 32"
    by (rule reading_bucket [OF assms(1-4) t reading(1)])
  then have ok: "bucket_ok sid (race_bucket r)" and given: "given r = touched_slots (race_bucket r)"
    and "settled (race_bucket r)"
    using assms(7) by (simp_all add: race_inv_def simulates_def settled_def word_le_nat_alt)
  then obtain touched allocated where
      "bucket_capacity cfg (race_bucket r) = Value (touched, allocated)"
      "unat touched = length (touched_slots (race_bucket r))"
      "unat allocated = length (untouched_slots (race_bucket r) @ touched_slots (race_bucket r))"
    using r(4) by (rule_tac bucket_capacity_spec)
  moreover have "size (slots_out N s) = length (given r)"
    using r(2) unfolding simulates_def by (metis size_mset)
  ultimately show ?thesis
    using sized_head [OF assms(1) t reading] r(3) given
    by (simp add: bucket_capacity_result load_def word_le_nat_alt)
qed

section \<open>No thread waits for ever\<close>

lemma someone_goes_on:
  assumes reach: "guarded_reachable cfg A K N sid s" and N: "N < 2147483647"
    and memory: "\<And>k. k < 32 \<Longrightarrow> block_fits A (2 ^ k)" and few: "size (slots_out N s) < 2147483647"
    and t: "t < N" and inside: "inside_call (bpcs s t)"
  obtains u p' l' h' where "u < N" "inside_call (bpcs s u)"
    "bstep cfg A K u (bpcs s u) (guarded_bucket s, guarded_heap s) = Some (p', l', h')"
proof (cases "\<exists>u<N. reading_pc (bpcs s u) \<or> writing_pc (bpcs s u)")
  case True
  then obtain u where u: "u < N" "reading_pc (bpcs s u) \<or> writing_pc (bpcs s u)" by blast
  obtain r where "simulates cfg A K N s r"
      "\<exists>x. inner_next_insert_location cfg (race_bucket r) = Value x"
      "\<exists>x. next_insert_location_slow cfg A (race_bucket r) (race_heap r) = Value x"
    by (rule ready [OF reach N memory few no_panic [OF reach N memory few]])
  from inside_steps [OF lock_inv_reachable [OF reach] this(1) u(1) this(2,3) u(2)]
  obtain p' l' h' where "bstep cfg A K u (bpcs s u) (guarded_bucket s, guarded_heap s) = Some (p', l', h')"
    by blast
  moreover have "inside_call (bpcs s u)" using u(2) by (cases "bpcs s u") (simp_all add: inside_call_def)
  ultimately show ?thesis using that u(1) by blast
next
  case False
  have inv: "lock_inv K N s" using reach by (rule lock_inv_reachable)
  have "{u. u < N \<and> reading_pc (bpcs s u)} = {}" using False by blast
  with lock_invD(1) [OF inv] have readers: "nl_readers K (guarded_bucket s) = {#}" by simp
  have writer: "nl_writer K (guarded_bucket s) = None"
  proof (cases "nl_writer K (guarded_bucket s)")
    case (Some u)
    with inv have "u < N \<and> writing_pc (bpcs s u)" unfolding lock_inv_def by blast
    with False show ?thesis by blast
  qed simp
  have "\<exists>p' l' h'. bstep cfg A K t (bpcs s t) (guarded_bucket s, guarded_heap s) = Some (p', l', h')"
    using inside
  proof (cases rule: inside_call_cases)
    case holds
    with False t show ?thesis by blast
  next
    case asks
    then show ?thesis using free_available [OF writer readers, of t] by auto
  next
    case (computes n u)
    then have "chain_size n" using sized_chain [OF reach N memory few t, of n] by simp
    then have "capacity_result cfg n u \<noteq> Hang" by (rule capacity_result_returns)
    with computes show ?thesis by (auto split: outcome.split)
  qed
  with that t inside show ?thesis by blast
qed

end

interpretation plain_bucket: bucket_lock plain_lock
  by unfold_locales

interpretation wrapped_bucket: bucket_lock "wrapped plain_lock"
  by unfold_locales

lemma wrapped_lock: "rw_locking K \<Longrightarrow> bucket_lock (wrapped K)"
  by (intro bucket_lock.intro rw_locking.wrapper_meets)

section \<open>A run\<close>

text \<open>Steps of one thread, for the witnesses.\<close>

definition go ::
  "build \<Rightarrow> platform \<Rightarrow> (bucket, 'l) native_lock \<Rightarrow> nat \<Rightarrow> ('e, 'l) guarded \<Rightarrow> ('e, 'l) guarded" where
  "go cfg A K t s =
     (case bstep cfg A K t (bpcs s t) (guarded_bucket s, guarded_heap s) of
        Some (p', l', h') \<Rightarrow> s\<lparr>guarded_bucket := l', guarded_heap := h', bpcs := (bpcs s)(t := p')\<rparr>
      | None \<Rightarrow> s)"

lemma go_reachable:
  assumes "guarded_reachable cfg A K N sid s" and "t < N"
  shows "guarded_reachable cfg A K N sid (go cfg A K t s)"
  using assms by (auto simp: go_def intro: guarded_reachable.step guarded_step.run split: option.split)

definition one_slot :: "store_id \<Rightarrow> bucket" where
  "one_slot sid = \<lparr>head = Some (Block None sid 0 1), next_unused_slot = 1, bucket_store = sid\<rparr>"

lemma go_times_reachable:
  assumes "guarded_reachable cfg A K N sid s" and "t < N"
  shows "guarded_reachable cfg A K N sid ((go cfg A K t ^^ n) s)"
  using assms by (induction n) (simp_all add: go_reachable)

lemma first_expansion:
  obtains h' where "bucket_expand cfg small_platform (bucket_new sid)
      (\<lparr>cells = (\<lambda>_. None), allocations = 0\<rparr> :: 'e heap) =
    Value (one_slot sid\<lparr>next_unused_slot := 0\<rparr>, h')"
proof -
  let ?h = "\<lparr>cells = (\<lambda>_. None), allocations = 0\<rparr> :: 'e heap"
  have "(0 :: nat) < 32" "block_fits small_platform (2 ^ 0)"
    by (simp_all add: small_platform_fits)
  then obtain h' where "block_new cfg small_platform (2 ^ 0) None sid ?h =
      Value (Block None sid (allocations ?h) (2 ^ 0), h')"
    by (rule block_new_spec)
  then show ?thesis
    by (intro that) (simp add: bucket_expand_def bucket_new_def INITIAL_BLOCK_SIZE_def store_directly_def one_slot_def)
qed

lemma inner_next_one_slot:
  "inner_next_insert_location cfg (bucket_new sid) = Value (None, bucket_new sid)"
  "inner_next_insert_location cfg (one_slot sid\<lparr>next_unused_slot := 0\<rparr>) = Value (Some (Address 0 0), one_slot sid)"
  "inner_next_insert_location cfg (one_slot sid) = Value (None, one_slot sid\<lparr>next_unused_slot := 2\<rparr>)"
proof -
  have "block_slot_address cfg (Block None sid 0 1) 0 = Value (Address 0 0)"
    using block_slot_address_eval [of 0 "Block None sid 0 1" cfg 0] by (simp add: scrambled_def)
  then show "inner_next_insert_location cfg (one_slot sid\<lparr>next_unused_slot := 0\<rparr>) = Value (Some (Address 0 0), one_slot sid)"
    by (simp add: inner_next_insert_location_def one_slot_def)
qed (simp_all add: inner_next_insert_location_def one_slot_def bucket_new_def)

text \<open>Thread 0 finds the first slot of a bucket, through the slow path.\<close>

lemma first_slot_located:
  assumes "0 < N"
  obtains h' where "guarded_reachable cfg small_platform (wrapped plain_lock) N sid
    \<lparr>guarded_bucket = \<lparr>rw_inner = \<lparr>pl_data = one_slot sid, pl_readers = {#}, pl_writer = None\<rparr>\<rparr>,
     guarded_heap = (h' :: 'e heap), bpcs = (\<lambda>_. Outside), located = [Address 0 0]\<rparr>"
proof -
  let ?K = "wrapped plain_lock"
  let ?s = "guarded_init sid ?K :: ('e, bucket plain_lock rwlock) guarded"
  let ?l = "\<lparr>rw_inner = \<lparr>pl_data = one_slot sid, pl_readers = {#}, pl_writer = None\<rparr>\<rparr>"
  let ?a = "?s\<lparr>bpcs := (bpcs ?s)(0 := FastRead)\<rparr>"
  obtain h' :: "'e heap" where new: "bucket_expand cfg small_platform (bucket_new sid)
      \<lparr>cells = (\<lambda>_. None), allocations = 0\<rparr> = Value (one_slot sid\<lparr>next_unused_slot := 0\<rparr>, h')"
    by (rule first_expansion)
  let ?b = "\<lparr>guarded_bucket = ?l, guarded_heap = h', bpcs = (\<lambda>_. Outside)(0 := Located (Address 0 0)), located = []\<rparr>"
  have "guarded_step cfg small_platform ?K N ?s ?a"
    by (rule guarded_step.locate) (simp_all add: guarded_init_def assms)
  then have "guarded_reachable cfg small_platform ?K N sid ?a"
    by (rule guarded_reachable.step [OF guarded_reachable.start])
  then have "guarded_reachable cfg small_platform ?K N sid ((go cfg small_platform ?K 0 ^^ 8) ?a)"
    using assms by (rule go_times_reachable)
  also have "(go cfg small_platform ?K 0 ^^ 8) ?a = ?b"
    by (simp add: eval_nat_numeral go_def guarded_init_def locked_bucket_new_def wrapper_defs plain_lock_def
        inner_next_one_slot new)
  finally have "guarded_reachable cfg small_platform ?K N sid ?b" .
  moreover have "guarded_step cfg small_platform ?K N ?b
      (?b\<lparr>bpcs := (bpcs ?b)(0 := Outside), located := Address 0 0 # located ?b\<rparr>)"
    using assms by (intro guarded_step.found) simp_all
  ultimately have "guarded_reachable cfg small_platform ?K N sid
      (?b\<lparr>bpcs := (bpcs ?b)(0 := Outside), located := Address 0 0 # located ?b\<rparr>)"
    by (rule guarded_reachable.step)
  moreover have "((\<lambda>_. Outside)(0 := Located (Address 0 0)))(0 := Outside) = (\<lambda>_ :: nat. Outside)"
    by (rule ext) simp
  ultimately show ?thesis by (intro that [of h']) simp
qed

text \<open>Thread 0 then fails the fast path while thread 1 measures the capacity.\<close>

lemma capacity_result_underflow:
  "capacity_result cfg 1 2 = (if overflow_checks cfg then Fault ArithmeticOverflow else Value (2, 1))"
  using head_size_to_total_size_exp [of 0 cfg] by (simp add: capacity_result_def checked_sub_def)

text \<open>
  C23. The bucket under its lock refines the machine whose steps are the whole fast path and the
  whole slow path. Any number of threads run \<open>next_insert_location\<close> and \<open>capacity\<close> in steps as
  small as the accesses to the lock and to what it protects, with any lock that keeps the contract
  of a read-write lock. In every state that they reach, the slots found so far and the number of
  threads between the two paths are those of a state that the atomic machine reaches.
\<close>

theorem bucket_refines_race:
  fixes s :: "('e, 'l rwlock) guarded"
  assumes "rw_locking K" and "guarded_reachable cfg A (wrapped K) N sid s" and "N < 2147483647"
    and "\<And>k. k < 32 \<Longrightarrow> block_fits A (2 ^ k)" and "size (slots_out N s) < 2147483647"
  shows "\<exists>r :: 'e race. race_reachable cfg A N sid r \<and> pending r = between N s \<and> mset (given r) = slots_out N s"
proof -
  note lock = wrapped_lock [OF assms(1)]
  obtain r where "race_reachable cfg A N sid r" "simulates cfg A (wrapped K) N s r"
    by (rule bucket_lock.ready [OF lock assms(2-5) bucket_lock.no_panic [OF lock assms(2-5)]])
  then show ?thesis by (auto simp: simulates_def)
qed

lemma small_fits: "k < 32 \<Longrightarrow> block_fits small_platform (2 ^ k)"
  by (intro small_platform_fits power_increasing) simp_all

lemma slots_out_outside: "slots_out N \<lparr>guarded_bucket = l, guarded_heap = h, bpcs = (\<lambda>_. Outside), located = ps\<rparr> = mset ps"
  "between N \<lparr>guarded_bucket = l, guarded_heap = h, bpcs = (\<lambda>_. Outside), located = ps\<rparr> = 0"
  by (simp_all add: slots_out_def between_def)

theorem bucket_refines_race_witness:
  "\<exists>r :: nat race. race_reachable debug_build small_platform 2 None r \<and> pending r = 0 \<and>
    mset (given r) = {#Address 0 0#}"
proof -
  obtain h' :: "nat heap" where "guarded_reachable debug_build small_platform (wrapped plain_lock) 2 None
    \<lparr>guarded_bucket = \<lparr>rw_inner = \<lparr>pl_data = one_slot None, pl_readers = {#}, pl_writer = None\<rparr>\<rparr>,
     guarded_heap = h', bpcs = (\<lambda>_. Outside), located = [Address 0 0]\<rparr>"
    by (rule first_slot_located [of 2]) simp
  from bucket_refines_race [OF plain.rw_locking_axioms this _ small_fits] show ?thesis
    by (simp add: slots_out_outside)
qed

text \<open>
  C24. Finding a slot is safe at the granularity of the lock. With fewer than 2^31 - 1 threads and
  slots found, no thread that runs \<open>next_insert_location\<close> panics, in any interleaving and in every
  build, and no two calls find the same slot.
\<close>

theorem bucket_calls_safe:
  assumes "rw_locking K" and "guarded_reachable cfg A (wrapped K) N sid s" and "N < 2147483647"
    and "\<And>k. k < 32 \<Longrightarrow> block_fits A (2 ^ k)" and "size (slots_out N s) < 2147483647" and "t < N"
  shows "bpcs s t \<noteq> Panicked f \<and> count (slots_out N s) p \<le> 1"
proof -
  note lock = wrapped_lock [OF assms(1)]
  obtain r where r: "race_reachable cfg A N sid r" "simulates cfg A (wrapped K) N s r"
      "length (given r) < 2147483647"
    by (rule bucket_lock.ready [OF lock assms(2-5) bucket_lock.no_panic [OF lock assms(2-5)]])
  then have "distinct (given r)" using race_reachable_safe [OF r(1) assms(3,4)] by blast
  then have "count (mset (given r)) p \<le> 1" by (simp add: distinct_count_atmost_1)
  with r(2) bucket_lock.no_panic [OF lock assms(2-6)] show ?thesis by (simp add: simulates_def)
qed

theorem bucket_calls_safe_witness:
  "\<exists>s :: (nat, bucket plain_lock rwlock) guarded.
    guarded_reachable debug_build small_platform (wrapped plain_lock) 2 None s \<and>
    located s = [Address 0 0] \<and> bpcs s 0 \<noteq> Panicked UnwrapNone \<and> count (slots_out 2 s) (Address 0 0) \<le> 1"
proof -
  obtain h' :: "nat heap" where "guarded_reachable debug_build small_platform (wrapped plain_lock) 2 None
    \<lparr>guarded_bucket = \<lparr>rw_inner = \<lparr>pl_data = one_slot None, pl_readers = {#}, pl_writer = None\<rparr>\<rparr>,
     guarded_heap = h', bpcs = (\<lambda>_. Outside), located = [Address 0 0]\<rparr>" (is "guarded_reachable _ _ _ _ _ ?s")
    by (rule first_slot_located [of 2]) simp
  moreover from bucket_calls_safe [OF plain.rw_locking_axioms this _ small_fits, of 0]
  have "bpcs ?s 0 \<noteq> Panicked UnwrapNone \<and> count (slots_out 2 ?s) (Address 0 0) \<le> 1"
    by (simp add: slots_out_outside)
  ultimately show ?thesis by fastforce
qed

text \<open>
  C25. No thread waits for ever for a bucket. While a call of \<open>next_insert_location\<close> or
  \<open>capacity\<close> is running, some thread inside a call can take its next step, and each step brings
  its call nearer to its end, which is at most eight steps after its beginning; so no guard is
  leaked and the two acquisitions of the lock cannot deadlock.
\<close>

theorem bucket_calls_finish:
  assumes "rw_locking K" and "guarded_reachable cfg A (wrapped K) N sid s" and "N < 2147483647"
    and "\<And>k. k < 32 \<Longrightarrow> block_fits A (2 ^ k)" and "size (slots_out N s) < 2147483647"
    and "t < N" and "inside_call (bpcs s t)"
  shows "\<exists>u p' l' h'. u < N \<and> inside_call (bpcs s u) \<and>
    bstep cfg A (wrapped K) u (bpcs s u) (guarded_bucket s, guarded_heap s) = Some (p', l', h') \<and>
    steps_left p' < steps_left (bpcs s u) \<and> steps_left (bpcs s u) \<le> 8"
proof -
  obtain u p' l' h' where u: "u < N" "inside_call (bpcs s u)"
      "bstep cfg A (wrapped K) u (bpcs s u) (guarded_bucket s, guarded_heap s) = Some (p', l', h')"
    by (rule bucket_lock.someone_goes_on [OF wrapped_lock [OF assms(1)] assms(2-7)])
  moreover have "steps_left (bpcs s u) \<le> 8" by (cases "bpcs s u") simp_all
  ultimately show ?thesis using bstep_steps_left [OF u(3)] by blast
qed

theorem bucket_calls_finish_witness:
  "\<exists>(s :: (nat, bucket plain_lock rwlock) guarded) u p' l' h'. bpcs s 0 = FastRead \<and>
    bstep debug_build small_platform (wrapped plain_lock) u (bpcs s u) (guarded_bucket s, guarded_heap s) =
      Some (p', l', h') \<and> steps_left p' < steps_left (bpcs s u)"
proof -
  let ?s = "guarded_init None (wrapped plain_lock) :: (nat, bucket plain_lock rwlock) guarded"
  let ?a = "?s\<lparr>bpcs := (bpcs ?s)(0 := FastRead)\<rparr>"
  have "guarded_step debug_build small_platform (wrapped plain_lock) 1 ?s ?a"
    by (rule guarded_step.locate) (simp_all add: guarded_init_def)
  then have "guarded_reachable debug_build small_platform (wrapped plain_lock) 1 None ?a"
    by (rule guarded_reachable.step [OF guarded_reachable.start])
  moreover have "slots_out 1 ?a = {#}" by (simp add: slots_out_def guarded_init_def)
  ultimately show ?thesis
    using bucket_calls_finish [OF plain.rw_locking_axioms _ _ small_fits, of debug_build 1 None ?a 0]
    by (auto simp: inside_call_def intro!: exI [of _ ?a])
qed

text \<open>
  C26. \<open>capacity\<close> is exact when no thread is between the two paths at the moment it loads
  \<open>next_unused_slot\<close>, whatever other threads do before and after: the touched capacity is the
  number of slots found so far, and the allocated capacity is at least that, in every build.
\<close>

theorem capacity_counts_located:
  assumes "rw_locking K" and "guarded_reachable cfg A (wrapped K) N sid s" and "N < 2147483647"
    and "\<And>k. k < 32 \<Longrightarrow> block_fits A (2 ^ k)" and "size (slots_out N s) < 2147483647"
    and "t < N" and "bpcs s t = CapacitySized n" and "between N s = 0"
  shows "\<exists>touched allocated next_slot.
    bstep cfg A (wrapped K) t (bpcs s t) (guarded_bucket s, guarded_heap s) =
      Some (CapacityLoaded n next_slot, guarded_bucket s, guarded_heap s) \<and>
    capacity_result cfg n next_slot = Value (touched, allocated) \<and>
    unat touched = size (slots_out N s) \<and> touched \<le> allocated"
  using bucket_lock.capacity_exact_reading [OF wrapped_lock [OF assms(1)] assms(2-8)] assms(7) by simp

theorem capacity_counts_located_witness:
  "\<exists>touched allocated next_slot. capacity_result debug_build 1 next_slot = Value (touched, allocated) \<and>
    unat touched = 1 \<and> touched \<le> allocated"
proof -
  let ?K = "wrapped plain_lock" and ?A = small_platform
  let ?l = "\<lambda>r. \<lparr>rw_inner = \<lparr>pl_data = one_slot None, pl_readers = r, pl_writer = None\<rparr>\<rparr>"
  obtain h' :: "nat heap" where one: "guarded_reachable debug_build ?A ?K 1 None
    \<lparr>guarded_bucket = ?l {#}, guarded_heap = h', bpcs = (\<lambda>_. Outside), located = [Address 0 0]\<rparr>"
    (is "guarded_reachable _ _ _ _ _ ?s")
    by (rule first_slot_located [of 1]) simp
  let ?s1 = "?s\<lparr>bpcs := (bpcs ?s)(0 := CapacityRead)\<rparr>"
  let ?s2 = "?s\<lparr>guarded_bucket := ?l {#0#}, bpcs := (\<lambda>_. Outside)(0 := CapacitySized 1)\<rparr>"
  have "guarded_step debug_build ?A ?K 1 ?s ?s1" by (rule guarded_step.measure) simp_all
  with one have "guarded_reachable debug_build ?A ?K 1 None ?s1" by (rule guarded_reachable.step)
  then have "guarded_reachable debug_build ?A ?K 1 None ((go debug_build ?A ?K 0 ^^ 2) ?s1)"
    by (rule go_times_reachable) simp
  also have "(go debug_build ?A ?K 0 ^^ 2) ?s1 = ?s2"
    by (simp add: numeral_2_eq_2 go_def wrapper_defs plain_lock_def head_len_def one_slot_def)
  finally have reach: "guarded_reachable debug_build ?A ?K 1 None ?s2" .
  have "slots_out 1 ?s2 = {#Address 0 0#}" "between 1 ?s2 = 0"
    by (simp_all add: slots_out_def between_def)
  then show ?thesis
    using capacity_counts_located [OF plain.rw_locking_axioms reach _ small_fits, of 0 1]
    by auto
qed

text \<open>
  C27. But \<open>capacity\<close> is not safe to call while a thread is between the two paths: the failed
  \<open>fetch_add\<close> has pushed \<open>next_unused_slot\<close> beyond the head block, so the subtraction in
  \<open>capacity\<close> underflows. Two threads reach such a state in a bucket of one used slot: the call
  panics when overflow is checked and otherwise reports two touched slots of one allocated.
\<close>

theorem capacity_panics:
  "\<exists>s :: ('e, bucket plain_lock rwlock) guarded.
    guarded_reachable cfg small_platform (wrapped plain_lock) 2 sid s \<and> slots_out 2 s = {#Address 0 0#} \<and>
    bpcs s 1 = (if overflow_checks cfg then CapacityPanicked ArithmeticOverflow else Measured (2, 1))"
proof -
  let ?K = "wrapped plain_lock" and ?A = small_platform
  obtain h' :: "'e heap" where one: "guarded_reachable cfg ?A ?K 2 sid
    \<lparr>guarded_bucket = \<lparr>rw_inner = \<lparr>pl_data = one_slot sid, pl_readers = {#}, pl_writer = None\<rparr>\<rparr>,
     guarded_heap = h', bpcs = (\<lambda>_. Outside), located = [Address 0 0]\<rparr>" (is "guarded_reachable _ _ _ _ _ ?s")
    by (rule first_slot_located [of 2]) simp
  let ?s1 = "?s\<lparr>bpcs := (bpcs ?s)(0 := FastRead)\<rparr>"
  let ?s2 = "?s1\<lparr>bpcs := (bpcs ?s1)(1 := CapacityRead)\<rparr>"
  let ?b = "\<lambda>r. \<lparr>rw_inner = \<lparr>pl_data = one_slot sid\<lparr>next_unused_slot := 2\<rparr>, pl_readers = r, pl_writer = None\<rparr>\<rparr>"
  let ?s3 = "?s\<lparr>guarded_bucket := ?b {#0#}, bpcs := (\<lambda>_. Outside)(0 := FastMissed, 1 := CapacityRead)\<rparr>"
  let ?p = "if overflow_checks cfg then CapacityPanicked ArithmeticOverflow else Measured (2, 1)"
  let ?s4 = "?s\<lparr>guarded_bucket := ?b {#1, 0#}, bpcs := (\<lambda>_. Outside)(0 := FastMissed, 1 := CapacitySized 1)\<rparr>"
  let ?s5 = "?s4\<lparr>guarded_bucket := ?b {#0#}, bpcs := (\<lambda>_. Outside)(0 := FastMissed, 1 := ?p)\<rparr>"
  have "guarded_step cfg ?A ?K 2 ?s ?s1" by (rule guarded_step.locate) simp_all
  with one have "guarded_reachable cfg ?A ?K 2 sid ?s1" by (rule guarded_reachable.step)
  moreover have "guarded_step cfg ?A ?K 2 ?s1 ?s2" by (rule guarded_step.measure) simp_all
  ultimately have "guarded_reachable cfg ?A ?K 2 sid ?s2" by (rule guarded_reachable.step)
  then have "guarded_reachable cfg ?A ?K 2 sid ((go cfg ?A ?K 0 ^^ 2) ?s2)"
    by (rule go_times_reachable) simp
  also have "(go cfg ?A ?K 0 ^^ 2) ?s2 = ?s3"
    by (simp add: eval_nat_numeral go_def wrapper_defs plain_lock_def inner_next_one_slot fun_upd_twist)
  finally have "guarded_reachable cfg ?A ?K 2 sid ((go cfg ?A ?K 1 ^^ 2) ?s3)"
    by (rule go_times_reachable) simp
  also have "(go cfg ?A ?K 1 ^^ 2) ?s3 = ?s4"
    by (simp add: eval_nat_numeral go_def wrapper_defs plain_lock_def fun_upd_twist head_len_def one_slot_def)
  finally have "guarded_reachable cfg ?A ?K 2 sid ((go cfg ?A ?K 1 ^^ 3) ?s4)"
    by (rule go_times_reachable) simp
  moreover have "(go cfg ?A ?K 1 ^^ 3) ?s4 = ?s5"
    by (cases "overflow_checks cfg")
      (simp_all add: numeral_3_eq_3 go_def wrapper_defs plain_lock_def capacity_result_underflow load_def)
  moreover have "slots_out 2 ?s5 = {#Address 0 0#}"
    by (simp add: slots_out_def eval_nat_numeral)
  ultimately show ?thesis by (intro exI [of _ ?s5] conjI) simp_all
qed

end
