(* ===== verification/RwClient.thy ===== *)
theory RwClient
  imports RwShared
begin

text \<open>
  Threads that run fixed programs of calls on one element of a store, as the tests of
  \<open>src/src/loom.rs\<close> do. A program is a list of actions; the calls and guards of a thread take the
  steps of the shared slot (\<open>RwShared\<close>), in any interleaving with those of the other threads. For
  programs that keep a simple discipline (never ask for a lock that the guards already held
  exclude, and drop every guard) no thread panics and the threads never deadlock.
\<close>

section \<open>Programs\<close>

text \<open>
  Asking for a lock leaves the thread with a guard if the call returns one, and dropping a guard
  does nothing if there is none. \<open>RemoveLocked\<close> passes the guard to \<open>remove_locked\<close>.
\<close>

datatype act =
    AskRead timeout
  | AskWrite timeout
  | AskRemove timeout
  | DropRead
  | DropWrite
  | RemoveLocked
  | UnwrapGuard
  | SetFlag
  | AssertUnset

record ('e, 'q) threads =
  item :: "('e, 'q) shared"
  todo :: "nat \<Rightarrow> act list"
  raised :: bool
  panicked :: "nat set"

text \<open>The steps a thread takes inside a call, without a new action of its program.\<close>

inductive own_step ::
  "build \<Rightarrow> 'q parker \<Rightarrow> nat \<Rightarrow> nat \<Rightarrow> ('e, 'q) shared \<Rightarrow> ('e, 'q) shared \<Rightarrow> bool"
  for cfg :: build and P :: "'q parker" and N :: nat and t :: nat and s :: "('e, 'q) shared" where
  run: "exec_event cfg P N (Run t ch) (header_of s) = Some h \<Longrightarrow>
    own_step cfg P N t s (s\<lparr>header_of := h\<rparr>)"
| return: "t < N \<Longrightarrow> pcs (header_of s) t = Some (Finished r) \<Longrightarrow>
    exec_event cfg P N (Return t) (header_of s) = Some h \<Longrightarrow>
    own_step cfg P N t s (s\<lparr>header_of := h, jobs := (jobs s)(t := after_return r)\<rparr>)"
| take: "jobs s t = Take may_reuse \<Longrightarrow>
    own_step cfg P N t s (s\<lparr>cell := None, jobs := (jobs s)(t := if may_reuse then Push else Idle)\<rparr>)"
| push: "jobs s t = Push \<Longrightarrow>
    own_step cfg P N t s (s\<lparr>available := True, jobs := (jobs s)(t := Idle)\<rparr>)"
| take_locked: "jobs s t = TakeLocked i \<Longrightarrow>
    own_step cfg P N t s (s\<lparr>cell := None, jobs := (jobs s)(t := TakenLocked i)\<rparr>)"
| unlock_removed: "jobs s t = TakenLocked i \<Longrightarrow>
    call_event cfg t (OpRemoveLocked i) (header_of s) = Some h \<Longrightarrow>
    own_step cfg P N t s (s\<lparr>header_of := h, jobs := (jobs s)(t := Idle)\<rparr>)"

lemma own_step_shared: "own_step cfg P N t s s' \<Longrightarrow> shared_step cfg P N s s'"
  by (cases rule: own_step.cases) (auto intro: shared_step.intros)

text \<open>The header operation an action starts; \<open>i\<close> is the ID of the element, \<open>j\<close> that of a guard.\<close>

inductive starts :: "u32 \<Rightarrow> 'q sys \<Rightarrow> nat \<Rightarrow> act \<Rightarrow> header_op \<Rightarrow> bool"
  for i :: u32 and h :: "'q sys" and t :: nat where
  asks_read: "starts i h t (AskRead to) (OpLockRead i to)"
| asks_write: "starts i h t (AskWrite to) (OpLockWrite i to)"
| asks_remove: "starts i h t (AskRemove to) (OpRemove i to)"
| drop_read: "j \<in># reads h t \<Longrightarrow> starts i h t DropRead (OpUnlockRead j)"
| drop_write: "j \<in># writes h t \<Longrightarrow> starts i h t DropWrite (OpUnlockWrite j)"

definition has_guard :: "'q sys \<Rightarrow> nat \<Rightarrow> bool" where
  "has_guard h t \<longleftrightarrow> reads h t \<noteq> {#} \<or> writes h t \<noteq> {#}"

fun no_effect :: "act \<Rightarrow> 'q sys \<Rightarrow> nat \<Rightarrow> bool" where
  "no_effect DropRead h t \<longleftrightarrow> reads h t = {#}"
| "no_effect DropWrite h t \<longleftrightarrow> writes h t = {#}"
| "no_effect RemoveLocked h t \<longleftrightarrow> writes h t = {#}"
| "no_effect UnwrapGuard h t \<longleftrightarrow> has_guard h t"
| "no_effect _ h t \<longleftrightarrow> False"

inductive threads_step ::
  "build \<Rightarrow> 'q parker \<Rightarrow> nat \<Rightarrow> u32 \<Rightarrow> nat \<Rightarrow> ('e, 'q) threads \<Rightarrow> ('e, 'q) threads \<Rightarrow> bool"
  for cfg :: build and P :: "'q parker" and N :: nat and i :: u32 and t :: nat and c :: "('e, 'q) threads"
where
  own: "t < N \<Longrightarrow> own_step cfg P N t (item c) s' \<Longrightarrow> threads_step cfg P N i t c (c\<lparr>item := s'\<rparr>)"
| start: "t < N \<Longrightarrow> free (item c) t \<Longrightarrow> todo c t = a # as \<Longrightarrow> starts i (header_of (item c)) t a op \<Longrightarrow>
    call_event cfg t op (header_of (item c)) = Some h \<Longrightarrow>
    threads_step cfg P N i t c (c\<lparr>item := (item c)\<lparr>header_of := h\<rparr>, todo := (todo c)(t := as)\<rparr>)"
| remove_locked: "t < N \<Longrightarrow> free (item c) t \<Longrightarrow> todo c t = RemoveLocked # as \<Longrightarrow>
    j \<in># writes (header_of (item c)) t \<Longrightarrow>
    threads_step cfg P N i t c (c\<lparr>item := (item c)\<lparr>jobs := (jobs (item c))(t := TakeLocked j)\<rparr>,
      todo := (todo c)(t := as)\<rparr>)"
| skip: "t < N \<Longrightarrow> free (item c) t \<Longrightarrow> todo c t = a # as \<Longrightarrow> no_effect a (header_of (item c)) t \<Longrightarrow>
    threads_step cfg P N i t c (c\<lparr>todo := (todo c)(t := as)\<rparr>)"
| set_flag: "t < N \<Longrightarrow> free (item c) t \<Longrightarrow> todo c t = SetFlag # as \<Longrightarrow>
    threads_step cfg P N i t c (c\<lparr>raised := True, todo := (todo c)(t := as)\<rparr>)"
| assert_holds: "t < N \<Longrightarrow> free (item c) t \<Longrightarrow> todo c t = AssertUnset # as \<Longrightarrow> \<not> raised c \<Longrightarrow>
    threads_step cfg P N i t c (c\<lparr>todo := (todo c)(t := as)\<rparr>)"
| assert_fails: "t < N \<Longrightarrow> free (item c) t \<Longrightarrow> todo c t = AssertUnset # as \<Longrightarrow> raised c \<Longrightarrow>
    threads_step cfg P N i t c (c\<lparr>panicked := insert t (panicked c)\<rparr>)"
| unwrap_none: "t < N \<Longrightarrow> free (item c) t \<Longrightarrow> todo c t = UnwrapGuard # as \<Longrightarrow>
    \<not> has_guard (header_of (item c)) t \<Longrightarrow>
    threads_step cfg P N i t c (c\<lparr>panicked := insert t (panicked c)\<rparr>)"

inductive threads_reachable ::
  "build \<Rightarrow> 'q parker \<Rightarrow> nat \<Rightarrow> u32 \<Rightarrow> ('e, 'q) threads \<Rightarrow> ('e, 'q) threads \<Rightarrow> bool"
  for cfg :: build and P :: "'q parker" and N :: nat and i :: u32 and c0 :: "('e, 'q) threads" where
  start: "threads_reachable cfg P N i c0 c0"
| step: "threads_reachable cfg P N i c0 c \<Longrightarrow> threads_step cfg P N i t c c' \<Longrightarrow>
    threads_reachable cfg P N i c0 c'"

definition finished :: "('e, 'q) threads \<Rightarrow> nat \<Rightarrow> bool" where
  "finished c t \<longleftrightarrow> free (item c) t \<and> todo c t = []"

text \<open>A thread has panicked: in a call on the store, or in the program itself.\<close>

definition crashed :: "('e, 'q) threads \<Rightarrow> nat \<Rightarrow> bool" where
  "crashed c t \<longleftrightarrow> t \<in> panicked c \<or> (\<exists>f. pcs (header_of (item c)) t = Some (Failed f))"

section \<open>The slot takes steps of its own machine\<close>

lemma starts_direct: "starts i h t a op \<Longrightarrow> direct op"
  by (cases rule: starts.cases) auto

lemma threads_step_shared:
  assumes "threads_step cfg P N i t c c'"
  shows "item c' = item c \<or> shared_step cfg P N (item c) (item c')"
  using assms
proof cases
  case (start a as op h)
  have "shared_step cfg P N (item c) ((item c)\<lparr>header_of := h\<rparr>)"
    using start(2,3) starts_direct [OF start(5)] start(6) by (rule shared_step.direct)
  then show ?thesis using start(1) by simp
qed (auto intro: own_step_shared shared_step.remove_locked)

lemma threads_reachable_shared:
  "threads_reachable cfg P N i c0 c \<Longrightarrow> shared_reachable cfg P N (item c0) \<Longrightarrow>
    shared_reachable cfg P N (item c)"
  by (induction rule: threads_reachable.induct)
    (auto dest!: threads_step_shared intro: shared_reachable.step)

section \<open>The discipline\<close>

text \<open>At most \<open>R\<close> read guards at a time; \<open>r\<close> and \<open>w\<close> bound the guards held before the actions.\<close>

fun disciplined :: "nat \<Rightarrow> nat \<Rightarrow> nat \<Rightarrow> act list \<Rightarrow> bool" where
  "disciplined R r w [] \<longleftrightarrow> r = 0 \<and> w = 0"
| "disciplined R r w (AskRead to # as) \<longleftrightarrow> w = 0 \<and> r < R \<and> disciplined R (Suc r) 0 as"
| "disciplined R r w (AskWrite to # as) \<longleftrightarrow> r = 0 \<and> w = 0 \<and> disciplined R 0 1 as"
| "disciplined R r w (AskRemove to # as) \<longleftrightarrow> r = 0 \<and> w = 0 \<and> disciplined R 0 0 as"
| "disciplined R r w (DropRead # as) \<longleftrightarrow> 0 < r \<and> disciplined R (r - 1) w as"
| "disciplined R r w (DropWrite # as) \<longleftrightarrow> w = 1 \<and> disciplined R r 0 as"
| "disciplined R r w (RemoveLocked # as) \<longleftrightarrow> r = 0 \<and> w = 1 \<and> disciplined R 0 0 as"
| "disciplined R r w (UnwrapGuard # as) \<longleftrightarrow> disciplined R r w as"
| "disciplined R r w (SetFlag # as) \<longleftrightarrow> disciplined R r w as"
| "disciplined R r w (AssertUnset # as) \<longleftrightarrow> disciplined R r w as"

text \<open>What call a program counter belongs to.\<close>

datatype purpose = ForRead | ForWrite | ForRemove | Other

fun caller_purpose :: "caller \<Rightarrow> purpose" where
  "caller_purpose (CallLockWrite i) = ForWrite"
| "caller_purpose (CallRemove n) = ForRemove"

fun blocker_purpose :: "blocker \<Rightarrow> purpose" where
  "blocker_purpose (BlockRead i to) = ForRead"
| "blocker_purpose (BlockTransition e n to k) = caller_purpose k"

fun purpose_of :: "pc \<Rightarrow> purpose" where
  "purpose_of (LockReadLoad i to) = ForRead"
| "purpose_of (LockReadCurrent i c to) = ForRead"
| "purpose_of (LockReadSlow i to) = ForRead"
| "purpose_of (LockReadMatched i c to) = ForRead"
| "purpose_of (Transition e n to k) = caller_purpose k"
| "purpose_of (TransitionSlow e n to k) = caller_purpose k"
| "purpose_of (ParkEnter b) = blocker_purpose b"
| "purpose_of (ParkClosure b) = blocker_purpose b"
| "purpose_of (ParkMark b e) = blocker_purpose b"
| "purpose_of (ParkCommit b) = blocker_purpose b"
| "purpose_of (ParkAsleep b) = blocker_purpose b"
| "purpose_of (ParkCancel b r) = blocker_purpose b"
| "purpose_of (Finished (ResRead i r)) = ForRead"
| "purpose_of (Finished (ResWrite i r)) = ForWrite"
| "purpose_of (Finished (ResRemove r)) = ForRemove"
| "purpose_of _ = Other"

text \<open>A call of \<open>lock_read\<close> that is not on its way to sleep, and one that has not seen the limit.\<close>

fun unblocked :: "pc \<Rightarrow> bool" where
  "unblocked (LockReadCurrent i c to) \<longleftrightarrow> \<not> is_write_locked c"
| "unblocked (LockReadSlow i to) \<longleftrightarrow> False"
| "unblocked (LockReadMatched i c to) \<longleftrightarrow> False"
| "unblocked (ParkEnter b) \<longleftrightarrow> blocker_purpose b \<noteq> ForRead"
| "unblocked (ParkClosure b) \<longleftrightarrow> blocker_purpose b \<noteq> ForRead"
| "unblocked (ParkMark b e) \<longleftrightarrow> blocker_purpose b \<noteq> ForRead"
| "unblocked (ParkCommit b) \<longleftrightarrow> blocker_purpose b \<noteq> ForRead"
| "unblocked (ParkAsleep b) \<longleftrightarrow> blocker_purpose b \<noteq> ForRead"
| "unblocked (ParkCancel b r) \<longleftrightarrow> blocker_purpose b \<noteq> ForRead"
| "unblocked _ \<longleftrightarrow> True"

fun modest :: "pc \<Rightarrow> bool" where
  "modest (LockReadCurrent i c to) \<longleftrightarrow> readers_from_bits c \<noteq> MAX_CONCURRENT_READS"
| "modest (LockReadMatched i c to) \<longleftrightarrow> readers_from_bits c \<noteq> MAX_CONCURRENT_READS"
| "modest (ParkCancel b (Matched c)) \<longleftrightarrow> readers_from_bits c \<noteq> MAX_CONCURRENT_READS"
| "modest _ \<longleftrightarrow> True"

lemma caller_not_ForRead [simp]: "caller_purpose k \<noteq> ForRead"
  by (cases k) simp_all

lemma purpose_transition_result [simp]: "purpose_of (Finished (transition_result k r)) = caller_purpose k"
  by (cases "(k, r)" rule: transition_result.cases) auto

lemma purpose_timed_out [simp]: "purpose_of (Finished (blocker_timed_out b)) = blocker_purpose b"
  by (cases b) auto

lemma purpose_after_block [simp]: "purpose_of (after_block b r) = blocker_purpose b"
  by (cases "(b, r)" rule: after_block.cases) auto

lemma purpose_read_cas:
  "read_cas cfg ch i c to w = (p', w') \<Longrightarrow> purpose_of p' = ForRead \<or> (\<exists>f. p' = Failed f)"
  by (auto simp: read_cas_def split: outcome.splits prod.splits result.splits)

lemma pc_of_cases: "(\<exists>p. x = Value p \<and> pc_of x = p) \<or> (\<exists>f. pc_of x = Failed f)"
  by (cases x) auto

lemma purpose_swap_checks:
  "(\<forall>i x. r \<noteq> ResRead i x) \<and> (\<forall>i x. r \<noteq> ResWrite i x) \<and> (\<forall>x. r \<noteq> ResRemove x) \<Longrightarrow>
    purpose_of (swap_checks cfg i w r) = Other"
  by (cases r) (auto simp: swap_checks_def debug_assert_def has_thread_blocking_def omap_def
      split: outcome.splits)

lemma hstep_purpose:
  assumes step: "hstep cfg P t ch p (w, q) = Some (p', w', q')" and ok: "pc_ok w p"
    and calm: "\<And>f. p' \<noteq> Failed f"
  shows "purpose_of p' = purpose_of p"
proof (cases p)
  case (LockReadCurrent i c to)
  with step calm show ?thesis by (auto split: if_splits prod.splits dest: purpose_read_cas)
next
  case (LockReadMatched i c to)
  with step calm show ?thesis by (auto split: prod.splits dest: purpose_read_cas)
next
  case (ParkAsleep b)
  with step show ?thesis by (auto split: choice.splits result.splits option.splits)
next
  case (ParkClosure b)
  with step show ?thesis by (auto split: prod.splits block_choice.splits)
next
  case OccupyFetchOr
  with step calm show ?thesis by (auto simp: debug_assert_def split: if_splits)
next
  case (Unpark r)
  with step ok show ?thesis by auto
qed (use step calm in \<open>auto simp: purpose_swap_checks split: if_splits prod.splits result.splits outcome.splits
    option.splits\<close>)

lemma swap_checks_result:
  "swap_checks cfg i w r = Unpark r \<or> swap_checks cfg i w r = Finished r \<or>
    (\<exists>f. swap_checks cfg i w r = Failed f)"
  by (auto simp: swap_checks_def debug_assert_def has_thread_blocking_def)

lemma read_cas_result:
  "read_cas cfg ch i c to w = (p', w') \<Longrightarrow> (\<exists>f. p' = Failed f) \<or> p' = Finished (ResRead i (Ok True)) \<or>
    p' = LockReadCurrent i w to"
  by (cases ch) (auto simp: read_cas_def compare_exchange_def split: outcome.splits prod.splits result.splits if_splits)

lemma hstep_unblocked:
  assumes step: "hstep cfg P t ch p (w, q) = Some (p', w', q')" and p: "unblocked p" "purpose_of p = ForRead"
    and w: "\<not> is_write_locked w"
  shows "unblocked p'"
proof (cases p)
  case (LockReadCurrent i c to)
  with step p w show ?thesis by (auto split: if_splits prod.splits dest!: read_cas_result)
qed (use step p w in \<open>auto split: if_splits prod.splits result.splits\<close>)

lemma hstep_modest:
  assumes step: "hstep cfg P t ch p (w, q) = Some (p', w', q')" and p: "modest p"
    and w: "readers_from_bits w \<noteq> MAX_CONCURRENT_READS"
  shows "modest p'"
proof (cases p)
  case (LockReadCurrent i c to)
  with step p w show ?thesis by (auto split: if_splits prod.splits dest!: read_cas_result)
next
  case (LockReadMatched i c to)
  with step p w show ?thesis by (auto split: if_splits prod.splits dest!: read_cas_result)
next
  case (ParkClosure b)
  show ?thesis
  proof (cases "fst (run_closure (blocker_closure b) w)")
    case (DontBlockOn r)
    with step ParkClosure have "p' = ParkCancel b r" by (auto split: prod.splits)
    moreover have "r = Matched e \<Longrightarrow> e = w" for e
      using DontBlockOn run_closure_DontBlockOn_Matched [of "blocker_closure b" w e]
      by (metis prod.collapse)
    ultimately show ?thesis using w by (cases r) auto
  qed (use step ParkClosure in \<open>auto split: prod.splits\<close>)
next
  case (ParkCancel b r)
  with step p show ?thesis by (cases "(b, r)" rule: after_block.cases) auto
next
  case (ParkAsleep b)
  with step show ?thesis by (auto split: choice.splits result.splits option.splits)
next
  case OccupyFetchOr
  with step show ?thesis by (auto simp: debug_assert_def split: if_splits)
next
  case (UnlockWriteSwap i)
  with step show ?thesis using swap_checks_result [of cfg i w ResUnit] by auto
next
  case (RemoveLockedSwap i n)
  with step show ?thesis using swap_checks_result [of cfg i w "ResReuse (n \<noteq> RESERVED_ID)"] by auto
qed (use step w in \<open>auto split: if_splits prod.splits result.splits outcome.splits option.splits\<close>)


section \<open>What a thread owns and may still ask for\<close>

fun removing :: "'e job \<Rightarrow> bool" where
  "removing (TakeLocked i) = True"
| "removing (TakenLocked i) = True"
| "removing _ = False"

fun filling :: "'e job \<Rightarrow> bool" where
  "filling (Fill e) = True"
| "filling Occupy = True"
| "filling _ = False"

definition balanced :: "nat \<Rightarrow> act list \<Rightarrow> nat \<Rightarrow> nat \<Rightarrow> purpose \<Rightarrow> bool \<Rightarrow> bool" where
  "balanced R as n m k x \<longleftrightarrow> (\<exists>r w. r \<le> R \<and> w \<le> 1 \<and> disciplined R r w as \<and>
     n + of_bool (k = ForRead) \<le> r \<and> m + of_bool (k = ForWrite) \<le> w + of_bool x \<and>
     (k = ForRead \<longrightarrow> w = 0) \<and> (k = ForWrite \<longrightarrow> r = 0) \<and> (k = ForRemove \<or> x \<longrightarrow> r = 0 \<and> w = 0))"

definition pc_calm :: "nat \<Rightarrow> pc \<Rightarrow> bool" where
  "pc_calm n p \<longleftrightarrow> modest p \<and> (\<forall>f. p \<noteq> Failed f) \<and> (purpose_of p = ForRead \<and> n \<noteq> 0 \<longrightarrow> unblocked p)"

definition own_ok ::
  "nat \<Rightarrow> act list \<Rightarrow> u32 multiset \<Rightarrow> u32 multiset \<Rightarrow> 'e job \<Rightarrow> pc option \<Rightarrow> bool" where
  "own_ok R as rs ws j p \<longleftrightarrow>
     balanced R as (size rs) (size ws) (opt_pc Other purpose_of p) (removing j) \<and> \<not> filling j \<and>
     opt_pc True (pc_calm (size rs)) p"

definition thread_ok :: "nat \<Rightarrow> ('e, 'q) threads \<Rightarrow> nat \<Rightarrow> bool" where
  "thread_ok R c t \<longleftrightarrow>
     own_ok R (todo c t) (reads (header_of (item c)) t) (writes (header_of (item c)) t)
       (jobs (item c) t) (pcs (header_of (item c)) t)"

definition threads_ok :: "nat \<Rightarrow> nat \<Rightarrow> u32 \<Rightarrow> ('e, 'q) threads \<Rightarrow> bool" where
  "threads_ok N R i c \<longleftrightarrow> i \<in> known (header_of (item c)) \<and> (\<forall>t<N. thread_ok R c t)"

subsection \<open>The accounts after an action\<close>

lemma balancedI:
  assumes "r \<le> R" and "w \<le> 1" and "disciplined R r w as"
    and "n + of_bool (k = ForRead) \<le> r" and "m + of_bool (k = ForWrite) \<le> w + of_bool x"
    and "k = ForRead \<Longrightarrow> w = 0" and "k = ForWrite \<Longrightarrow> r = 0"
    and "k = ForRemove \<or> x \<Longrightarrow> r = 0 \<and> w = 0"
  shows "balanced R as n m k x"
  using assms unfolding balanced_def by blast

lemma balanced_start:
  assumes b: "balanced R (a # as) n m Other False"
  shows "a = AskRead to \<Longrightarrow> m = 0 \<and> balanced R as n m ForRead False"
    and "a = AskWrite to \<Longrightarrow> n = 0 \<and> m = 0 \<and> balanced R as n m ForWrite False"
    and "a = AskRemove to \<Longrightarrow> n = 0 \<and> m = 0 \<and> balanced R as n m ForRemove False"
    and "a = DropRead \<Longrightarrow> balanced R as (n - 1) m Other False"
    and "a = DropWrite \<Longrightarrow> balanced R as n (m - 1) Other False"
    and "a = RemoveLocked \<Longrightarrow> n = 0 \<and> balanced R as n m Other True"
    and "a = RemoveLocked \<Longrightarrow> m = 0 \<Longrightarrow> balanced R as n m Other False"
    and "a = UnwrapGuard \<or> a = SetFlag \<or> a = AssertUnset \<Longrightarrow> balanced R as n m Other False"
proof -
  obtain r w where b: "r \<le> R" "w \<le> 1" "disciplined R r w (a # as)" "n \<le> r" "m \<le> w"
    using b by (auto simp: balanced_def)
  show "m = 0 \<and> balanced R as n m ForRead False" if "a = AskRead to"
    using b that balancedI [of "Suc r" R 0 as n ForRead m False] by simp
  show "n = 0 \<and> m = 0 \<and> balanced R as n m ForWrite False" if "a = AskWrite to"
    using b that balancedI [of 0 R 1 as n ForWrite m False] by simp
  show "n = 0 \<and> m = 0 \<and> balanced R as n m ForRemove False" if "a = AskRemove to"
    using b that balancedI [of 0 R 0 as n ForRemove m False] by simp
  show "balanced R as (n - 1) m Other False" if "a = DropRead"
    using b that balancedI [of "r - 1" R w as "n - 1" Other m False] by simp
  show "balanced R as n (m - 1) Other False" if "a = DropWrite"
    using b that balancedI [of r R 0 as n Other "m - 1" False] by simp
  show "n = 0 \<and> balanced R as n m Other True" if "a = RemoveLocked"
    using b that balancedI [of 0 R 0 as n Other m True] by simp
  show "balanced R as n m Other False" if "a = RemoveLocked" "m = 0"
    using b that balancedI [of 0 R 0 as n Other m False] by simp
  show "balanced R as n m Other False" if "a = UnwrapGuard \<or> a = SetFlag \<or> a = AssertUnset"
    using b that balancedI [of r R w as n Other m False] by auto
qed

lemma balanced_purpose:
  assumes "balanced R as n m k x"
  shows "k = ForRead \<Longrightarrow> m \<le> of_bool x \<and> balanced R as (Suc n) m Other x"
    and "k = ForWrite \<Longrightarrow> n = 0 \<and> (x \<or> m = 0 \<and> balanced R as n (Suc m) Other x)"
    and "k = ForRemove \<Longrightarrow> n = 0 \<and> m \<le> of_bool x"
    and "balanced R as n m Other x"
    and "x \<Longrightarrow> n = 0 \<and> m \<le> 1 \<and> balanced R as n (m - 1) Other False"
    and "n \<le> R"
proof -
  obtain r w where b: "r \<le> R" "w \<le> 1" "disciplined R r w as"
      "n + of_bool (k = ForRead) \<le> r" "m + of_bool (k = ForWrite) \<le> w + of_bool x"
      "k = ForRead \<longrightarrow> w = 0" "k = ForWrite \<longrightarrow> r = 0" "k = ForRemove \<or> x \<longrightarrow> r = 0 \<and> w = 0"
    using assms by (auto simp: balanced_def)
  show "m \<le> of_bool x \<and> balanced R as (Suc n) m Other x" if "k = ForRead"
    using b that balancedI [of r R w as "Suc n" Other m x] by simp
  show "n = 0 \<and> (x \<or> m = 0 \<and> balanced R as n (Suc m) Other x)" if "k = ForWrite"
    using b that balancedI [of r R w as n Other "Suc m" x] by (cases x) simp_all
  show "n = 0 \<and> m \<le> of_bool x" if "k = ForRemove" using b that by simp
  show "balanced R as n m Other x"
    using b balancedI [of r R w as n Other m x] by auto
  show "n = 0 \<and> m \<le> 1 \<and> balanced R as n (m - 1) Other False" if x
    using b that balancedI [of r R w as n Other "m - 1" False] by (auto split: if_splits)
  show "n \<le> R" using b by simp
qed

lemma balanced_done: "balanced R [] n m Other False \<Longrightarrow> n = 0 \<and> m = 0"
  by (auto simp: balanced_def)


subsection \<open>The word while the accounts are kept\<close>

lemma thread_okD:
  assumes "thread_ok R c t"
  shows "balanced R (todo c t) (size (reads (header_of (item c)) t)) (size (writes (header_of (item c)) t))
      (opt_pc Other purpose_of (pcs (header_of (item c)) t)) (removing (jobs (item c) t))"
    and "\<not> filling (jobs (item c) t)"
    and "pcs (header_of (item c)) t = Some p \<Longrightarrow> pc_calm (size (reads (header_of (item c)) t)) p"
  using assms by (auto simp: thread_ok_def own_ok_def)

lemma few_readers:
  assumes "inv P N h" and "\<And>t. t < N \<Longrightarrow> size (reads h t) \<le> R" and "N * (R + 1) < 2147483646"
  shows "readers_from_bits (word h) \<noteq> MAX_CONCURRENT_READS"
proof -
  obtain n r j where w: "word h = pack n r j" and r: "r < 2147483648" by (rule word_cases)
  have one: "size (pc_reads p) \<le> 1" for p by (cases p rule: pc_reads.cases) auto
  have "size (rds h t) \<le> R + 1" if "t < N" for t
    using assms(2) [OF that] one [of "the (pcs h t)"]
    by (cases "pcs h t") (auto simp: rds_def intro: add_mono)
  then have "total_reads N h \<le> (\<Sum>t<N. R + 1)"
    unfolding total_reads_def by (intro sum_mono) auto
  then have "total_reads N h < 2147483646" using assms(3) by simp
  moreover have "counts_ok (header_view (word h)) (total_reads N h) (total_writes N h) (total_tokens N h)"
    using assms(1) by (simp add: inv_def)
  ultimately have "r \<noteq> 2147483646"
    using r by (auto simp: w header_view_pack split: if_splits)
  then show ?thesis
    using r by (auto simp: w MAX_CONCURRENT_READS_def word_unat_eq_iff)
qed

lemma not_write_locked:
  assumes "inv P N h" and "t < N" and "reads h t \<noteq> {#}"
  shows "\<not> is_write_locked (word h)"
proof -
  obtain j where "j \<in># rds h t" using assms(3) by (auto simp: rds_def)
  with assms(1,2) obtain n r where "word h = pack n (Suc r) j" "Suc r < 2147483647"
    by (rule inv_read_held)
  then show ?thesis by (simp del: of_nat_Suc)
qed

lemma calm_run:
  assumes inv: "inv P N h" and inv': "inv P N h'" and t: "t < N" and p: "pcs h t = Some p"
    and step: "hstep cfg P t ch p (word h, queue h) = Some (p', w', q')"
    and h': "pcs h' t = Some p'"
    and calm: "pc_calm (size (reads h t)) p" and few: "readers_from_bits (word h) \<noteq> MAX_CONCURRENT_READS"
  shows "pc_calm (size (reads h t)) p' \<and> purpose_of p' = purpose_of p"
proof -
  have "p' \<noteq> Failed f" for f
  proof
    assume f: "p' = Failed f"
    with inv_pc_ok [OF inv' t h'] have "f = TooManyReaders" by simp
    with step f TooManyReaders_step [of cfg P t ch p "word h" "queue h" w' q'] calm show False
      by (auto simp: pc_calm_def)
  qed
  moreover from hstep_purpose [OF step inv_pc_ok [OF inv t p] this]
  have same: "purpose_of p' = purpose_of p" .
  moreover have "modest p'" using hstep_modest [OF step _ few] calm by (simp add: pc_calm_def)
  moreover have "unblocked p'" if "purpose_of p' = ForRead" "size (reads h t) \<noteq> 0"
    using hstep_unblocked [OF step _ _ not_write_locked [OF inv t]] calm that same
    by (auto simp: pc_calm_def)
  ultimately show ?thesis by (simp add: pc_calm_def)
qed

lemma own_ok_run:
  "own_ok R as rs ws j (Some p) \<Longrightarrow> pc_calm (size rs) p' \<Longrightarrow> purpose_of p' = purpose_of p \<Longrightarrow>
    own_ok R as rs ws j (Some p')"
  by (simp add: own_ok_def)

lemma grant_owned:
  "reads (grant t r h) t = reads h t + pc_reads (Finished r)"
  "writes (grant t r h) t = writes h t + pc_writes (Finished r)"
  "u \<noteq> t \<Longrightarrow> reads (grant t r h) u = reads h u \<and> writes (grant t r h) u = writes h u"
  by (cases "(t, r, h)" rule: grant.cases; simp)+

lemma own_ok_return:
  assumes ok: "own_ok R as rs ws Idle (Some (Finished r))"
  shows "own_ok R as (rs + pc_reads (Finished r)) (ws + pc_writes (Finished r)) (after_return r :: 'e job) None"
proof -
  have b: "balanced R as (size rs) (size ws) (purpose_of (Finished r)) False"
    using ok by (simp add: own_ok_def)
  have "balanced R as (size (rs + pc_reads (Finished r))) (size (ws + pc_writes (Finished r))) Other False"
    using balanced_purpose(1,2,4) [OF b]
    by (cases "Finished r" rule: pc_reads.cases; cases "Finished r" rule: pc_writes.cases) auto
  moreover have "\<not> removing (after_return r :: 'e job)" "\<not> filling (after_return r :: 'e job)"
    by (cases r rule: after_return.cases; simp)+
  ultimately show ?thesis by (simp add: own_ok_def)
qed


subsection \<open>Every step keeps the accounts\<close>

lemma call_event_owned:
  assumes "call_event cfg t op h = Some h'"
  shows "u \<noteq> t \<Longrightarrow> reads h' u = reads h u \<and> writes h' u = writes h u \<and> pcs h' u = pcs h u"
    and "known h' = known h" and "pcs h' t = Some (entry cfg op)"
    and "reads h' t = (case op of OpUnlockRead j \<Rightarrow> reads h t - {#j#} | _ \<Rightarrow> reads h t)"
    and "writes h' t = (case op of OpUnlockWrite j \<Rightarrow> writes h t - {#j#}
      | OpRemoveLocked j \<Rightarrow> writes h t - {#j#} | _ \<Rightarrow> writes h t)"
  using assms by (cases op; auto simp: call_event_def call_def simp del: entry.simps split: if_splits)+

lemma own_step_frame:
  assumes "own_step cfg P N t s s'" and "u \<noteq> t"
  shows "reads (header_of s') u = reads (header_of s) u \<and> writes (header_of s') u = writes (header_of s) u \<and>
    pcs (header_of s') u = pcs (header_of s) u \<and> jobs s' u = jobs s u"
  using assms
proof cases
  case (unlock_removed i h)
  with assms(2) show ?thesis by (simp add: call_event_owned(1) [OF unlock_removed(3) assms(2)])
qed (use assms(2) in \<open>auto simp: grant_owned grant_pcs split: if_splits option.splits\<close>)

lemma threads_step_frame:
  assumes "threads_step cfg P N i t c c'" and "u \<noteq> t"
  shows "reads (header_of (item c')) u = reads (header_of (item c)) u \<and>
    writes (header_of (item c')) u = writes (header_of (item c)) u \<and>
    pcs (header_of (item c')) u = pcs (header_of (item c)) u \<and>
    jobs (item c') u = jobs (item c) u \<and> todo c' u = todo c u"
  using assms
proof cases
  case (own s')
  then show ?thesis using own_step_frame [OF own(3) assms(2)] by simp
next
  case (start a as op h)
  with assms(2) show ?thesis by (simp add: call_event_owned(1) [OF start(6) assms(2)])
qed (use assms(2) in auto)

lemma own_step_known: "own_step cfg P N t s s' \<Longrightarrow> known (header_of s) \<subseteq> known (header_of s')"
proof (induction rule: own_step.induct)
  case (unlock_removed i h)
  then show ?case using call_event_owned(2) by fastforce
qed (auto simp: grant_known split: if_splits option.splits)

lemma threads_step_known:
  "threads_step cfg P N i t c c' \<Longrightarrow> known (header_of (item c)) \<subseteq> known (header_of (item c'))"
proof (induction rule: threads_step.induct)
  case (own s')
  then show ?case using own_step_known by fastforce
next
  case (start a as op h)
  then show ?case using call_event_owned(2) by fastforce
qed simp_all

lemma entry_calm:
  assumes "i \<noteq> RESERVED_ID" and "starts i h t a op"
  shows "pc_calm n (entry cfg op) \<and>
    purpose_of (entry cfg op) = (case a of AskRead to \<Rightarrow> ForRead | AskWrite to \<Rightarrow> ForWrite
      | AskRemove to \<Rightarrow> ForRemove | _ \<Rightarrow> Other)"
  using assms(2,1) by cases (auto simp: pc_calm_def simp del: entry.simps(1,3,6,7))

lemma own_ok_start:
  assumes ok: "own_ok R (a # as) (reads h t) (writes h t) Idle None" and starts: "starts i h t a op"
    and call: "call_event cfg t op h = Some h'" and i: "i \<noteq> RESERVED_ID"
  shows "own_ok R as (reads h' t) (writes h' t) Idle (pcs h' t)"
proof -
  have b: "balanced R (a # as) (size (reads h t)) (size (writes h t)) Other False"
    using ok by (simp add: own_ok_def)
  show ?thesis
    using starts entry_calm [OF i starts, of "size (reads h' t)" cfg] balanced_start [OF b]
      call_event_owned(3-5) [OF call]
    by cases (auto simp: own_ok_def size_Diff_singleton simp del: entry.simps)
qed


lemma known_issued:
  assumes "inv P N h" and "i \<in> known h"
  shows "i \<noteq> RESERVED_ID"
proof -
  have "issued (word h) i" using assms by (simp add: inv_def)
  with assms(1) show ?thesis by (rule inv_issued(1))
qed

lemma own_step_ok:
  assumes sh: "shared_inv P N (item c)" and sh': "shared_inv P N s'" and t: "t < N"
    and step: "own_step cfg P N t (item c) s'" and ok: "thread_ok R c t"
    and few: "readers_from_bits (word (header_of (item c))) \<noteq> MAX_CONCURRENT_READS"
  shows "thread_ok R (c\<lparr>item := s'\<rparr>) t"
  using step
proof cases
  case (run ch h)
  let ?h = "header_of (item c)"
  obtain p p' w' q' where p: "pcs ?h t = Some p"
      and hstep: "hstep cfg P t ch p (word ?h, queue ?h) = Some (p', w', q')"
      and h: "h = ?h\<lparr>word := w', queue := q', pcs := (pcs ?h)(t \<mapsto> p')\<rparr>"
    using run(2) by (auto split: if_splits option.splits)
  have "inv P N h" using shared_inv_header [OF sh'] run(1) by simp
  from calm_run [OF shared_inv_header [OF sh] this t p hstep _ _ few] ok p
  show ?thesis by (auto simp: run(1) h thread_ok_def own_ok_def)
next
  case (return r h)
  then have idle: "jobs (item c) t = Idle" using sh by (auto simp: shared_inv_def)
  have "h = grant t r ((header_of (item c))\<lparr>pcs := (pcs (header_of (item c)))(t := None)\<rparr>)"
    using return by simp
  with return(1,3) idle ok show ?thesis
    by (auto simp: thread_ok_def grant_owned(1,2) grant_pcs intro!: own_ok_return)
next
  case (take b)
  then have "pcs (header_of (item c)) t = None" using sh by (auto simp: shared_inv_def)
  with take ok show ?thesis by (auto simp: thread_ok_def own_ok_def)
next
  case push
  then have "pcs (header_of (item c)) t = None" using sh by (auto simp: shared_inv_def)
  with push ok show ?thesis by (auto simp: thread_ok_def own_ok_def)
next
  case (take_locked j)
  then show ?thesis using ok by (auto simp: thread_ok_def own_ok_def)
next
  case (unlock_removed j h)
  have j: "t < N" "pcs (header_of (item c)) t = None" "j \<in># writes (header_of (item c)) t"
    using sh unlock_removed by (auto simp: shared_inv_def dest!: spec [where x = t])
  have "j \<noteq> RESERVED_ID" using writer_alone(2) [OF sh j(1,3)] .
  then have "pc_calm n (entry cfg (OpRemoveLocked j)) \<and> purpose_of (entry cfg (OpRemoveLocked j)) = Other" for n
    by (simp add: pc_calm_def del: entry.simps)
  moreover have "balanced R (todo c t) (size (reads (header_of (item c)) t))
      (size (writes (header_of (item c)) t) - 1) Other False"
    using thread_okD(1) [OF ok] unlock_removed(2) j(2) balanced_purpose(5) by fastforce
  ultimately show ?thesis
    using unlock_removed(1) call_event_owned(3-5) [OF unlock_removed(3)] j(3)
    by (auto simp: thread_ok_def own_ok_def size_Diff_singleton simp del: entry.simps)
qed

lemma threads_step_ok:
  fixes c :: "('e, 'q) threads"
  assumes step: "threads_step cfg P N i t c c'" and sh: "shared_inv P N (item c)"
    and sh': "shared_inv P N (item c')" and ok: "thread_ok R c t" and i: "i \<in> known (header_of (item c))"
    and few: "readers_from_bits (word (header_of (item c))) \<noteq> MAX_CONCURRENT_READS"
    and calm: "panicked c' = {}"
  shows "thread_ok R c' t"
proof -
  let ?h = "header_of (item c)"
  have b: "balanced R (a # as) (size (reads ?h t)) (size (writes ?h t)) Other False \<and>
      pcs ?h t = None \<and> jobs (item c) t = Idle" if "free (item c) t" "todo c t = a # as" for a as
    using ok that by (auto simp: thread_ok_def own_ok_def free_def)
  from step show ?thesis
  proof cases
    case (own s')
    have "shared_inv P N s'" using sh' own(1) by simp
    from own_step_ok [OF sh this own(2,3) ok few] own(1) show ?thesis by simp
  next
    case (start a as op h)
    have at: "pcs (header_of (item c)) t = None" "jobs (item c) t = Idle"
      using start(3) by (simp_all add: free_def)
    then have "own_ok R (a # as) (reads (header_of (item c)) t) (writes (header_of (item c)) t)
        (Idle :: 'e job) None"
      using ok start(4) by (simp add: thread_ok_def)
    from own_ok_start [OF this start(5,6) known_issued [OF shared_inv_header [OF sh] i]]
    show ?thesis using start(1) at by (simp add: thread_ok_def)
  next
    case (remove_locked as j)
    then show ?thesis
      using b [OF remove_locked(3,4)] balanced_start(6) by (auto simp: thread_ok_def own_ok_def)
  next
    case (skip a as)
    note b = b [OF skip(3,4)]
    from skip(1,5) b show ?thesis
      using balanced_start [OF conjunct1 [OF b]] by (cases a) (auto simp: thread_ok_def own_ok_def)
  next
    case (set_flag as)
    then show ?thesis
      using b [OF set_flag(3,4)] balanced_start(8) by (auto simp: thread_ok_def own_ok_def)
  next
    case (assert_holds as)
    then show ?thesis
      using b [OF assert_holds(3,4)] balanced_start(8) by (auto simp: thread_ok_def own_ok_def)
  qed (use calm in auto)
qed

lemma panicked_grows: "threads_step cfg P N i t c c' \<Longrightarrow> panicked c \<subseteq> panicked c'"
  by (induction rule: threads_step.induct) auto

lemma threads_ok_few:
  assumes "threads_ok N R i c" and "shared_inv P N (item c)" and "N * (R + 1) < 2147483646"
  shows "readers_from_bits (word (header_of (item c))) \<noteq> MAX_CONCURRENT_READS"
  using assms(1)
  by (intro few_readers [OF shared_inv_header [OF assms(2)] _ assms(3)])
    (auto simp: threads_ok_def dest: thread_okD(1) balanced_purpose(6))

context parking
begin

lemma threads_reachable_inv:
  assumes "shared_inv P N (item c0)" and "threads_reachable cfg P N i c0 c"
  shows "shared_inv P N (item c)"
  using assms(2)
proof (induction rule: threads_reachable.induct)
  case (step c t c')
  then show ?case using threads_step_shared [OF step.hyps(2)] shared_step_inv by fastforce
qed (rule assms(1))

lemma threads_reachable_ok:
  assumes sh: "shared_inv P N (item c0)" and ok: "threads_ok N R i c0" and small: "N * (R + 1) < 2147483646"
    and "threads_reachable cfg P N i c0 c" and "panicked c = {}"
  shows "threads_ok N R i c"
  using assms(4,5)
proof (induction rule: threads_reachable.induct)
  case (step c t c')
  have calm: "panicked c = {}" using panicked_grows [OF step.hyps(2)] step.prems by simp
  then have ok: "threads_ok N R i c" by (rule step.IH)
  have inv: "shared_inv P N (item c)" by (rule threads_reachable_inv [OF sh step.hyps(1)])
  have inv': "shared_inv P N (item c')"
    using threads_reachable_inv [OF sh threads_reachable.step [OF step.hyps]] .
  have "thread_ok R c' u" if "u < N" for u
  proof (cases "u = t")
    case True
    with that ok show ?thesis
      using threads_step_ok [OF step.hyps(2) inv inv' _ _ threads_ok_few [OF ok inv small] step.prems]
      by (simp add: threads_ok_def)
  next
    case False
    with that ok show ?thesis
      using threads_step_frame [OF step.hyps(2) False] by (simp add: threads_ok_def thread_ok_def)
  qed
  moreover have "i \<in> known (header_of (item c'))"
    using ok threads_step_known [OF step.hyps(2)] by (auto simp: threads_ok_def)
  ultimately show ?case by (simp add: threads_ok_def)
qed (rule ok)

end

end
