(* ===== verification/RwPrograms.thy ===== *)
theory RwPrograms
  imports RwClient
begin

text \<open>
  Disciplined programs on one element (\<open>RwClient\<close>) do not panic and do not deadlock: as long as
  one of them is unfinished, some thread that is not asleep can take a step.
\<close>

section \<open>Who can go on\<close>

definition can_go :: "build \<Rightarrow> 'q parker \<Rightarrow> nat \<Rightarrow> u32 \<Rightarrow> ('e, 'q) threads \<Rightarrow> nat \<Rightarrow> bool" where
  "can_go cfg P N i c t \<longleftrightarrow> t \<notin> pk_asleep P (queue (header_of (item c))) \<and>
     (\<exists>c'. threads_step cfg P N i t c c')"

lemma blocker_not_Other: "blocker_purpose b \<noteq> Other"
proof (cases b)
  case (BlockTransition e n to k)
  then show ?thesis by (cases k) simp_all
qed simp

context parking
begin

lemma asleep_pc:
  assumes "inv P N h" and "t \<in> pk_asleep P (queue h)"
  obtains b where "pcs h t = Some (ParkAsleep b)"
proof -
  have "opt_pc False is_asleep (pcs h t)"
    using park_ok_asleep [OF inv_park [OF assms(1)] assms(2)] .
  then obtain p where "pcs h t = Some p" "is_asleep p" by (cases "pcs h t") auto
  with that show ?thesis by (cases p) auto
qed

lemma awake_pc:
  assumes "inv P N h" and "pcs h t = Some p" and "\<not> is_asleep p"
  shows "t \<notin> pk_asleep P (queue h)"
proof
  assume "t \<in> pk_asleep P (queue h)"
  with assms(1) obtain b where "pcs h t = Some (ParkAsleep b)" by (rule asleep_pc)
  with assms(2,3) show False by auto
qed

lemma step_can_go:
  assumes "shared_inv P N (item c)" and "\<forall>b. pcs (header_of (item c)) t \<noteq> Some (ParkAsleep b)"
    and "threads_step cfg P N i t c c'"
  shows "can_go cfg P N i c t"
  using assms asleep_pc [OF shared_inv_header [OF assms(1)], of t] by (auto simp: can_go_def)

lemma run_can_go:
  assumes "t < N" and "pcs (header_of (item c)) t = Some p"
    and "hstep cfg P t Go p (word (header_of (item c)), queue (header_of (item c))) = Some x"
    and "t \<notin> pk_asleep P (queue (header_of (item c)))"
  shows "can_go cfg P N i c t"
proof -
  obtain p' w' q' where "x = (p', w', q')" by (cases x)
  with assms(1-3) have "exec_event cfg P N (Run t Go) (header_of (item c)) =
      Some ((header_of (item c))\<lparr>word := w', queue := q', pcs := (pcs (header_of (item c)))(t \<mapsto> p')\<rparr>)"
    by simp
  from threads_step.own [OF assms(1) own_step.run [OF this]] assms(4)
  show ?thesis by (auto simp: can_go_def)
qed

lemma job_can_go:
  assumes sh: "shared_inv P N (item c)" and job: "jobs (item c) t \<noteq> Idle" and ok: "thread_ok R c t"
  shows "can_go cfg P N i c t"
proof -
  have t: "t < N" "pcs (header_of (item c)) t = None" using sh job by (auto simp: shared_inv_def)
  have "\<exists>s'. own_step cfg P N t (item c) s'"
  proof (cases "jobs (item c) t")
    case (TakenLocked j)
    then have "j \<in># writes (header_of (item c)) t"
      using sh by (auto simp: shared_inv_def dest!: spec [where x = t])
    then have "\<exists>h. call_event cfg t (OpRemoveLocked j) (header_of (item c)) = Some h"
      by (simp add: call_event_def)
    with TakenLocked show ?thesis by (blast intro: own_step.unlock_removed)
  qed (use job thread_okD(2) [OF ok] in \<open>auto intro: own_step.intros\<close>)
  with t show ?thesis by (auto intro: step_can_go [OF sh] threads_step.own)
qed

lemma act_can_go:
  assumes sh: "shared_inv P N (item c)" and t: "t < N" and free: "free (item c) t"
    and todo: "todo c t \<noteq> []" and i: "i \<in> known (header_of (item c))"
  shows "can_go cfg P N i c t"
proof -
  let ?h = "header_of (item c)"
  obtain a as where as: "todo c t = a # as" using todo by (cases "todo c t") auto
  note start = threads_step.start [OF t free as]
  note skip = threads_step.skip [OF t free as]
  have "\<exists>c'. threads_step cfg P N i t c c'"
  proof (cases a)
    case (AskRead to)
    then show ?thesis using start [OF starts.asks_read [of i ?h t to, folded AskRead]] i
      by (auto simp: call_event_def)
  next
    case (AskWrite to)
    then show ?thesis using start [OF starts.asks_write [of i ?h t to, folded AskWrite]] i
      by (auto simp: call_event_def)
  next
    case (AskRemove to)
    then show ?thesis using start [OF starts.asks_remove [of i ?h t to, folded AskRemove]] i
      by (auto simp: call_event_def)
  next
    case DropRead
    show ?thesis
    proof (cases "reads ?h t = {#}")
      case False
      then obtain j where j: "j \<in># reads ?h t" by blast
      then show ?thesis using start [OF starts.drop_read [OF j, of i, folded DropRead]]
        by (auto simp: call_event_def)
    qed (use skip DropRead in auto)
  next
    case DropWrite
    show ?thesis
    proof (cases "writes ?h t = {#}")
      case False
      then obtain j where j: "j \<in># writes ?h t" by blast
      then show ?thesis using start [OF starts.drop_write [OF j, of i, folded DropWrite]]
        by (auto simp: call_event_def)
    qed (use skip DropWrite in auto)
  next
    case RemoveLocked
    show ?thesis
    proof (cases "writes ?h t = {#}")
      case False
      then obtain j where "j \<in># writes ?h t" by blast
      from threads_step.remove_locked [OF t free as [unfolded RemoveLocked] this] show ?thesis by blast
    qed (use skip RemoveLocked in auto)
  next
    case UnwrapGuard
    show ?thesis
    proof (cases "has_guard ?h t")
      case False
      from threads_step.unwrap_none [OF t free as [unfolded UnwrapGuard] False] show ?thesis by blast
    qed (use skip UnwrapGuard in auto)
  next
    case SetFlag
    from threads_step.set_flag [OF t free as [unfolded SetFlag]] show ?thesis by blast
  next
    case AssertUnset
    note as = as [unfolded AssertUnset]
    from threads_step.assert_holds [OF t free as] threads_step.assert_fails [OF t free as]
    show ?thesis by blast
  qed
  then show ?thesis using free by (auto simp: free_def intro: step_can_go [OF sh])
qed

lemma pc_can_go:
  assumes reach: "shared_reachable cfg P N (item c)" and t: "t < N"
    and p: "pcs (header_of (item c)) t = Some p" and awake: "t \<notin> pk_asleep P (queue (header_of (item c)))"
    and ok: "thread_ok R c t"
  obtains u where "u < N" "can_go cfg P N i c u"
proof (cases "\<exists>r. p = Finished r")
  case True
  then obtain r where r: "p = Finished r" ..
  then obtain h where "exec_event cfg P N (Return t) (header_of (item c)) = Some h" using t p by simp
  from threads_step.own [OF t own_step.return [OF t p [unfolded r] this]] awake that [OF t]
  show ?thesis by (auto simp: can_go_def)
next
  case False
  have "p \<noteq> Failed f" for f using thread_okD(3) [OF ok p] by (simp add: pc_calm_def)
  then consider x where "hstep cfg P t Go p (word (header_of (item c)), queue (header_of (item c))) = Some x"
    | u pu x where "u < N" "pcs (header_of (item c)) u = Some pu" "holding pu"
        "hstep cfg P u Go pu (word (header_of (item c)), queue (header_of (item c))) = Some x"
    using goes_or_sleeps [OF parking_axioms shared_reachable_header [OF reach] t p] False awake by blast
  then show ?thesis
  proof cases
    case 1
    from run_can_go [OF t p this awake] that [OF t] show ?thesis by blast
  next
    case 2
    have "\<not> is_asleep pu" using 2(3) by (cases pu) simp_all
    note awake_pc [OF shared_inv_header [OF shared_reachable_inv [OF reach]] 2(2) this]
    from run_can_go [OF 2(1,2,4) this] that [OF 2(1)] show ?thesis by blast
  qed
qed

text \<open>A thread that holds a lock on the element does not sleep.\<close>

lemma holder_not_asleep:
  assumes ok: "thread_ok R c t" and p: "pcs (header_of (item c)) t = Some (ParkAsleep b)"
    and idle: "jobs (item c) t = Idle"
  shows "rds (header_of (item c)) t = {#} \<and> wrs (header_of (item c)) t = {#}"
proof -
  let ?h = "header_of (item c)"
  have b: "balanced R (todo c t) (size (reads ?h t)) (size (writes ?h t)) (blocker_purpose b) False"
    using thread_okD(1) [OF ok] p idle by simp
  have calm: "pc_calm (size (reads ?h t)) (ParkAsleep b)" using thread_okD(3) [OF ok p] .
  consider "blocker_purpose b = ForRead" | "blocker_purpose b = ForWrite" | "blocker_purpose b = ForRemove"
    by (cases "blocker_purpose b") (use blocker_not_Other [of b] in auto)
  then have "size (reads ?h t) = 0 \<and> size (writes ?h t) = 0"
    using balanced_purpose(1-3) [OF b] calm by cases (auto simp: pc_calm_def)
  then show ?thesis using p by (simp add: rds_def wrs_def)
qed

lemma guard_can_go:
  assumes reach: "shared_reachable cfg P N (item c)" and ok: "threads_ok N R i c" and t: "t < N"
    and held: "rds (header_of (item c)) t \<noteq> {#} \<or> wrs (header_of (item c)) t \<noteq> {#}"
  obtains u where "u < N" "can_go cfg P N i c u"
proof -
  let ?h = "header_of (item c)"
  have sh: "shared_inv P N (item c)" using reach by (rule shared_reachable_inv)
  have th: "thread_ok R c t" and i: "i \<in> known ?h" using ok t by (auto simp: threads_ok_def)
  show ?thesis
  proof (cases "jobs (item c) t = Idle")
    case False
    from that [OF t job_can_go [OF sh this th]] show ?thesis .
  next
    case idle: True
    show ?thesis
    proof (cases "pcs ?h t")
      case None
      then have "todo c t \<noteq> []"
        using thread_okD(1) [OF th] held idle balanced_done by (fastforce simp: rds_def wrs_def)
      moreover have "free (item c) t" using None idle by (simp add: free_def)
      ultimately show ?thesis using that [OF t act_can_go [OF sh t _ _ i]] by blast
    next
      case (Some p)
      have "t \<notin> pk_asleep P (queue ?h)"
        using asleep_pc [OF shared_inv_header [OF sh], of t] holder_not_asleep [OF th _ idle] held by blast
      from pc_can_go [OF reach t Some this th] that show ?thesis by blast
    qed
  qed
qed

lemma never_deadlocked:
  assumes reach: "shared_reachable cfg P N (item c)" and ok: "threads_ok N R i c"
    and t: "t < N" and unfinished: "\<not> finished c t"
  obtains u where "u < N" "can_go cfg P N i c u"
proof -
  let ?h = "header_of (item c)"
  have sh: "shared_inv P N (item c)" using reach by (rule shared_reachable_inv)
  have th: "thread_ok R c u" if "u < N" for u using ok that by (simp add: threads_ok_def)
  have i: "i \<in> known ?h" using ok by (simp add: threads_ok_def)
  consider (job) "jobs (item c) t \<noteq> Idle" | (acts) "free (item c) t"
    | (awake) p where "pcs ?h t = Some p" "t \<notin> pk_asleep P (queue ?h)"
    | (asleep) "t \<in> pk_asleep P (queue ?h)"
    by (cases "pcs ?h t") (auto simp: free_def)
  then show ?thesis
  proof cases
    case job
    from that [OF t job_can_go [OF sh this th [OF t]]] show ?thesis .
  next
    case acts
    with unfinished have "todo c t \<noteq> []" by (simp add: finished_def)
    from that [OF t act_can_go [OF sh t acts this i]] show ?thesis .
  next
    case (awake p)
    from pc_can_go [OF reach t awake th [OF t]] that show ?thesis by blast
  next
    case asleep
    from sleeper_covered [OF parking_axioms shared_reachable_header [OF reach] this]
    consider (unpark) u r where "u < N" "pcs ?h u = Some (Unpark r)"
      | (held) u where "u < N" "rds ?h u \<noteq> {#} \<or> wrs ?h u \<noteq> {#}"
      by fastforce
    then show ?thesis
    proof cases
      case unpark
      have "u \<notin> pk_asleep P (queue ?h)"
        using unpark(2) by (rule awake_pc [OF shared_inv_header [OF sh]]) simp
      from pc_can_go [OF reach unpark this th [OF unpark(1)]] that show ?thesis by blast
    next
      case held
      from guard_can_go [OF reach ok held] that show ?thesis by blast
    qed
  qed
qed

end

section \<open>After an insert\<close>

text \<open>The state in which the thread that runs alone at first has inserted one element.\<close>

definition stored :: "'q parker \<Rightarrow> 'e \<Rightarrow> ('e, 'q) shared" where
  "stored P v = \<lparr>header_of = (sys_init P)\<lparr>word := occupied_unlocked_bits 0, known := {0}, token := False\<rparr>,
     cell = Some v, jobs = (\<lambda>_. Idle), available = False\<rparr>"

lemma shared_stepI: "shared_reachable cfg P N s \<Longrightarrow> shared_step cfg P N s s' \<Longrightarrow> s' = x \<Longrightarrow> shared_reachable cfg P N x"
  by (auto intro: shared_reachable.step)

lemma occupy_fetch_eval:
  "hstep cfg P t ch OccupyFetchOr (unoccupied_bits 0, q) = Some (Finished (ResId 0), occupied_unlocked_bits 0, q)"
  by (simp add: bits_simps bits_pack debug_assert_holds RESERVED_ID_def)

lemma stored_reachable:
  fixes P :: "'q parker" and v :: 'e
  assumes "0 < N"
  shows "shared_reachable cfg P N (stored P v)"
proof -
  let ?init = "shared_init P :: ('e, 'q) shared" and ?h = "sys_init P"
  let ?J = "\<lambda>j. (\<lambda>_. Idle)(0 := j)"
  let ?s = "\<lambda>h. \<lparr>header_of = h, cell = Some v, jobs = ?J Idle, available = False\<rparr>"
  have "shared_step cfg P N ?init (?init\<lparr>available := False, jobs := (jobs ?init)(0 := Fill v)\<rparr>)"
    using assms by (intro shared_step.insert) (simp_all add: free_def shared_init_def sys_init_def)
  from shared_reachable.step [OF shared_reachable.start this]
  have "shared_reachable cfg P N (?init\<lparr>available := False, jobs := (jobs ?init)(0 := Fill v)\<rparr>)" .
  from shared_stepI [OF this shared_step.fill [of _ 0 v], of "\<lparr>header_of = ?h, cell = Some v, jobs = ?J Occupy, available = False\<rparr>"]
  have "shared_reachable cfg P N \<lparr>header_of = ?h, cell = Some v, jobs = ?J Occupy, available = False\<rparr>"
    by (simp add: shared_init_def)
  from shared_stepI [OF this shared_step.occupy [of _ 0], of "?h\<lparr>token := False, pcs := [0 \<mapsto> OccupyFetchOr]\<rparr>"
      "?s (?h\<lparr>token := False, pcs := [0 \<mapsto> OccupyFetchOr]\<rparr>)"]
  have "shared_reachable cfg P N (?s (?h\<lparr>token := False, pcs := [0 \<mapsto> OccupyFetchOr]\<rparr>))"
    by (simp add: call_event_def call_def sys_init_def)
  from shared_stepI [OF this shared_step.run [of _ _ _ 0 Go],
      of "?h\<lparr>token := False, word := occupied_unlocked_bits 0, pcs := [0 \<mapsto> Finished (ResId 0)]\<rparr>"
      "?s (?h\<lparr>token := False, word := occupied_unlocked_bits 0, pcs := [0 \<mapsto> Finished (ResId 0)]\<rparr>)"]
  have "shared_reachable cfg P N (?s (?h\<lparr>token := False, word := occupied_unlocked_bits 0,
      pcs := [0 \<mapsto> Finished (ResId 0)]\<rparr>))"
    using assms occupy_fetch_eval [of cfg P 0 Go "pk_new P"] by (simp add: sys_init_def del: hstep.simps)
  from shared_stepI [OF this shared_step.return [of 0 _ _ "ResId 0"],
      of "?h\<lparr>token := False, word := occupied_unlocked_bits 0, known := {0}\<rparr>" "stored P v"]
  show ?thesis using assms by (simp add: sys_init_def stored_def fun_upd_idem)
qed


section \<open>Programs on a stored element\<close>

definition threads_start :: "'q parker \<Rightarrow> 'e \<Rightarrow> (nat \<Rightarrow> act list) \<Rightarrow> ('e, 'q) threads" where
  "threads_start P v prog = \<lparr>item = stored P v, todo = prog, raised = False, panicked = {}\<rparr>"

lemma threads_start_ok:
  assumes "\<And>t. t < N \<Longrightarrow> disciplined R 0 0 (prog t)"
  shows "threads_ok N R 0 (threads_start P v prog)"
proof -
  have "balanced R (prog t) 0 0 Other False" if "t < N" for t
    using assms [OF that] balancedI [of 0 R 0 "prog t"] by simp
  then show ?thesis
    by (simp add: threads_ok_def thread_ok_def own_ok_def threads_start_def stored_def sys_init_def)
qed

text \<open>Programs whose own code cannot panic.\<close>

definition no_asserts :: "act list \<Rightarrow> bool" where
  "no_asserts as \<longleftrightarrow> UnwrapGuard \<notin> set as \<and> AssertUnset \<notin> set as"

lemma no_asserts_step:
  assumes "threads_step cfg P N i t c c'" and "\<forall>u<N. no_asserts (todo c u)" and "panicked c = {}"
  shows "(\<forall>u<N. no_asserts (todo c' u)) \<and> panicked c' = {}"
proof -
  have "no_asserts as \<and> a \<noteq> UnwrapGuard \<and> a \<noteq> AssertUnset" if "todo c t = a # as" "t < N" for a as
    using assms(2) that by (auto simp: no_asserts_def dest!: spec [where x = t])
  with assms(1) show ?thesis
    using assms(2,3) by cases (fastforce split: if_splits)+
qed

lemma no_asserts_reachable:
  assumes "threads_reachable cfg P N i c0 c" and "\<forall>t<N. no_asserts (todo c0 t)" and "panicked c0 = {}"
  shows "panicked c = {}"
proof -
  have "(\<forall>u<N. no_asserts (todo c u)) \<and> panicked c = {}"
    using assms by (induction rule: threads_reachable.induct) (blast dest: no_asserts_step)+
  then show ?thesis ..
qed

context parking
begin

lemma start_reachable:
  assumes "threads_reachable cfg P N i (threads_start P v prog) c" and "0 < N"
  shows "shared_reachable cfg P N (item c)"
proof (rule threads_reachable_shared [OF assms(1)])
  show "shared_reachable cfg P N (item (threads_start P v prog))"
    using stored_reachable [OF assms(2)] by (simp add: threads_start_def)
qed

lemma programs_ok:
  assumes prog: "\<And>t. t < N \<Longrightarrow> disciplined R 0 0 (prog t)" and small: "N * (R + 1) < 2147483646"
    and reach: "threads_reachable cfg P N 0 (threads_start P v prog) c" and calm: "panicked c = {}" and N: "0 < N"
  shows "threads_ok N R 0 c"
proof (rule threads_reachable_ok [OF _ threads_start_ok [OF prog] small reach calm])
  show "shared_inv P N (item (threads_start P v prog))"
    using shared_reachable_inv [OF stored_reachable [OF N]] by (simp add: threads_start_def)
qed

lemma programs_go_on:
  assumes prog: "\<And>t. t < N \<Longrightarrow> disciplined R 0 0 (prog t)" and small: "N * (R + 1) < 2147483646"
    and reach: "threads_reachable cfg P N 0 (threads_start P v prog) c" and calm: "panicked c = {}" and t: "t < N"
  shows "\<not> crashed c t \<and> (\<not> finished c t \<longrightarrow> (\<exists>u<N. can_go cfg P N 0 c u))"
proof -
  have N: "0 < N" using t by simp
  have ok: "threads_ok N R 0 c" by (rule programs_ok [OF prog small reach calm N])
  then have "\<not> crashed c t"
    using t calm thread_okD(3) by (fastforce simp: threads_ok_def crashed_def pc_calm_def)
  moreover have "\<exists>u<N. can_go cfg P N 0 c u" if "\<not> finished c t"
    using never_deadlocked [OF start_reachable [OF reach N] ok t that] by blast
  ultimately show ?thesis by blast
qed

end

text \<open>
  C28. Disciplined threads neither panic nor deadlock. Any number of threads run programs that
  read, write, remove and drop guards, where no thread asks for a lock that its own guards exclude,
  every guard is dropped, and fewer than 2^31 - 2 guards can be held at once. Then no call of any
  thread panics, in any interleaving and in every build, and as long as a thread has not finished
  its program some thread that is not asleep can take a step: the threads can neither all sleep
  nor wait for each other.
\<close>

theorem programs_never_deadlock:
  assumes "parking P" and "\<And>t. t < N \<Longrightarrow> disciplined R 0 0 (prog t) \<and> no_asserts (prog t)"
    and "N * (R + 1) < 2147483646" and "threads_reachable cfg P N 0 (threads_start P v prog) c" and "t < N"
  shows "\<not> crashed c t \<and> (\<not> finished c t \<longrightarrow>
    (\<exists>u<N. u \<notin> pk_asleep P (queue (header_of (item c))) \<and> (\<exists>c'. threads_step cfg P N 0 u c c')))"
proof -
  have prog: "disciplined R 0 0 (prog u)" if "u < N" for u using assms(2) that by blast
  have "panicked c = {}"
    using no_asserts_reachable [OF assms(4)] assms(2) by (simp add: threads_start_def)
  from parking.programs_go_on [OF assms(1) prog assms(3,4) this assms(5)] show ?thesis
    by (simp add: can_go_def)
qed

theorem programs_never_deadlock_witness:
  "\<exists>u<3. \<exists>c' :: (nat, loom_park) threads. threads_step debug_build loom_parker 3 0 u
    (threads_start loom_parker 7 (\<lambda>_. [AskRead BlockIndefinitely, DropRead, AskWrite BlockIndefinitely, RemoveLocked])) c'"
proof -
  let ?p = "\<lambda>_ :: nat. [AskRead BlockIndefinitely, DropRead, AskWrite BlockIndefinitely, RemoveLocked]"
  let ?c = "threads_start loom_parker 7 ?p :: (nat, loom_park) threads"
  have "\<not> finished ?c 0" by (simp add: finished_def threads_start_def)
  moreover have "disciplined 1 0 0 (?p t) \<and> no_asserts (?p t)" for t by (simp add: no_asserts_def)
  ultimately show ?thesis
    using programs_never_deadlock [OF loom.parking_axioms _ _ threads_reachable.start,
      where N = 3 and R = 1 and prog = ?p and t = 0 and cfg = debug_build and v = 7]
    by auto
qed

end
