(* ===== verification/RwLoom.thy ===== *)
theory RwLoom
  imports RwPrograms
begin

text \<open>
  The tests of \<open>src/src/loom.rs\<close>, for every interleaving instead of those that loom explores:
  pairs of operations on one element or on two, and a thread that waits for a lock another holds.
\<close>

section \<open>The concurrent operations\<close>

definition debug_assertions_enabled :: "build \<Rightarrow> unit outcome" where
  "debug_assertions_enabled cfg = (if \<not> debug_assertions cfg then Fault AssertionFailed else Value ())"

lemma debug_assertions_enabled_passes: "passes (debug_assertions_enabled cfg) \<longleftrightarrow> debug_assertions cfg"
  by (simp add: debug_assertions_enabled_def passes_def)

text \<open>A temporary guard is dropped at the end of its statement, \<open>_lock\<close> at the end of its block.\<close>

definition create_concurrent_operations :: "act list list" where
  "create_concurrent_operations =
     [[AskRead BlockIndefinitely, DropRead],
      [AskRead BlockIndefinitely, AskRead BlockIndefinitely, DropRead, DropRead],
      [AskWrite BlockIndefinitely, DropWrite],
      [AskRemove BlockIndefinitely],
      [AskWrite BlockIndefinitely, RemoveLocked],
      [AskRead DontBlock, DropRead],
      [AskWrite DontBlock, DropWrite],
      [AskRemove DontBlock]]"

definition stack_operations :: "act list list \<Rightarrow> act list list" where
  "stack_operations operations = concat (map (\<lambda>first. map (\<lambda>second. first @ second) operations) operations)"

definition two :: "act list \<Rightarrow> act list \<Rightarrow> nat \<Rightarrow> act list" where
  "two f g t = (if t = 0 then f else if t = 1 then g else [])"

text \<open>
  The body of \<open>concurrent_operations_dont_crash\<close>: both threads work on the same element, or each
  on one of its own. The states are those of the elements.
\<close>

definition test_start :: "'q parker \<Rightarrow> bool \<Rightarrow> act list \<Rightarrow> act list \<Rightarrow> (nat, 'q) threads list" where
  "test_start P different f g =
     (if different then [threads_start P 42 (two f []), threads_start P 24 (two [] g)]
      else [threads_start P 42 (two f g)])"

inductive test_reachable ::
  "build \<Rightarrow> 'q parker \<Rightarrow> bool \<Rightarrow> act list \<Rightarrow> act list \<Rightarrow> (nat, 'q) threads list \<Rightarrow> bool"
  for cfg :: build and P :: "'q parker" and different :: bool and f :: "act list" and g :: "act list"
where
  start: "test_reachable cfg P different f g (test_start P different f g)"
| step: "test_reachable cfg P different f g cs \<Longrightarrow> k < length cs \<Longrightarrow>
    threads_step cfg P 2 0 t (cs ! k) c \<Longrightarrow> test_reachable cfg P different f g (cs[k := c])"

lemma test_elements:
  "test_reachable cfg P different f g cs \<Longrightarrow> length cs = length (test_start P different f g) \<and>
    (\<forall>k<length cs. threads_reachable cfg P 2 0 (test_start P different f g ! k) (cs ! k))"
proof (induction rule: test_reachable.induct)
  case (step cs k t c)
  then show ?case by (auto simp: nth_list_update intro: threads_reachable.step)
qed (auto intro: threads_reachable.start)

lemma operations_disciplined:
  "\<forall>f \<in> set (stack_operations create_concurrent_operations). disciplined 2 0 0 f \<and> no_asserts f"
  by (simp add: stack_operations_def create_concurrent_operations_def no_asserts_def)

lemma two_disciplined:
  assumes "f \<in> set (stack_operations create_concurrent_operations)"
    and "g \<in> set (stack_operations create_concurrent_operations)"
  shows "disciplined 2 0 0 (two f g t) \<and> disciplined 2 0 0 (two f [] t) \<and> disciplined 2 0 0 (two [] g t)"
    and "no_asserts (two f g t) \<and> no_asserts (two f [] t) \<and> no_asserts (two [] g t)"
  using operations_disciplined assms by (auto simp: two_def no_asserts_def)

text \<open>
  C29. The test \<open>concurrent_operations_dont_crash\<close> passes for every interleaving. Two threads run
  any two of the stacked operations, on the same element or on two: neither panics, and as long
  as a thread has not finished, some thread at the same element that is not asleep can go on.
\<close>

theorem concurrent_operations_dont_crash:
  assumes "parking P" and "f \<in> set (stack_operations create_concurrent_operations)"
    and "g \<in> set (stack_operations create_concurrent_operations)"
    and "test_reachable cfg P different f g cs" and "c \<in> set cs" and "t < 2"
  shows "\<not> crashed c t \<and> (\<not> finished c t \<longrightarrow> (\<exists>u<2. can_go cfg P 2 0 c u))"
proof -
  obtain k where "k < length cs" "c = cs ! k" using assms(5) by (auto simp: in_set_conv_nth)
  with test_elements [OF assms(4)]
  have "threads_reachable cfg P 2 0 (test_start P different f g ! k) c" "k < length (test_start P different f g)"
    by auto
  then obtain v prog where reach: "threads_reachable cfg P 2 0 (threads_start P v prog) c"
      and "prog = two f g \<or> prog = two f [] \<or> prog = two [] g"
    by (auto simp: test_start_def less_Suc_eq split: if_splits)
  then have prog: "disciplined 2 0 0 (prog u)" "no_asserts (prog u)" for u
    using two_disciplined [OF assms(2,3), of u] by auto
  have "panicked c = {}"
    using no_asserts_reachable [OF reach] prog(2) by (simp add: threads_start_def)
  from parking.programs_go_on [OF assms(1) prog(1) _ reach this assms(6)] show ?thesis by simp
qed


theorem concurrent_operations_dont_crash_witness:
  "\<exists>u<2. can_go debug_build loom_parker 2 0
     (threads_start loom_parker (42 :: nat) (two [AskRemove BlockIndefinitely, AskWrite BlockIndefinitely, DropWrite]
       [AskRead BlockIndefinitely, DropRead, AskRemove DontBlock])) u"
proof -
  let ?f = "[AskRemove BlockIndefinitely, AskWrite BlockIndefinitely, DropWrite]"
  let ?g = "[AskRead BlockIndefinitely, DropRead, AskRemove DontBlock]"
  let ?c = "threads_start loom_parker 42 (two ?f ?g) :: (nat, loom_park) threads"
  have ops: "?f \<in> set (stack_operations create_concurrent_operations)"
      "?g \<in> set (stack_operations create_concurrent_operations)"
    by (simp_all add: stack_operations_def create_concurrent_operations_def)
  have reach: "test_reachable debug_build loom_parker False ?f ?g [?c]"
    using test_reachable.start [of debug_build loom_parker False ?f ?g] by (simp add: test_start_def)
  have "\<not> finished ?c 0" by (simp add: finished_def threads_start_def two_def)
  with concurrent_operations_dont_crash [OF loom.parking_axioms ops reach, of ?c 0] show ?thesis by simp
qed

end
