(* ===== verification/RwWaiting.thy ===== *)
theory RwWaiting
  imports RwLoom
begin

text \<open>
  The tests of \<open>src/src/loom.rs\<close> in which a spawned thread waits for a lock that the main thread
  holds. They start where the main thread spawns the other: it has inserted the element and
  locked it, alone.
\<close>

section \<open>The tests\<close>

definition read_held :: "'q parker \<Rightarrow> 'e \<Rightarrow> ('e, 'q) shared" where
  "read_held P v = (stored P v)\<lparr>header_of := (header_of (stored P v))\<lparr>word := pack True 1 0,
     reads := (\<lambda>_. {#})(0 := {#0#})\<rparr>\<rparr>"

definition write_held :: "'q parker \<Rightarrow> 'e \<Rightarrow> ('e, 'q) shared" where
  "write_held P v = (stored P v)\<lparr>header_of := (header_of (stored P v))\<lparr>word := write_locked_bits 0,
     writes := (\<lambda>_. {#})(0 := {#0#})\<rparr>\<rparr>"

definition main_thread :: "bool \<Rightarrow> act list" where
  "main_thread holds_write = [AssertUnset, if holds_write then DropWrite else DropRead]"

definition spawned_thread :: "bool \<Rightarrow> act list" where
  "spawned_thread asks_write =
     [if asks_write then AskWrite BlockIndefinitely else AskRead BlockIndefinitely, UnwrapGuard,
      if asks_write then DropWrite else DropRead, SetFlag]"

definition waiting_test :: "'q parker \<Rightarrow> bool \<Rightarrow> bool \<Rightarrow> (nat, 'q) threads" where
  "waiting_test P holds_write asks_write =
     \<lparr>item = (if holds_write then write_held P 42 else read_held P 42),
      todo = two (main_thread holds_write) (spawned_thread asks_write), raised = False, panicked = {}\<rparr>"

definition write_waits_for_read :: "'q parker \<Rightarrow> (nat, 'q) threads" where
  "write_waits_for_read P = waiting_test P False True"

definition write_waits_for_write :: "'q parker \<Rightarrow> (nat, 'q) threads" where
  "write_waits_for_write P = waiting_test P True True"

definition read_waits_for_write :: "'q parker \<Rightarrow> (nat, 'q) threads" where
  "read_waits_for_write P = waiting_test P True False"

lemma read_held_reachable:
  fixes P :: "'q parker" and v :: 'e
  assumes "0 < N"
  shows "shared_reachable cfg P N (read_held P v)"
proof -
  let ?h = "(sys_init P)\<lparr>word := occupied_unlocked_bits 0, known := {0}, token := False\<rparr>"
  let ?s = "\<lambda>h. (stored P v)\<lparr>header_of := h\<rparr>"
  have more: "increment_readers cfg (pack True 0 0) = Value (pack True (Suc 0) 0)"
    by (simp add: increment_readers_pack RESERVED_ID_def)
  have "shared_reachable cfg P N (stored P v)" using assms by (rule stored_reachable)
  from shared_stepI [OF this shared_step.direct [of 0 _ _ "OpLockRead 0 BlockIndefinitely"],
      of "?h\<lparr>pcs := [0 \<mapsto> LockReadLoad 0 BlockIndefinitely]\<rparr>"
      "?s (?h\<lparr>pcs := [0 \<mapsto> LockReadLoad 0 BlockIndefinitely]\<rparr>)"]
  have "shared_reachable cfg P N (?s (?h\<lparr>pcs := [0 \<mapsto> LockReadLoad 0 BlockIndefinitely]\<rparr>))"
    using assms by (simp add: free_def stored_def sys_init_def call_event_def call_def RESERVED_ID_def)
  from shared_stepI [OF this shared_step.run [of _ _ _ 0 Go],
      of "?h\<lparr>pcs := [0 \<mapsto> LockReadCurrent 0 (occupied_unlocked_bits 0) BlockIndefinitely]\<rparr>"
      "?s (?h\<lparr>pcs := [0 \<mapsto> LockReadCurrent 0 (occupied_unlocked_bits 0) BlockIndefinitely]\<rparr>)"]
  have "shared_reachable cfg P N
      (?s (?h\<lparr>pcs := [0 \<mapsto> LockReadCurrent 0 (occupied_unlocked_bits 0) BlockIndefinitely]\<rparr>))"
    using assms by (simp add: sys_init_def)
  from shared_stepI [OF this shared_step.run [of _ _ _ 0 Go],
      of "?h\<lparr>word := pack True 1 0, pcs := [0 \<mapsto> Finished (ResRead 0 (Ok True))]\<rparr>"
      "?s (?h\<lparr>word := pack True 1 0, pcs := [0 \<mapsto> Finished (ResRead 0 (Ok True))]\<rparr>)"]
  have "shared_reachable cfg P N
      (?s (?h\<lparr>word := pack True 1 0, pcs := [0 \<mapsto> Finished (ResRead 0 (Ok True))]\<rparr>))"
    using assms
    by (simp add: sys_init_def bits_pack bits_simps read_cas_def compare_exchange_def more)
  from shared_stepI [OF this shared_step.return [of 0 _ _ "ResRead 0 (Ok True)"],
      of "?h\<lparr>word := pack True 1 0, reads := (\<lambda>_. {#})(0 := {#0#})\<rparr>" "read_held P v"]
  show ?thesis using assms by (simp add: sys_init_def stored_def read_held_def fun_upd_idem)
qed

lemma write_held_reachable:
  fixes P :: "'q parker" and v :: 'e
  assumes "0 < N"
  shows "shared_reachable cfg P N (write_held P v)"
proof -
  let ?h = "(sys_init P)\<lparr>word := occupied_unlocked_bits 0, known := {0}, token := False\<rparr>"
  let ?s = "\<lambda>h. (stored P v)\<lparr>header_of := h\<rparr>"
  let ?t = "Transition (occupied_unlocked_bits 0) (write_locked_bits 0) BlockIndefinitely (CallLockWrite 0)"
  have "shared_reachable cfg P N (stored P v)" using assms by (rule stored_reachable)
  from shared_stepI [OF this shared_step.direct [of 0 _ _ "OpLockWrite 0 BlockIndefinitely"],
      of "?h\<lparr>pcs := [0 \<mapsto> ?t]\<rparr>" "?s (?h\<lparr>pcs := [0 \<mapsto> ?t]\<rparr>)"]
  have "shared_reachable cfg P N (?s (?h\<lparr>pcs := [0 \<mapsto> ?t]\<rparr>))"
    using assms by (simp add: free_def stored_def sys_init_def call_event_def call_def RESERVED_ID_def)
  from shared_stepI [OF this shared_step.run [of _ _ _ 0 Go],
      of "?h\<lparr>word := write_locked_bits 0, pcs := [0 \<mapsto> Finished (ResWrite 0 (Ok True))]\<rparr>"
      "?s (?h\<lparr>word := write_locked_bits 0, pcs := [0 \<mapsto> Finished (ResWrite 0 (Ok True))]\<rparr>)"]
  have "shared_reachable cfg P N
      (?s (?h\<lparr>word := write_locked_bits 0, pcs := [0 \<mapsto> Finished (ResWrite 0 (Ok True))]\<rparr>))"
    using assms by (simp add: sys_init_def compare_exchange_def)
  from shared_stepI [OF this shared_step.return [of 0 _ _ "ResWrite 0 (Ok True)"],
      of "?h\<lparr>word := write_locked_bits 0, writes := (\<lambda>_. {#})(0 := {#0#})\<rparr>" "write_held P v"]
  show ?thesis using assms by (simp add: sys_init_def stored_def write_held_def fun_upd_idem)
qed

lemma waiting_reachable: "shared_reachable cfg P 2 (item (waiting_test P mw ow))"
  by (simp add: waiting_test_def read_held_reachable write_held_reachable)

lemma waiting_ok: "threads_ok 2 1 0 (waiting_test P mw ow)"
proof -
  have "thread_ok 1 (waiting_test P mw ow) 0"
    using balancedI [of 0 1 1 "main_thread True" 0 Other 1 False]
      balancedI [of 1 1 0 "main_thread False" 1 Other 0 False]
    by (auto simp: thread_ok_def own_ok_def waiting_test_def read_held_def write_held_def stored_def
        sys_init_def two_def main_thread_def)
  moreover have "thread_ok 1 (waiting_test P mw ow) 1"
    using balancedI [of 0 1 0 "spawned_thread ow" 0 Other 0 False]
    by (auto simp: thread_ok_def own_ok_def waiting_test_def read_held_def write_held_def stored_def
        sys_init_def two_def spawned_thread_def)
  ultimately show ?thesis
    by (auto simp: threads_ok_def less_2_cases_iff waiting_test_def read_held_def write_held_def stored_def)
qed

section \<open>The element is never removed\<close>

fun stay_pc :: "pc \<Rightarrow> bool" where
  "stay_pc OccupyFetchOr = False"
| "stay_pc (RemoveLockedSwap i n) = False"
| "stay_pc (Unpark r) = (r = ResUnit)"
| "stay_pc (Finished (ResReuse b)) = False"
| "stay_pc (Finished (ResId i)) = False"
| "stay_pc p = (purpose_of p \<noteq> ForRemove)"

lemma stay_purpose: "stay_pc p \<Longrightarrow> purpose_of p \<noteq> ForRemove"
  by (cases p rule: stay_pc.cases) auto

lemma stay_full: "stay_pc p \<Longrightarrow> full_pc p = 0 \<and> gone_pc p = 0"
  using stay_purpose [of p] by (cases p rule: full_pc.cases) auto

lemma stay_result:
  assumes "purpose_of (Finished r) \<noteq> ForRemove" and "\<forall>b. r \<noteq> ResReuse b" and "\<forall>i. r \<noteq> ResId i"
  shows "stay_pc (Finished r)"
  using assms by (cases r) auto

lemma not_reuse [simp]:
  "transition_result k r \<noteq> ResReuse b" "blocker_timed_out x \<noteq> ResReuse b"
proof -
  show transition: "transition_result k r \<noteq> ResReuse b" for k r
    by (cases "(k, r)" rule: transition_result.cases) auto
  show "blocker_timed_out x \<noteq> ResReuse b" by (cases x) (auto simp: transition)
qed

lemma hstep_stay:
  assumes step: "hstep cfg P t ch p (w, q) = Some (p', w', q')" and ok: "pc_ok w p" and p: "stay_pc p"
    and calm: "\<And>f. p' \<noteq> Failed f"
  shows "stay_pc p'"
proof -
  have purpose: "purpose_of p' \<noteq> ForRemove"
    using hstep_purpose [OF step ok calm] stay_purpose [OF p] by simp
  show ?thesis
  proof (cases p)
    case (LockReadCurrent i c to)
    with step calm show ?thesis by (auto split: if_splits prod.splits dest!: read_cas_result)
  next
    case (LockReadMatched i c to)
    with step calm show ?thesis by (auto split: prod.splits dest!: read_cas_result)
  next
    case (UnlockWriteSwap i)
    with step calm show ?thesis using swap_checks_result [of cfg i w ResUnit] by auto
  next
    case (ParkCancel b r)
    with step purpose show ?thesis by (cases "(b, r)" rule: after_block.cases) (auto intro: stay_result)
  next
    case (ParkAsleep b)
    with step purpose show ?thesis
      by (auto split: choice.splits result.splits option.splits intro: stay_result)
  qed (use step p purpose calm in \<open>auto split: if_splits prod.splits result.splits outcome.splits
      option.splits block_choice.splits intro: stay_result\<close>)
qed


section \<open>A call that will get its lock\<close>

fun sure_blocker :: "u32 \<Rightarrow> blocker \<Rightarrow> bool" where
  "sure_blocker i (BlockRead j to) \<longleftrightarrow> j = i \<and> to = BlockIndefinitely"
| "sure_blocker i (BlockTransition e n to k) \<longleftrightarrow>
     id_from_bits e = i \<and> to = BlockIndefinitely \<and> k = CallLockWrite i"

fun sure_pc :: "u32 \<Rightarrow> pc \<Rightarrow> bool" where
  "sure_pc i (LockReadLoad j to) \<longleftrightarrow> j = i \<and> to = BlockIndefinitely"
| "sure_pc i (LockReadCurrent j c to) \<longleftrightarrow> j = i \<and> id_from_bits c = i \<and> to = BlockIndefinitely"
| "sure_pc i (LockReadSlow j to) \<longleftrightarrow> j = i \<and> to = BlockIndefinitely"
| "sure_pc i (LockReadMatched j c to) \<longleftrightarrow> j = i \<and> to = BlockIndefinitely"
| "sure_pc i (Transition e n to k) \<longleftrightarrow> id_from_bits e = i \<and> to = BlockIndefinitely \<and> k = CallLockWrite i"
| "sure_pc i (TransitionSlow e n to k) \<longleftrightarrow> id_from_bits e = i \<and> to = BlockIndefinitely \<and> k = CallLockWrite i"
| "sure_pc i (ParkEnter b) \<longleftrightarrow> sure_blocker i b"
| "sure_pc i (ParkClosure b) \<longleftrightarrow> sure_blocker i b"
| "sure_pc i (ParkMark b e) \<longleftrightarrow> sure_blocker i b"
| "sure_pc i (ParkCommit b) \<longleftrightarrow> sure_blocker i b"
| "sure_pc i (ParkAsleep b) \<longleftrightarrow> sure_blocker i b"
| "sure_pc i (ParkCancel b r) \<longleftrightarrow> sure_blocker i b \<and> r \<noteq> Mismatch \<and> r \<noteq> Transitioned False"
| "sure_pc i (Finished (ResRead j (Ok True))) \<longleftrightarrow> True"
| "sure_pc i (Finished (ResWrite j (Ok True))) \<longleftrightarrow> True"
| "sure_pc i _ \<longleftrightarrow> False"

lemma sure_closure:
  assumes "sure_blocker i b" and "id_from_bits w = i" and "run_closure (blocker_closure b) w = (DontBlockOn r, w')"
  shows "r \<noteq> Mismatch \<and> r \<noteq> Transitioned False"
  using assms by (cases b) (auto simp: compare_exchange_def split: if_splits)

lemma hstep_sure:
  assumes step: "hstep cfg P t ch p (w, q) = Some (p', w', q')" and p: "sure_pc i p"
    and w: "id_from_bits w = i" and ok: "pc_ok w p" and calm: "\<And>f. p' \<noteq> Failed f"
  shows "sure_pc i p'"
proof (cases p)
  case (LockReadCurrent j c to)
  with step p w calm show ?thesis by (auto split: if_splits prod.splits dest!: read_cas_result)
next
  case (LockReadMatched j c to)
  with step p w calm show ?thesis by (auto split: prod.splits dest!: read_cas_result)
next
  case (LockReadSlow j to)
  with step p show ?thesis by (auto simp: deadline_of_def)
next
  case (Transition e n to k)
  with step p w show ?thesis
    by (cases ch) (auto simp: compare_exchange_def split: if_splits)
next
  case (TransitionSlow e n to k)
  with step p show ?thesis by (auto simp: deadline_of_def)
next
  case (ParkClosure b)
  with step p show ?thesis
    by (auto split: prod.splits block_choice.splits dest: sure_closure [OF _ w])
next
  case (ParkCancel b r)
  with step p ok show ?thesis by (cases "(b, r)" rule: after_block.cases) auto
next
  case (ParkAsleep b)
  have "deadline_of (blocker_timeout b) = Ok None"
    using p ParkAsleep by (cases b) (auto simp: deadline_of_def)
  with step p ParkAsleep show ?thesis by (auto split: choice.splits)
qed (use step p w calm in \<open>auto split: if_splits prod.splits result.splits outcome.splits option.splits\<close>)

lemma stay_id:
  assumes inv: "inv P N h" and t: "t < N" and p: "pcs h t = Some p"
    and step: "hstep cfg P t ch p (word h, queue h) = Some (p', w', q')"
    and stay: "stay_pc p" "stay_pc p'"
  shows "id_from_bits w' = id_from_bits (word h)"
  using hstep_effect [OF inv t p step] stay_full [OF stay(1)] stay_full [OF stay(2)]
  by cases simp_all

section \<open>The spawned thread waits\<close>

definition staying :: "nat \<Rightarrow> (nat, 'q) threads \<Rightarrow> bool" where
  "staying N c \<longleftrightarrow> id_from_bits (word (header_of (item c))) = 0 \<and>
     (\<forall>t<N. jobs (item c) t = Idle \<and> opt_pc True stay_pc (pcs (header_of (item c)) t))"

definition main_waits :: "bool \<Rightarrow> (nat, 'q) threads \<Rightarrow> bool" where
  "main_waits mw c \<longleftrightarrow> (\<exists>n. todo c 0 = drop n (main_thread mw)) \<and>
     (todo c 0 \<noteq> [] \<longrightarrow> has_guard (header_of (item c)) 0 \<and> pcs (header_of (item c)) 0 = None)"

definition spawned_waits :: "bool \<Rightarrow> (nat, 'q) threads \<Rightarrow> bool" where
  "spawned_waits ow c \<longleftrightarrow> (\<exists>n. todo c 1 = drop n (spawned_thread ow)) \<and>
     (length (todo c 1) = 4 \<longrightarrow> pcs (header_of (item c)) 1 = None) \<and>
     (length (todo c 1) = 3 \<longrightarrow> (case pcs (header_of (item c)) 1 of
        None \<Rightarrow> has_guard (header_of (item c)) 1 | Some p \<Rightarrow> sure_pc 0 p))"

definition waits_inv :: "bool \<Rightarrow> bool \<Rightarrow> (nat, 'q) threads \<Rightarrow> bool" where
  "waits_inv mw ow c \<longleftrightarrow> staying 2 c \<and> panicked c = {} \<and> main_waits mw c \<and> spawned_waits ow c \<and>
     (length (todo c 1) < 3 \<or> raised c \<longrightarrow> todo c 0 = [])"

lemma waits_frame:
  assumes step: "threads_step cfg P 2 0 t c c'"
  shows "t \<noteq> 0 \<Longrightarrow> main_waits mw c' = main_waits mw c \<and> todo c' 0 = todo c 0"
    and "t \<noteq> 1 \<Longrightarrow> spawned_waits ow c' = spawned_waits ow c \<and> todo c' 1 = todo c 1"
proof -
  have frame: "has_guard (header_of (item c')) u = has_guard (header_of (item c)) u \<and>
      pcs (header_of (item c')) u = pcs (header_of (item c)) u \<and> todo c' u = todo c u" if "t \<noteq> u" for u
    using threads_step_frame [OF step, of u] that by (auto simp: has_guard_def)
  show "t \<noteq> 0 \<Longrightarrow> main_waits mw c' = main_waits mw c \<and> todo c' 0 = todo c 0"
    using frame [of 0] by (simp add: main_waits_def)
  show "t \<noteq> 1 \<Longrightarrow> spawned_waits ow c' = spawned_waits ow c \<and> todo c' 1 = todo c 1"
    using frame [of 1] by (simp add: spawned_waits_def split: option.split del: One_nat_def)
qed

lemma waits_start: "waits_inv mw ow (waiting_test P mw ow)"
proof -
  have "id_from_bits (write_locked_bits 0) = 0" "id_from_bits (pack True 1 0) = 0"
    by (simp_all add: bits_pack)
  then show ?thesis
    by (auto simp: waits_inv_def main_waits_def spawned_waits_def staying_def waiting_test_def read_held_def write_held_def stored_def sys_init_def
        two_def main_thread_def spawned_thread_def has_guard_def intro: exI [of _ 0])
qed


lemma own_stays:
  assumes stay: "staying N c" and sh: "shared_inv P N (item c)" and sh': "shared_inv P N s'" and t: "t < N"
    and ok: "thread_ok R c t" and few: "readers_from_bits (word (header_of (item c))) \<noteq> MAX_CONCURRENT_READS"
    and step: "own_step cfg P N t (item c) s'"
  shows "staying N (c\<lparr>item := s'\<rparr>) \<and> (\<exists>p. pcs (header_of (item c)) t = Some p \<and>
    (sure_pc 0 p \<longrightarrow> (case pcs (header_of s') t of None \<Rightarrow> has_guard (header_of s') t
      | Some p' \<Rightarrow> sure_pc 0 p')))"
  using step
proof cases
  case (run ch h)
  let ?h = "header_of (item c)"
  obtain p p' w' q' where p: "pcs ?h t = Some p"
      and hstep: "hstep cfg P t ch p (word ?h, queue ?h) = Some (p', w', q')"
      and h: "h = ?h\<lparr>word := w', queue := q', pcs := (pcs ?h)(t \<mapsto> p')\<rparr>"
    using run(2) by (auto split: if_splits option.splits)
  note inv = shared_inv_header [OF sh]
  have inv': "inv P N h" using shared_inv_header [OF sh'] run(1) by simp
  have "pc_calm (size (reads ?h t)) p'"
    using calm_run [OF inv inv' t p hstep _ thread_okD(3) [OF ok p] few] h by simp
  then have calm: "p' \<noteq> Failed f" for f by (simp add: pc_calm_def)
  have s: "stay_pc p" "id_from_bits (word ?h) = 0" using stay t p by (auto simp: staying_def)
  note pc = inv_pc_ok [OF inv t p]
  have s': "stay_pc p'" by (rule hstep_stay [OF hstep pc s(1) calm])
  have "id_from_bits w' = 0" using stay_id [OF inv t p hstep s(1) s'] s(2) by simp
  moreover have "sure_pc 0 p \<Longrightarrow> sure_pc 0 p'" by (rule hstep_sure [OF hstep _ s(2) pc calm])
  ultimately show ?thesis
    using stay s' p by (auto simp: run(1) h staying_def)
next
  case (return r h)
  have h: "h = grant t r ((header_of (item c))\<lparr>pcs := (pcs (header_of (item c)))(t := None)\<rparr>)"
    using return by simp
  have "stay_pc (Finished r)" using stay return(2,3) by (auto simp: staying_def dest!: spec [where x = t])
  then have "(after_return r :: nat job) = Idle" by (cases r rule: after_return.cases) auto
  moreover have "has_guard h t" if "sure_pc 0 (Finished r)"
    using that by (cases "(0 :: u32, Finished r)" rule: sure_pc.cases)
      (auto simp: h has_guard_def grant_owned)
  ultimately show ?thesis
    using stay return(3) by (auto simp: return(1) staying_def h grant_frame grant_pcs)
qed (use stay t in \<open>auto simp: staying_def dest!: spec [where x = t]\<close>)

lemma guards_exclude:
  assumes sh: "shared_inv P N (item c)" and ok: "thread_ok R c t" and t: "t < N" and u: "u < N" "u \<noteq> t"
    and none: "pcs (header_of (item c)) t = None" and idle: "jobs (item c) t = Idle"
    and drops: "todo c t \<in> {[AssertUnset, DropWrite], [DropWrite], [UnwrapGuard, DropWrite, SetFlag]}"
    and held: "has_guard (header_of (item c)) t"
  shows "\<not> has_guard (header_of (item c)) u"
proof -
  have "balanced R (todo c t) (size (reads (header_of (item c)) t)) (size (writes (header_of (item c)) t)) Other False"
    using thread_okD(1) [OF ok] none idle by simp
  then have "reads (header_of (item c)) t = {#}" using drops by (auto simp: balanced_def)
  with held obtain j where j: "j \<in># writes (header_of (item c)) t" by (auto simp: has_guard_def)
  show ?thesis
    using writer_alone(5) [OF sh t j, of u] writer_alone(6) [OF sh t j u] u(1) by (auto simp: has_guard_def)
qed

lemma main_suffix:
  "drop n (main_thread mw) \<noteq> [] \<Longrightarrow>
    drop n (main_thread mw) = main_thread mw \<or> drop n (main_thread mw) = drop 1 (main_thread mw)"
proof -
  have "n = 0 \<or> n = 1 \<or> 2 \<le> n" by linarith
  then show "drop n (main_thread mw) \<noteq> [] \<Longrightarrow> ?thesis" by (auto simp: main_thread_def)
qed

lemma spawned_suffix:
  "length (drop n (spawned_thread ow)) = 3 \<Longrightarrow> drop n (spawned_thread ow) = drop 1 (spawned_thread ow)"
proof -
  assume "length (drop n (spawned_thread ow)) = 3"
  then have "n = 1" by (simp add: spawned_thread_def)
  then show ?thesis by simp
qed

lemma main_next:
  assumes "drop n (main_thread mw) = a # as"
  shows "a = AssertUnset \<and> as = drop 1 (main_thread mw) \<or>
    a = (if mw then DropWrite else DropRead) \<and> as = []"
proof -
  have "n = 0 \<or> n = 1 \<or> 2 \<le> n" by linarith
  then show ?thesis using assms by (auto simp: main_thread_def)
qed

lemma spawned_next:
  assumes "drop n (spawned_thread ow) = a # as"
  shows "(\<exists>n. as = drop n (spawned_thread ow)) \<and>
   (length as = 3 \<and> a = (if ow then AskWrite BlockIndefinitely else AskRead BlockIndefinitely) \<or>
    length as = 2 \<and> a = UnwrapGuard \<or> length as = 1 \<and> a = (if ow then DropWrite else DropRead) \<or>
    length as = 0 \<and> a = SetFlag)"
proof
  have "as = drop (Suc n) (spawned_thread ow)"
    using arg_cong [OF assms, of tl] by (simp add: tl_drop drop_Suc)
  then show "\<exists>n. as = drop n (spawned_thread ow)" ..
  have "n = 0 \<or> n = 1 \<or> n = 2 \<or> n = 3 \<or> 4 \<le> n" by linarith
  then show "length as = 3 \<and> a = (if ow then AskWrite BlockIndefinitely else AskRead BlockIndefinitely) \<or>
    length as = 2 \<and> a = UnwrapGuard \<or> length as = 1 \<and> a = (if ow then DropWrite else DropRead) \<or>
    length as = 0 \<and> a = SetFlag"
    using assms by (auto simp: spawned_thread_def numeral_2_eq_2 numeral_3_eq_3)
qed

lemma starts_stays:
  assumes "staying N c" and "starts i (header_of (item c)) t a op" and "0 \<noteq> RESERVED_ID"
    and "i = 0" and "\<And>to. a \<noteq> AskRemove to" and "call_event cfg t op (header_of (item c)) = Some h"
    and "jobs (item c) t = Idle"
  shows "staying N (c\<lparr>item := (item c)\<lparr>header_of := h\<rparr>, todo := f\<rparr>)"
proof -
  have "stay_pc (entry cfg op)"
    using assms(2) assms(3-5) by cases (auto simp del: entry.simps(1,3,6,7))
  then show ?thesis
    using assms(1) call_event_frame(1,2) [OF assms(6)] by (auto simp: staying_def)
qed


lemma waits_main:
  assumes w: "waits_inv mw ow c" and step: "threads_step cfg P 2 0 0 c c'"
    and sh: "shared_inv P 2 (item c)" and sh': "shared_inv P 2 (item c')" and ok: "threads_ok 2 1 0 c"
  shows "waits_inv mw ow c'"
proof -
  have th: "thread_ok 1 c 0" using ok by (simp add: threads_ok_def)
  have few: "readers_from_bits (word (header_of (item c))) \<noteq> MAX_CONCURRENT_READS"
    using threads_ok_few [OF ok sh] by simp
  have stays: "staying 2 c" "panicked c = {}" and mainw: "main_waits mw c" and sp: "spawned_waits ow c"
    and last: "length (todo c 1) < 3 \<or> raised c \<Longrightarrow> todo c 0 = []"
    using w by (auto simp: waits_inv_def)
  have rest: "waits_inv mw ow c'"
    if "staying 2 c'" "panicked c' = {}" "main_waits mw c'" "raised c' = raised c"
      "todo c 0 = [] \<Longrightarrow> todo c' 0 = []"
    using that sp last waits_frame(2) [OF step, of ow] by (simp add: waits_inv_def)
  have at: "a = AssertUnset \<and> as = drop 1 (main_thread mw) \<or> a = (if mw then DropWrite else DropRead) \<and> as = []"
    if "todo c 0 = a # as" for a as
    using mainw that main_next [of _ mw a as] by (auto simp: main_waits_def)
  have finished_main: "main_waits mw c'" if "todo c' 0 = []"
    using that by (auto simp: main_waits_def main_thread_def intro: exI [of _ 2])
  from step show ?thesis
  proof cases
    case (own s')
    have sh'': "shared_inv P 2 s'" using sh' own by simp
    note * = own_stays [OF stays(1) sh sh'' own(2) th few own(3)]
    then have "todo c 0 = []" using mainw by (auto simp: main_waits_def)
    with * own(1) stays show ?thesis by (intro rest finished_main) auto
  next
    case (start a as op h)
    then have *: "as = []" "\<And>to. a \<noteq> AskRemove to" "jobs (item c) 0 = Idle"
      using at [OF start(4)] by (auto elim: starts.cases simp: free_def split: if_splits)
    have "staying 2 c'"
      using starts_stays [OF stays(1) start(5) _ _ *(2) start(6) *(3)] start(1)
      by (simp add: RESERVED_ID_def)
    with start(1) stays * show ?thesis by (intro rest finished_main) auto
  next
    case (skip a as)
    then have "as = []" using at [OF skip(4)] by auto
    with skip(1) stays show ?thesis by (intro rest finished_main) (auto simp: staying_def)
  next
    case (assert_holds as)
    then have as: "as = drop 1 (main_thread mw)" using at [OF assert_holds(4)] by (auto split: if_splits)
    then have "main_waits mw c'" using mainw assert_holds(1,4) by (auto simp: main_waits_def)
    with assert_holds(1,4) stays show ?thesis by (intro rest) (auto simp: staying_def)
  next
    case (assert_fails as)
    with last show ?thesis by simp
  qed (use at in \<open>auto split: if_splits\<close>)
qed

lemma waits_spawned:
  assumes w: "waits_inv mw ow c" and step: "threads_step cfg P 2 0 1 c c'" and "mw \<or> ow"
    and sh: "shared_inv P 2 (item c)" and sh': "shared_inv P 2 (item c')" and ok: "threads_ok 2 1 0 c"
  shows "waits_inv mw ow c'"
proof -
  have th: "thread_ok 1 c 0" "thread_ok 1 c 1" using ok by (simp_all add: threads_ok_def)
  have few: "readers_from_bits (word (header_of (item c))) \<noteq> MAX_CONCURRENT_READS"
    using threads_ok_few [OF ok sh] by simp
  have stays: "staying 2 c" "panicked c = {}" and mainw: "main_waits mw c" and sp: "spawned_waits ow c"
    and last: "length (todo c 1) < 3 \<or> raised c \<Longrightarrow> todo c 0 = []"
    using w by (auto simp: waits_inv_def)
  have rest: "waits_inv mw ow c'"
    if "staying 2 c'" "panicked c' = {}" "spawned_waits ow c'"
      "length (todo c' 1) < 3 \<or> raised c' \<Longrightarrow> todo c 0 = []"
    using that mainw waits_frame(1) [OF step, of mw] by (simp add: waits_inv_def)
  have at: "(\<exists>n. as = drop n (spawned_thread ow)) \<and>
     (length as = 3 \<and> a = (if ow then AskWrite BlockIndefinitely else AskRead BlockIndefinitely) \<or>
      length as = 2 \<and> a = UnwrapGuard \<or> length as = 1 \<and> a = (if ow then DropWrite else DropRead) \<or>
      length as = 0 \<and> a = SetFlag)" if "todo c 1 = a # as" for a as
    using sp that spawned_next [of _ ow a as] unfolding spawned_waits_def by metis
  have moved: "spawned_waits ow c'" if "todo c 1 = a # as" "todo c' 1 = as" "length as < 3" for a as
    using conjunct1 [OF at [OF that(1)]] that(2,3) by (simp add: spawned_waits_def)
  have guard: "has_guard (header_of (item c)) 1" if "todo c 1 = UnwrapGuard # as" "free (item c) 1" for as
  proof -
    have "length as = 2" using at [OF that(1)] by (auto split: if_splits)
    then show ?thesis using that sp by (simp add: spawned_waits_def free_def)
  qed
  from step show ?thesis
  proof cases
    case (own s')
    have sh'': "shared_inv P 2 s'" using sh' own by simp
    note * = own_stays [OF stays(1) sh sh'' own(2) th(2) few own(3)]
    then have "spawned_waits ow c'" using sp own(1) by (auto simp: spawned_waits_def split: option.splits)
    with * own(1) stays last show ?thesis by (intro rest) auto
  next
    case (start a as op h)
    have as: "length as = 3 \<or> length as = 1" "\<And>to. a \<noteq> AskRemove to"
      using at [OF start(4)] start(5) by (auto elim: starts.cases split: if_splits)
    have idle: "jobs (item c) 1 = Idle" using start(3) by (simp add: free_def)
    have stay: "staying 2 c'"
      using starts_stays [OF stays(1) start(5) _ _ as(2) start(6) idle] start(1)
      by (simp add: RESERVED_ID_def)
    have "spawned_waits ow c'"
    proof (cases "length as = 3")
      case True
      then have "a = (if ow then AskWrite BlockIndefinitely else AskRead BlockIndefinitely)"
        using at [OF start(4)] by auto
      with start(5) have "sure_pc 0 (entry cfg op)"
        by (cases rule: starts.cases) (auto simp: RESERVED_ID_def bits_pack split: if_splits)
      then show ?thesis
        using conjunct1 [OF at [OF start(4)]] True call_event_owned(3) [OF start(6)] start(1)
        by (simp add: spawned_waits_def)
    qed (use moved [OF start(4)] as(1) start(1) in auto)
    moreover have "todo c 0 = []" if "length as < 3" using last as(1) that start(4) by auto
    ultimately show ?thesis using stay stays(2) start(1) last by (intro rest) auto
  next
    case (remove_locked as j)
    then show ?thesis using at [OF remove_locked(4)] by (auto split: if_splits)
  next
    case (skip a as)
    have "length as = 2 \<and> a = UnwrapGuard \<or> length as = 1"
      using at [OF skip(4)] skip(5) by (auto split: if_splits)
    moreover have "todo c 0 = []" if "a = UnwrapGuard"
    proof (rule ccontr)
      assume todo: "todo c 0 \<noteq> []"
      have g1: "has_guard (header_of (item c)) 1" using guard skip(3,4) that by blast
      have g0: "has_guard (header_of (item c)) 0" "pcs (header_of (item c)) 0 = None" "jobs (item c) 0 = Idle"
        using todo mainw stays(1) by (auto simp: main_waits_def staying_def)
      have at0: "todo c 0 = main_thread mw \<or> todo c 0 = drop 1 (main_thread mw)"
        using mainw todo main_suffix unfolding main_waits_def by metis
      have "length (todo c 1) = 3" using at [OF skip(4)] skip(4) that by (auto split: if_splits)
      then have at1: "todo c 1 = drop 1 (spawned_thread ow)"
        using sp spawned_suffix unfolding spawned_waits_def by metis
      show False
      proof (cases mw)
        case True
        with at0 guards_exclude [OF sh th(1) _ _ _ g0(2,3) _ g0(1), of 1] g1 show ?thesis
          by (auto simp: main_thread_def)
      next
        case False
        then have "todo c 1 = [UnwrapGuard, DropWrite, SetFlag]"
          using assms(3) at1 by (simp add: spawned_thread_def)
        with guards_exclude [OF sh th(2) _ _ _ _ _ _ g1, of 0] g0 skip(3) show ?thesis
          by (auto simp: free_def)
      qed
    qed
    ultimately have "todo c 0 = []" "length as < 3" using last skip(4) by auto
    with moved [OF skip(4)] skip(1) stays show ?thesis by (intro rest) (auto simp: staying_def)
  next
    case (set_flag as)
    then have "length as = 0" using at [OF set_flag(4)] by (auto split: if_splits)
    with moved [OF set_flag(4)] set_flag(1,4) stays last show ?thesis
      by (intro rest) (auto simp: staying_def)
  next
    case (assert_holds as)
    then show ?thesis using at [OF assert_holds(4)] by (auto split: if_splits)
  next
    case (assert_fails as)
    then show ?thesis using at [OF assert_fails(4)] by (auto split: if_splits)
  next
    case (unwrap_none as)
    then show ?thesis using guard by blast
  qed
qed


lemma waits_reachable:
  assumes P: "parking P" and some: "mw \<or> ow" and "threads_reachable cfg P 2 0 (waiting_test P mw ow) c"
  shows "waits_inv mw ow c \<and> threads_ok 2 1 0 c"
  using assms(3)
proof (induction rule: threads_reachable.induct)
  case start
  show ?case by (rule conjI [OF waits_start waiting_ok])
next
  case (step c t c')
  have init: "shared_inv P 2 (item (waiting_test P mw ow))"
    using parking.shared_reachable_inv [OF P waiting_reachable] .
  note inv = parking.threads_reachable_inv [OF P init]
  have t: "t = 0 \<or> t = 1" using step.hyps(2) by cases (auto simp: less_2_cases_iff)
  have reach: "threads_reachable cfg P 2 0 (waiting_test P mw ow) c'"
    using step.hyps by (rule threads_reachable.step)
  have "waits_inv mw ow c'"
    using t waits_main [OF _ _ inv [OF step.hyps(1)] inv [OF reach]] step.IH step.hyps(2)
      waits_spawned [OF _ _ some inv [OF step.hyps(1)] inv [OF reach]] by blast
  moreover from this have "threads_ok 2 1 0 c'"
    by (intro parking.threads_reachable_ok [OF P init waiting_ok _ reach]) (simp_all add: waits_inv_def)
  ultimately show ?case ..
qed

text \<open>
  C30. The tests \<open>write_waits_for_read\<close>, \<open>write_waits_for_write\<close> and \<open>read_waits_for_write\<close> pass for
  every interleaving. As long as the main thread has not dropped its guard, the spawned thread has
  not raised the flag and is still before or inside its call; the call then returns a guard, no
  thread panics, and as long as one has not finished some thread that is not asleep can go on.
\<close>

theorem waiting_tests_pass:
  assumes "parking P" and "test \<in> {write_waits_for_read P, write_waits_for_write P, read_waits_for_write P}"
    and "threads_reachable cfg P 2 0 test c" and "t < 2"
  shows "\<not> crashed c t \<and> (todo c 0 \<noteq> [] \<longrightarrow> \<not> raised c \<and> 3 \<le> length (todo c 1)) \<and>
    (\<not> finished c t \<longrightarrow> (\<exists>u<2. can_go cfg P 2 0 c u))"
proof -
  obtain mw ow where test: "test = waiting_test P mw ow" "mw \<or> ow"
    using assms(2) by (auto simp: write_waits_for_read_def write_waits_for_write_def read_waits_for_write_def)
  note reach = assms(3) [unfolded test(1)]
  have w: "waits_inv mw ow c" and ok: "threads_ok 2 1 0 c"
    using waits_reachable [OF assms(1) test(2) reach] by simp_all
  have "\<not> crashed c t"
    using w ok assms(4) thread_okD(3) by (fastforce simp: waits_inv_def threads_ok_def crashed_def pc_calm_def)
  moreover have "\<exists>u<2. can_go cfg P 2 0 c u" if "\<not> finished c t"
    using parking.never_deadlocked [OF assms(1) threads_reachable_shared [OF reach waiting_reachable] ok assms(4) that]
    by blast
  moreover have "todo c 0 \<noteq> [] \<longrightarrow> \<not> raised c \<and> 3 \<le> length (todo c 1)"
    using w by (auto simp: waits_inv_def)
  ultimately show ?thesis by blast
qed

theorem waiting_tests_pass_witness:
  "\<not> raised (write_waits_for_read loom_parker) \<and>
   (\<exists>u<2. can_go debug_build loom_parker 2 0 (write_waits_for_read loom_parker) u)"
proof -
  have "\<not> finished (write_waits_for_read loom_parker) 0"
    by (simp add: finished_def write_waits_for_read_def waiting_test_def two_def main_thread_def)
  with waiting_tests_pass [OF loom.parking_axioms _ threads_reachable.start, of "write_waits_for_read loom_parker" 0]
  show ?thesis by (simp add: write_waits_for_read_def waiting_test_def)
qed

end
