(* ===== verification/Spec2Isabelle.thy ===== *)
theory Spec2Isabelle
  imports RwGuarantees RwHeaderSpec RwSequential RwHistory RwPool RwExamples RwHappensBefore RwTests
    RwBucketSafety RwWaiting
begin

text \<open>
  A model of the Rust crate \<open>read-write-store\<close>: a concurrent, unordered collection in which each
  element has a generated ID and a read-write lock of its own. All paths below are under
  \<open>src/src/\<close>.

  \<^bold>\<open>The program.\<close> A store (\<open>lib.rs\<close>) has sixteen buckets (\<open>bucket.rs\<close>) and a queue of reusable
  slots. A bucket is a chain of blocks (\<open>block.rs\<close>) of lengths 1, 2, 4, ...; a block is an array of
  slots; a slot is a header (\<open>header.rs\<close>) and room for one element. The header is a single 64-bit
  word: an ID, a reader count (all ones for a writer), and a bit that says whether threads are
  blocked on it. An insert takes a slot from the queue, or the next unused slot of some bucket,
  and occupies its header; the ID that is returned names the slot and the header's ID at that
  time. Removing moves the header to the next ID, so that old IDs never match again, and puts the
  slot into the queue unless its IDs are used up. Read and write guards (\<open>lock.rs\<close>) hold a lock on
  a header; a thread that cannot have it parks on the header (\<open>util/sync/park.rs\<close>) and is woken
  by the release that frees it. Iterators (\<open>iter.rs\<close>) walk the chains.

  \<^bold>\<open>The theories\<close>, in the order of their dependencies.

  \<^item> \<open>RwPrelude\<close>: machine integers, the two settings of a build (\<open>debug_assertions\<close>,
    \<open>overflow_checks\<close>), and \<open>outcome\<close>, the result of a call: a value, a fault (a panic or
    undefined behaviour), or \<open>Hang\<close> for a call that never returns.
  \<^item> \<open>RwBits\<close>: the bit functions of \<open>header.rs\<close> and the abstract view \<open>header_view\<close> of a word.
  \<^item> \<open>RwTimeout\<close>: \<open>timeout.rs\<close>, with the derived order as an instance of \<open>linorder\<close>.
  \<^item> \<open>RwAtomic\<close>: the accesses of \<open>util/sync/atomic.rs\<close> to an atomic integer.
  \<^item> \<open>RwHeader\<close>: every operation of \<open>Header\<close>, executed by one thread. \<open>RwHeaderSpec\<close>: they
    compute the operations of a read-write lock on the abstract view.
  \<^item> \<open>RwPark\<close>: the interface to parking, a locale \<open>parking\<close>, interpreted on the implementation the
    source has for \<open>cfg(loom)\<close>.
  \<^item> \<open>RwMachine\<close>: the same operations one atomic access at a time, and \<open>sys_step\<close>, any number of
    threads that run them on one header under the protocol of the crate: only issued IDs are
    used, only held locks are released, a slot is occupied only by the thread that took it.
    \<open>RwInvariant\<close> and \<open>RwConcurrent\<close> prove its invariants, \<open>RwGuarantees\<close> the properties.
    \<open>RwSequential\<close>: a thread that runs the machine alone computes the functions of \<open>RwHeader\<close>.
  \<^item> \<open>RwShared\<close>: \<open>shared_step\<close>, a slot with its element under threads, each step of \<open>insert\<close>, \<open>remove\<close>,
    \<open>remove_locked\<close> and the guards on its own; its invariant, and with it the exclusion of conflicting
    accesses to the element in sequentially consistent runs.
  \<^item> \<open>RwOrdering\<close>: runs of the shared slot annotated with the happens-before order that the memory
    orderings of the header's accesses give. \<open>RwHappensBefore\<close>: the exchanges of the source, which
    release but do not acquire, leave a read and a write of an element unordered; exchanges that
    did both would order them.
  \<^item> \<open>RwMemory\<close>: \<open>util/debug_check.rs\<close>, \<open>rwstore_id.rs\<close>, \<open>id.rs\<close>, slots, and memory as a map from
    addresses (allocation and index) to slots. \<open>RwBlock\<close>: \<open>block.rs\<close>. \<open>RwBucket\<close>: \<open>bucket.rs\<close>,
    with the race of several inserts between the fast and the slow path.
  \<^item> \<open>RwRwLock\<close>: \<open>util/sync/rwlock.rs\<close>, a wrapper around a lock with the contract \<open>rw_locking\<close>, which it
    keeps. \<open>RwBucketLock\<close>: \<open>guarded_step\<close>, a bucket under its lock, any number of threads that run
    \<open>next_insert_location\<close> and \<open>capacity\<close> one access at a time; it refines the race of \<open>RwBucket\<close>.
    \<open>RwBucketSafety\<close>: no panic, no slot found twice, no thread waits for ever, and when \<open>capacity\<close>
    is exact.
  \<^item> \<open>RwQueue\<close>: the queue of reusable slots as a locale \<open>fifo\<close>, interpreted on the
    implementation for \<open>cfg(loom)\<close>. \<open>RwLocks\<close>: the guards of \<open>lock.rs\<close>.
  \<^item> \<open>RwStore\<close>: the operations of \<open>lib.rs\<close>. \<open>RwStoreSpec\<close> and \<open>RwInsert\<close>: the invariant
    \<open>store_ok\<close>, the abstract store \<open>abs_store\<close> (a map from IDs to elements with a lock state), and
    the refinement of it by the code. \<open>RwExamples\<close>: concrete stores, for the witnesses.
    \<open>RwHistory\<close>: sequences of calls a client makes on a store, with its IDs and the guards it owns,
    \<open>get_mut\<close>, \<open>iter_mut\<close> and \<open>capacity\<close> included, their refinement of sequences of calls of the
    abstract store, and how a store ends after them. \<open>RwPool\<close>: \<open>pool_step\<close>, the store
    under threads: buckets, the queue of reusable slots, and every slot as in \<open>RwShared\<close>.
  \<^item> \<open>RwIter\<close>: \<open>iter.rs\<close>. \<open>RwIterSpec\<close>: the locale \<open>block_tracker\<close>, the contract of the trait
    \<open>BlockTracker\<close>, and what the generic iterator does over any tracker that meets it.
    \<open>RwIterStore\<close>: both trackers meet it, and what the iterators and the destructor of a store do,
    and for which element types and builds dropping is undefined.
  \<^item> \<open>RwHeaderTests\<close>, \<open>RwBlockTests\<close>, \<open>RwStoreTests\<close>, \<open>RwIterTests\<close>: the unit tests of \<open>header.rs\<close>,
    \<open>block.rs\<close>, \<open>lib.rs\<close> and \<open>iter.rs\<close> and the examples of the documentation, on the model;
    those of \<open>timeout.rs\<close> are in \<open>RwTimeout\<close>. \<open>RwTests\<close>: all of them pass.
  \<^item> \<open>RwClient\<close>: \<open>threads_step\<close>, threads that run programs of reads, writes, removals and drops of
    guards on one element, on top of \<open>RwShared\<close>. \<open>RwPrograms\<close>: programs that keep a simple discipline
    neither panic nor deadlock. \<open>RwLoom\<close> and \<open>RwWaiting\<close>: the tests of \<open>loom.rs\<close> as such programs, which
    pass in every interleaving.

  \<^bold>\<open>Bounds and fuel.\<close> Integers have the width of the source (\<open>u32\<close>, \<open>u64\<close>; \<open>usize\<close> is 64 bits) and
  overflow is a panic or wraps, by the build. No function has fuel. The retry loops of a header
  end because each retry uses up a spurious failure of the weak exchange, whose number is an
  argument of the operation and universally quantified; \<open>transition\<close> and \<open>head_size_to_total_size\<close>
  may not end and are partial functions, whose calls are shown to return (or not) where they are
  used. The bounds in hypotheses are those of the code: a chain has at most 32 blocks, fewer than
  2^31 threads are between the two paths of an insert into one bucket, and fewer than 2^31 slots
  have been handed out in total.

  \<^bold>\<open>What is not modelled.\<close> Values that only a memory weaker than sequentially consistent can show:
  the runs are sequentially consistent, and the orderings decide what happens before what in them.
  The crates \<open>parking_lot\<close> and \<open>crossbeam\<close>: they are parameters, with the contracts \<open>parking\<close>,
  \<open>rw_locking\<close> and \<open>fifo\<close>. The compiler's layouts, whether the element type has a destructor, and the
  allocator: the parameter \<open>platform\<close>. The IDs of another store, which the crate excludes by its
  safety contract, outside \<open>store_new_empty\<close>.
  \<open>util/sync/thread.rs\<close>, whose hash seeds the choice of a bucket: the seed is
  arbitrary. The \<open>Debug\<close> output of an ID, the marker traits (\<open>Send\<close>, \<open>Sync\<close>, \<open>UnwindSafe\<close>) and
  their tests, and the benchmarks. \<open>NonNull::new_debug_checked\<close>: addresses are never null in the model.
\<close>

end
